(* ===== verification/Prelude.thy ===== *)
theory Prelude
  imports Main "HOL-Library.Word" "HOL-Library.Monad_Syntax"
begin

text \<open>
  Shared vocabulary of the development: the machine types the router uses, the lemma
  collections the component proofs draw on, and the generic facts about lists, options
  and words that several components need.
\<close>

section \<open>Machine types\<close>

text \<open>
  A file descriptor is a C \<open>int\<close> (negative: no descriptor), \<open>std::uint8_t\<close>,
  \<open>std::uint32_t\<close> and \<open>std::uint64_t\<close> are words. A \<open>std::size_t\<close> that only
  counts elements of a container in memory is a natural number.
\<close>

type_synonym fd = int
type_synonym byte = "8 word"
type_synonym u16 = "16 word"
type_synonym u32 = "32 word"
type_synonym u64 = "64 word"
type_synonym bytes = "byte list"

section \<open>Collections\<close>

text \<open>
  \<open>trace_simps\<close>: projections of an event history; \<open>world_simps\<close>: what a system call
  does to the fields of the world; \<open>metric_simps\<close>: the counters.
\<close>

named_theorems trace_simps
named_theorems world_simps
named_theorems metric_simps

section \<open>Options\<close>

lemma bind_SomeE:
  assumes "Option.bind m f = Some y"
  obtains x where "m = Some x" and "f x = Some y"
  using assms by (cases m) auto

lemma bind_ex_Some:
  assumes "\<exists>x. m = Some x" and "\<And>x. m = Some x \<Longrightarrow> \<exists>y. f x = Some y"
  shows "\<exists>y. Option.bind m f = Some y"
  using assms by auto

section \<open>Lists\<close>

lemma take_eq_append_dropD: "take n xs = ys \<Longrightarrow> xs = ys @ drop n xs"
  by (metis append_take_drop_id)

lemma length_4_exE:
  assumes "length xs = 4"
  obtains a b c d where "xs = [a, b, c, d]"
proof -
  from assms have "length xs = Suc (Suc (Suc (Suc 0)))"
    by simp
  then show ?thesis
    using that by (auto simp: length_Suc_conv)
qed

lemma sum_list_update_add:
  fixes xs :: "'a :: comm_monoid_add list"
  assumes "i < length xs"
  shows "sum_list (xs[i := v]) + xs ! i = sum_list xs + v"
  using assms
proof (induction xs arbitrary: i)
  case (Cons x xs)
  then show ?case by (cases i) (simp_all add: ac_simps)
qed simp

section \<open>Words\<close>

lemma unat_u8_less: "unat (x :: byte) < 256"
  using unsigned_less [of x] by simp

lemma unat_lt_2p32 [simp]: "unat (w :: u32) < 4294967296"
  using unsigned_less [of w] by simp

lemma unat_of_nat_u32 [simp]: "n < 4294967296 \<Longrightarrow> unat (of_nat n :: u32) = n"
  by (simp add: unat_of_nat)

lemma unat_ucast_byte_u32 [simp]: "unat (ucast (x :: byte) :: u32) = unat x"
  by (simp add: unsigned_ucast_eq take_bit_nat_eq_self_iff less_trans [OF unat_u8_less])

section \<open>Runs of a state machine\<close>

text \<open>
  The concurrent components are labelled step relations; \<open>runs step s acts t\<close> chains
  them. An invariant is proved once per step and holds after every run.
\<close>

inductive runs :: "('s \<Rightarrow> 'a \<Rightarrow> 's \<Rightarrow> bool) \<Rightarrow> 's \<Rightarrow> 'a list \<Rightarrow> 's \<Rightarrow> bool" for step where
  runs_Nil: "runs step s [] s"
| runs_Cons: "step s a t \<Longrightarrow> runs step t acts u \<Longrightarrow> runs step s (a # acts) u"

inductive_simps runs_Nil_iff [simp]: "runs step s [] t"
inductive_simps runs_Cons_iff: "runs step s (a # acts) t"

lemma runs_append: "runs step s xs t \<Longrightarrow> runs step t ys u \<Longrightarrow> runs step s (xs @ ys) u"
  by (induction rule: runs.induct) (auto intro: runs_Cons)

lemma runs_append_iff: "runs step s (xs @ ys) u \<longleftrightarrow> (\<exists>t. runs step s xs t \<and> runs step t ys u)"
  by (induction xs arbitrary: s) (auto simp: runs_Cons_iff)

lemma runs_one: "step s a t \<Longrightarrow> runs step s [a] t"
  by (simp add: runs_Cons_iff)

lemma runs_filtered:
  "runs step s acts t \<Longrightarrow> (\<And>a. a \<in> set acts \<Longrightarrow> P a) \<Longrightarrow> runs (\<lambda>s a t. step s a t \<and> P a) s acts t"
  by (induction rule: runs.induct) (auto intro: runs.intros)

locale machine_invariant =
  fixes step :: "'s \<Rightarrow> 'a \<Rightarrow> 's \<Rightarrow> bool" and ok :: "'s \<Rightarrow> bool"
  assumes ok_step: "ok s \<Longrightarrow> step s a t \<Longrightarrow> ok t"
begin

lemma ok_runs: "runs step s acts t \<Longrightarrow> ok s \<Longrightarrow> ok t"
  by (induction rule: runs.induct) (auto dest: ok_step)

end

text \<open>
  A machine implements another when its steps map to steps of the other or to none;
  \<open>lab\<close> gives the label of the step of the specification.
\<close>

locale simulation =
  fixes cstep :: "'s \<Rightarrow> 'a \<Rightarrow> 's \<Rightarrow> bool" and astep :: "'x \<Rightarrow> 'b \<Rightarrow> 'x \<Rightarrow> bool"
    and R :: "'s \<Rightarrow> 'x \<Rightarrow> bool" and lab :: "'a \<Rightarrow> 'b option"
  assumes sim_step: "R s x \<Longrightarrow> cstep s a t \<Longrightarrow>
      case lab a of None \<Rightarrow> R t x | Some b \<Rightarrow> \<exists>y. astep x b y \<and> R t y"
begin

lemma sim_runs: "runs cstep s acts t \<Longrightarrow> R s x \<Longrightarrow> \<exists>y. runs astep x (List.map_filter lab acts) y \<and> R t y"
proof (induction arbitrary: x rule: runs.induct)
  case (runs_Cons s a t acts u)
  show ?case
  proof (cases "lab a")
    case None
    with sim_step [OF runs_Cons.prems runs_Cons.hyps(1)] have "R t x" by simp
    from runs_Cons.IH [OF this] None show ?thesis by (simp add: List.map_filter_simps)
  next
    case (Some b)
    with sim_step [OF runs_Cons.prems runs_Cons.hyps(1)] obtain y where "astep x b y" "R t y" by auto
    with runs_Cons.IH [of y] Some show ?thesis
      by (auto simp: List.map_filter_simps runs_Cons_iff)
  qed
qed (auto simp: List.map_filter_simps)

end

end
