(* ===== verification/Text_Format.thy ===== *)
theory Text_Format
  imports Prelude
begin

text \<open>
  The pieces of the C library the router formats and parses numbers with: the decimal
  conversion of \<open>%llu\<close> in \<open>snprintf\<close>, the truncation \<open>snprintf\<close> applies to a bounded
  buffer, and \<open>atoi\<close> as glibc implements it.
\<close>

section \<open>Decimal output\<close>

definition digit_char :: "nat \<Rightarrow> char" where
  "digit_char d = char_of (48 + d)"

fun show_nat :: "nat \<Rightarrow> string" where
  "show_nat n = (if n < 10 then [digit_char n] else show_nat (n div 10) @ [digit_char (n mod 10)])"

declare show_nat.simps [simp del]

text \<open>
  \<open>snprintf (buf, cap, ...)\<close> stores at most \<open>cap - 1\<close> characters and a final NUL;
  \<open>std::string(buf)\<close> reads up to the NUL.
\<close>

definition snprintf :: "nat \<Rightarrow> string \<Rightarrow> string" where
  "snprintf cap text = take (cap - 1) text"

lemma length_show_nat: "n < 10 ^ k \<Longrightarrow> 0 < k \<Longrightarrow> length (show_nat n) \<le> k"
proof (induction n arbitrary: k rule: show_nat.induct)
  case (1 n)
  show ?case
  proof (cases "n < 10")
    case True
    with 1(3) show ?thesis by (simp add: show_nat.simps [of n])
  next
    case False
    with 1(2) have "k \<noteq> 1" by auto
    with 1(3) obtain k' where k: "k = Suc k'" and "0 < k'"
      by (metis One_nat_def gr0_conv_Suc neq0_conv)
    with 1(2) have "n div 10 < 10 ^ k'" by (simp add: less_mult_imp_div_less mult.commute)
    with 1(1) [OF False] \<open>0 < k'\<close> have "length (show_nat (n div 10)) \<le> k'" by blast
    with False k show ?thesis by (simp add: show_nat.simps [of n])
  qed
qed

lemma length_show_u64: "length (show_nat (unat (x :: u64))) \<le> 20"
proof -
  have "unat x < 2 ^ 64" using unsigned_less [of x] by simp
  then have "unat x < 10 ^ 20" by simp
  then show ?thesis by (rule length_show_nat) simp
qed

section \<open>Decimal input\<close>

text \<open>
  \<open>isspace\<close> in the C locale, \<open>isdigit\<close>, and the value of a maximal run of digits.
\<close>

definition is_space :: "char \<Rightarrow> bool" where
  "is_space c \<longleftrightarrow> of_char c \<in> {9, 10, 11, 12, 13, 32 :: nat}"

definition is_digit :: "char \<Rightarrow> bool" where
  "is_digit c \<longleftrightarrow> 48 \<le> (of_char c :: nat) \<and> (of_char c :: nat) \<le> 57"

definition digit_value :: "char \<Rightarrow> nat" where
  "digit_value c = of_char c - 48"

fun digits_value :: "nat \<Rightarrow> string \<Rightarrow> nat" where
  "digits_value acc [] = acc"
| "digits_value acc (c # cs) =
     (if is_digit c then digits_value (10 * acc + digit_value c) cs else acc)"

text \<open>
  \<open>strtol\<close> skips blanks, reads one optional sign and the digits that follow, and
  saturates at the range of \<open>long\<close>; a string without digits gives 0. glibc's \<open>atoi\<close>
  is \<open>(int) strtol (s, NULL, 10)\<close>, which keeps the low 32 bits.
\<close>

definition long_clamp :: "int \<Rightarrow> int" where
  "long_clamp v = max (- (2 ^ 63)) (min (2 ^ 63 - 1) v)"

definition strtol :: "string \<Rightarrow> int" where
  "strtol s =
     (case dropWhile is_space s of
        [] \<Rightarrow> 0
      | c # cs \<Rightarrow>
          if c = CHR ''-'' then long_clamp (- int (digits_value 0 cs))
          else if c = CHR ''+'' then long_clamp (int (digits_value 0 cs))
          else long_clamp (int (digits_value 0 (c # cs))))"

definition atoi :: "string \<Rightarrow> int" where
  "atoi s = sint (of_int (strtol s) :: 32 word)"

text \<open>Decimal output read back by decimal input.\<close>

lemma of_char_digit_char: "d < 10 \<Longrightarrow> (of_char (digit_char d) :: nat) = 48 + d"
  by (simp add: digit_char_def)

lemma is_digit_digit_char [simp]: "d < 10 \<Longrightarrow> is_digit (digit_char d)"
  by (simp add: is_digit_def of_char_digit_char)

lemma digit_value_digit_char [simp]: "d < 10 \<Longrightarrow> digit_value (digit_char d) = d"
  by (simp add: digit_value_def of_char_digit_char)

lemma is_digit_show_nat: "list_all is_digit (show_nat n)"
  by (induction n rule: show_nat.induct) (subst show_nat.simps, simp)

lemma show_nat_not_Nil [simp]: "show_nat n \<noteq> []"
  by (subst show_nat.simps) simp

lemma digits_value_append:
  "list_all is_digit xs \<Longrightarrow> digits_value acc (xs @ ys) = digits_value (digits_value acc xs) ys"
  by (induction xs arbitrary: acc) auto

lemma digits_value_show_nat: "digits_value 0 (show_nat n) = n"
proof (induction n rule: show_nat.induct)
  case (1 n)
  show ?case
  proof (cases "n < 10")
    case True
    then show ?thesis by (simp add: show_nat.simps [of n])
  next
    case False
    with 1 have IH: "digits_value 0 (show_nat (n div 10)) = n div 10" by blast
    have "digits_value 0 (show_nat n)
        = digits_value (digits_value 0 (show_nat (n div 10))) [digit_char (n mod 10)]"
      using False
      by (simp add: show_nat.simps [of n] digits_value_append [OF is_digit_show_nat])
    with IH show ?thesis by simp
  qed
qed

lemma digits_value_stop: "\<not> is_digit c \<Longrightarrow> digits_value acc (c # cs) = acc"
  by simp

lemma digit_not_special:
  assumes "is_digit c"
  shows "\<not> is_space c" and "c \<noteq> CHR ''-''" and "c \<noteq> CHR ''+''" and "c \<noteq> CHR '':''"
  using assms by (auto simp: is_digit_def is_space_def)

lemma strtol_digits:
  assumes "list_all is_digit ds" and "ds \<noteq> []"
    and "rest = [] \<or> \<not> is_digit (hd rest)"
  shows "strtol (ds @ rest) = long_clamp (int (digits_value 0 ds))"
proof -
  obtain c cs where ds: "ds = c # cs" using assms(2) by (cases ds) auto
  with assms(1) have c: "is_digit c" by simp
  have stop: "digits_value a rest = a" for a
    using assms(3) by (cases rest) auto
  have "strtol (ds @ rest) = long_clamp (int (digits_value 0 (ds @ rest)))"
    using digit_not_special [OF c] by (simp add: strtol_def ds)
  also have "digits_value 0 (ds @ rest) = digits_value 0 ds"
    using digits_value_append [OF assms(1)] stop by simp
  finally show ?thesis .
qed

lemma long_clamp_id: "- (2 ^ 63) \<le> v \<Longrightarrow> v < 2 ^ 63 \<Longrightarrow> long_clamp v = v"
  by (simp add: long_clamp_def)

lemma sint_of_int_32: "0 \<le> v \<Longrightarrow> v < 2147483648 \<Longrightarrow> sint (of_int v :: 32 word) = v"
  by (simp add: sint_word_ariths signed_of_int signed_take_bit_int_eq_self_iff)

lemma atoi_digits:
  assumes "list_all is_digit ds" and "ds \<noteq> []"
    and "rest = [] \<or> \<not> is_digit (hd rest)" and "digits_value 0 ds < 2147483648"
  shows "atoi (ds @ rest) = int (digits_value 0 ds)"
  using assms
  by (simp add: atoi_def strtol_digits long_clamp_id sint_of_int_32 del: of_int_of_nat_eq)

lemma atoi_show_nat:
  assumes "n < 2147483648" and "rest = [] \<or> \<not> is_digit (hd rest)"
  shows "atoi (show_nat n @ rest) = int n"
  using atoi_digits [OF is_digit_show_nat show_nat_not_Nil assms(2)] assms(1)
  by (simp add: digits_value_show_nat)

lemma atoi_range: "- 2147483648 \<le> atoi s \<and> atoi s < 2147483648"
  using sint_ge [of "of_int (strtol s) :: 32 word"] sint_lt [of "of_int (strtol s) :: 32 word"]
  by (simp add: atoi_def)

end
