(* ===== verification/Metrics.thy ===== *)
theory Metrics
  imports Text_Format "HOL-Library.Multiset"
begin

text \<open>
  \<open>src/src/metrics.h\<close> and \<open>metrics.cpp\<close>: the process-wide counters. Each counter is a
  64-bit atomic, so \<open>fetch_add\<close> and \<open>fetch_sub\<close> wrap around and every operation is one
  indivisible step; \<open>metric_op\<close> names the operations so that a history of them can be
  recorded and replayed in any interleaving.
\<close>

record metrics =
  accepted :: u64
  completed :: u64
  errored :: u64
  dropped :: u64
  in_flight :: u64
  pool_borrows :: u64
  pool_creates :: u64

definition metrics_init :: metrics where
  "metrics_init = \<lparr>accepted = 0, completed = 0, errored = 0, dropped = 0, in_flight = 0,
     pool_borrows = 0, pool_creates = 0\<rparr>"

definition inc_accepted :: "metrics \<Rightarrow> metrics" where
  "inc_accepted m = m\<lparr>accepted := accepted m + 1\<rparr>"

definition inc_completed :: "metrics \<Rightarrow> metrics" where
  "inc_completed m = m\<lparr>completed := completed m + 1\<rparr>"

definition inc_errored :: "metrics \<Rightarrow> metrics" where
  "inc_errored m = m\<lparr>errored := errored m + 1\<rparr>"

definition inc_dropped :: "metrics \<Rightarrow> metrics" where
  "inc_dropped m = m\<lparr>dropped := dropped m + 1\<rparr>"

definition inc_in_flight :: "metrics \<Rightarrow> metrics" where
  "inc_in_flight m = m\<lparr>in_flight := in_flight m + 1\<rparr>"

definition dec_in_flight :: "metrics \<Rightarrow> metrics" where
  "dec_in_flight m = m\<lparr>in_flight := in_flight m - 1\<rparr>"

definition inc_pool_borrow :: "metrics \<Rightarrow> metrics" where
  "inc_pool_borrow m = m\<lparr>pool_borrows := pool_borrows m + 1\<rparr>"

definition inc_pool_create :: "metrics \<Rightarrow> metrics" where
  "inc_pool_create m = m\<lparr>pool_creates := pool_creates m + 1\<rparr>"

lemmas metric_op_defs = inc_accepted_def inc_completed_def inc_errored_def inc_dropped_def
  inc_in_flight_def dec_in_flight_def inc_pool_borrow_def inc_pool_create_def

declare metric_op_defs [metric_simps]

datatype metric_op =
    Inc_accepted | Inc_completed | Inc_errored | Inc_dropped
  | Inc_in_flight | Dec_in_flight | Inc_pool_borrow | Inc_pool_create

fun apply_metric :: "metric_op \<Rightarrow> metrics \<Rightarrow> metrics" where
  "apply_metric Inc_accepted = inc_accepted"
| "apply_metric Inc_completed = inc_completed"
| "apply_metric Inc_errored = inc_errored"
| "apply_metric Inc_dropped = inc_dropped"
| "apply_metric Inc_in_flight = inc_in_flight"
| "apply_metric Dec_in_flight = dec_in_flight"
| "apply_metric Inc_pool_borrow = inc_pool_borrow"
| "apply_metric Inc_pool_create = inc_pool_create"

definition apply_metrics :: "metric_op list \<Rightarrow> metrics \<Rightarrow> metrics" where
  "apply_metrics ops m = fold apply_metric ops m"

text \<open>\<open>Metrics::snapshot_string\<close>: one \<open>snprintf\<close> into a 256-byte buffer.\<close>

definition snapshot_text :: "metrics \<Rightarrow> string" where
  "snapshot_text m =
     ''accepted='' @ show_nat (unat (accepted m)) @
     '' completed='' @ show_nat (unat (completed m)) @
     '' errored='' @ show_nat (unat (errored m)) @
     '' dropped='' @ show_nat (unat (dropped m)) @
     '' in_flight='' @ show_nat (unat (in_flight m)) @
     '' pool_borrows='' @ show_nat (unat (pool_borrows m)) @
     '' pool_creates='' @ show_nat (unat (pool_creates m))"

definition snapshot_string :: "metrics \<Rightarrow> string" where
  "snapshot_string m = snprintf 256 (snapshot_text m)"

section \<open>Histories of counter operations\<close>

lemma apply_metrics_simps [simp]:
  "apply_metrics [] m = m"
  "apply_metrics (x # xs) m = apply_metrics xs (apply_metric x m)"
  "apply_metrics (xs @ ys) m = apply_metrics ys (apply_metrics xs m)"
  by (simp_all add: apply_metrics_def)

lemma apply_metric_commute: "apply_metric a (apply_metric b m) = apply_metric b (apply_metric a m)"
  by (cases a; cases b; simp add: metric_op_defs)

text \<open>
  What a history leaves in each counter: the number of its increments, as a 64-bit value.
\<close>

lemma apply_metric_counters:
  "accepted (apply_metric op m) = accepted m + (if op = Inc_accepted then 1 else 0)"
  "completed (apply_metric op m) = completed m + (if op = Inc_completed then 1 else 0)"
  "errored (apply_metric op m) = errored m + (if op = Inc_errored then 1 else 0)"
  "dropped (apply_metric op m) = dropped m + (if op = Inc_dropped then 1 else 0)"
  "in_flight (apply_metric op m) = in_flight m + (if op = Inc_in_flight then 1 else 0)
     - (if op = Dec_in_flight then 1 else 0)"
  "pool_borrows (apply_metric op m) = pool_borrows m + (if op = Inc_pool_borrow then 1 else 0)"
  "pool_creates (apply_metric op m) = pool_creates m + (if op = Inc_pool_create then 1 else 0)"
  by (cases op; simp add: metric_op_defs)+

lemma apply_metrics_counters:
  "accepted (apply_metrics ops m) = accepted m + of_nat (count_list ops Inc_accepted)"
  "completed (apply_metrics ops m) = completed m + of_nat (count_list ops Inc_completed)"
  "errored (apply_metrics ops m) = errored m + of_nat (count_list ops Inc_errored)"
  "dropped (apply_metrics ops m) = dropped m + of_nat (count_list ops Inc_dropped)"
  "in_flight (apply_metrics ops m) = in_flight m + of_nat (count_list ops Inc_in_flight)
     - of_nat (count_list ops Dec_in_flight)"
  "pool_borrows (apply_metrics ops m) = pool_borrows m + of_nat (count_list ops Inc_pool_borrow)"
  "pool_creates (apply_metrics ops m) = pool_creates m + of_nat (count_list ops Inc_pool_create)"
  by (induction ops arbitrary: m)
    (simp_all add: apply_metric_counters)

text \<open>
  The relaxed atomics leave no order between the operations of different threads; the
  counters do not depend on it.
\<close>

lemma apply_metrics_permute: "mset xs = mset ys \<Longrightarrow> apply_metrics xs m = apply_metrics ys m"
  unfolding apply_metrics_def
  by (rule fun_cong [OF fold_multiset_equiv]) (auto simp: fun_eq_iff apply_metric_commute)

section \<open>The snapshot line\<close>

lemma length_snapshot_text: "length (snapshot_text m) \<le> 219"
  using length_show_u64 [of "accepted m"] length_show_u64 [of "completed m"]
    length_show_u64 [of "errored m"] length_show_u64 [of "dropped m"]
    length_show_u64 [of "in_flight m"] length_show_u64 [of "pool_borrows m"]
    length_show_u64 [of "pool_creates m"]
  by (simp add: snapshot_text_def)

end
