(* ===== verification/System_Calls.thy ===== *)
theory System_Calls
  imports Metrics
begin

text \<open>
  The operating system as the router sees it. The kernel is not part of the repository, so
  it is a parameter: a record of functions over an abstract environment \<open>'e\<close>, one per
  system call, each returning what the call returned and the environment after it. The
  sources are written against the return conventions of the calls, which the result types
  spell out. A \<open>world\<close> is an environment together with the process state every component
  shares (the \<open>Metrics\<close> counters) and the history of what the process did to its
  descriptors and counters, which the properties are stated over.
\<close>

section \<open>Results of the calls\<close>

text \<open>Linux defines \<open>EWOULDBLOCK\<close> as \<open>EAGAIN\<close>.\<close>

datatype errno =
    EINTR | EAGAIN | EPIPE | ECONNRESET | EINPROGRESS | ECONNREFUSED | ECONNABORTED
  | ETIMEDOUT | EINVAL | ENOENT | Errno nat

abbreviation EWOULDBLOCK :: errno where "EWOULDBLOCK \<equiv> EAGAIN"

datatype poll_events = POLLIN | POLLOUT

text \<open>
  \<open>PollReady b\<close>: positive return, \<open>b\<close> tells whether one of \<open>POLLERR\<close>, \<open>POLLHUP\<close>,
  \<open>POLLNVAL\<close> is set in \<open>revents\<close>.
\<close>

datatype poll_result = PollReady bool | PollTimeout | PollErr errno
datatype recv_result = RecvData bytes | RecvEof | RecvErr errno
datatype send_result = SendCount nat | SendErr errno

section \<open>The calls\<close>

text \<open>
  The clock is \<open>std::chrono::steady_clock\<close> in nanoseconds. \<open>os_recv fd n\<close> is a \<open>recv\<close>
  into a buffer with room for \<open>n\<close> bytes, \<open>os_send fd bs\<close> a \<open>send\<close> of \<open>bs\<close> with
  \<open>MSG_NOSIGNAL\<close>, \<open>os_getfl\<close> and \<open>os_setfl\<close> are \<open>fcntl\<close> with \<open>F_GETFL\<close> (None:
  negative return) and \<open>F_SETFL\<close> (whether it returned 0).
\<close>

record 'e os =
  os_clock :: "'e \<Rightarrow> int \<times> 'e"
  os_poll :: "fd \<Rightarrow> poll_events \<Rightarrow> int \<Rightarrow> 'e \<Rightarrow> poll_result \<times> 'e"
  os_recv :: "fd \<Rightarrow> nat \<Rightarrow> 'e \<Rightarrow> recv_result \<times> 'e"
  os_send :: "fd \<Rightarrow> bytes \<Rightarrow> 'e \<Rightarrow> send_result \<times> 'e"
  os_close :: "fd \<Rightarrow> 'e \<Rightarrow> errno option \<times> 'e"
  os_getfl :: "fd \<Rightarrow> 'e \<Rightarrow> u32 option \<times> 'e"
  os_setfl :: "fd \<Rightarrow> u32 \<Rightarrow> 'e \<Rightarrow> bool \<times> 'e"

section \<open>Histories\<close>

text \<open>
  \<open>EvPlain\<close> events are byte transfers on a descriptor, \<open>EvTls\<close> events byte transfers
  through the TLS session that wraps a descriptor.
\<close>

datatype event =
    EvRecv fd bytes | EvSend fd bytes
  | EvTlsRead fd bytes | EvTlsWrite fd bytes
  | EvOpen fd | EvClose fd | EvMetric metric_op

fun recv_part :: "fd \<Rightarrow> event \<Rightarrow> bytes" where
  "recv_part f (EvRecv g bs) = (if f = g then bs else [])"
| "recv_part f _ = []"

fun send_part :: "fd \<Rightarrow> event \<Rightarrow> bytes" where
  "send_part f (EvSend g bs) = (if f = g then bs else [])"
| "send_part f _ = []"

fun tls_read_part :: "fd \<Rightarrow> event \<Rightarrow> bytes" where
  "tls_read_part f (EvTlsRead g bs) = (if f = g then bs else [])"
| "tls_read_part f _ = []"

fun tls_write_part :: "fd \<Rightarrow> event \<Rightarrow> bytes" where
  "tls_write_part f (EvTlsWrite g bs) = (if f = g then bs else [])"
| "tls_write_part f _ = []"

fun metric_part :: "event \<Rightarrow> metric_op list" where
  "metric_part (EvMetric op) = [op]"
| "metric_part _ = []"

fun close_part :: "event \<Rightarrow> fd list" where
  "close_part (EvClose f) = [f]"
| "close_part _ = []"

fun open_part :: "event \<Rightarrow> fd list" where
  "open_part (EvOpen f) = [f]"
| "open_part _ = []"

definition received :: "fd \<Rightarrow> event list \<Rightarrow> bytes" where
  "received f evs = concat (map (recv_part f) evs)"

definition sent :: "fd \<Rightarrow> event list \<Rightarrow> bytes" where
  "sent f evs = concat (map (send_part f) evs)"

definition tls_read :: "fd \<Rightarrow> event list \<Rightarrow> bytes" where
  "tls_read f evs = concat (map (tls_read_part f) evs)"

definition tls_written :: "fd \<Rightarrow> event list \<Rightarrow> bytes" where
  "tls_written f evs = concat (map (tls_write_part f) evs)"

definition metric_ops :: "event list \<Rightarrow> metric_op list" where
  "metric_ops evs = concat (map metric_part evs)"

definition closes :: "event list \<Rightarrow> fd list" where
  "closes evs = concat (map close_part evs)"

definition opens :: "event list \<Rightarrow> fd list" where
  "opens evs = concat (map open_part evs)"

lemma projections_Nil [trace_simps]:
  "received f [] = []" "sent f [] = []" "tls_read f [] = []" "tls_written f [] = []"
  "metric_ops [] = []" "closes [] = []" "opens [] = []"
  by (simp_all add: received_def sent_def tls_read_def tls_written_def metric_ops_def
      closes_def opens_def)

lemma projections_Cons [trace_simps]:
  "received f (x # xs) = recv_part f x @ received f xs"
  "sent f (x # xs) = send_part f x @ sent f xs"
  "tls_read f (x # xs) = tls_read_part f x @ tls_read f xs"
  "tls_written f (x # xs) = tls_write_part f x @ tls_written f xs"
  "metric_ops (x # xs) = metric_part x @ metric_ops xs"
  "closes (x # xs) = close_part x @ closes xs"
  "opens (x # xs) = open_part x @ opens xs"
  by (simp_all add: received_def sent_def tls_read_def tls_written_def metric_ops_def
      closes_def opens_def)

lemma projections_append [trace_simps]:
  "received f (xs @ ys) = received f xs @ received f ys"
  "sent f (xs @ ys) = sent f xs @ sent f ys"
  "tls_read f (xs @ ys) = tls_read f xs @ tls_read f ys"
  "tls_written f (xs @ ys) = tls_written f xs @ tls_written f ys"
  "metric_ops (xs @ ys) = metric_ops xs @ metric_ops ys"
  "closes (xs @ ys) = closes xs @ closes ys"
  "opens (xs @ ys) = opens xs @ opens ys"
  by (simp_all add: received_def sent_def tls_read_def tls_written_def metric_ops_def
      closes_def opens_def)

section \<open>The world\<close>

record 'e world =
  env :: 'e
  metrics_of :: metrics
  trace :: "event list"

definition emit :: "event list \<Rightarrow> 'e world \<Rightarrow> 'e world" where
  "emit evs w = w\<lparr>trace := trace w @ evs\<rparr>"

definition metric :: "metric_op \<Rightarrow> 'e world \<Rightarrow> 'e world" where
  "metric op w = emit [EvMetric op] (w\<lparr>metrics_of := apply_metric op (metrics_of w)\<rparr>)"

definition sys_clock :: "'e os \<Rightarrow> 'e world \<Rightarrow> int \<times> 'e world" where
  "sys_clock os w = (case os_clock os (env w) of (t, e) \<Rightarrow> (t, w\<lparr>env := e\<rparr>))"

definition sys_poll ::
    "'e os \<Rightarrow> fd \<Rightarrow> poll_events \<Rightarrow> int \<Rightarrow> 'e world \<Rightarrow> poll_result \<times> 'e world" where
  "sys_poll os f ev t w = (case os_poll os f ev t (env w) of (r, e) \<Rightarrow> (r, w\<lparr>env := e\<rparr>))"

fun recv_events :: "fd \<Rightarrow> recv_result \<Rightarrow> event list" where
  "recv_events f (RecvData bs) = [EvRecv f bs]"
| "recv_events f _ = []"

definition sys_recv :: "'e os \<Rightarrow> fd \<Rightarrow> nat \<Rightarrow> 'e world \<Rightarrow> recv_result \<times> 'e world" where
  "sys_recv os f n w =
     (case os_recv os f n (env w) of (r, e) \<Rightarrow> (r, emit (recv_events f r) (w\<lparr>env := e\<rparr>)))"

fun send_events :: "fd \<Rightarrow> bytes \<Rightarrow> send_result \<Rightarrow> event list" where
  "send_events f bs (SendCount k) = [EvSend f (take k bs)]"
| "send_events f bs _ = []"

definition sys_send :: "'e os \<Rightarrow> fd \<Rightarrow> bytes \<Rightarrow> 'e world \<Rightarrow> send_result \<times> 'e world" where
  "sys_send os f bs w =
     (case os_send os f bs (env w) of (r, e) \<Rightarrow> (r, emit (send_events f bs r) (w\<lparr>env := e\<rparr>)))"

text \<open>
  One \<open>close\<close> call. The history records the call that gives the descriptor up, not the
  calls a signal interrupted.
\<close>

definition sys_close :: "'e os \<Rightarrow> fd \<Rightarrow> 'e world \<Rightarrow> errno option \<times> 'e world" where
  "sys_close os f w =
     (case os_close os f (env w) of (r, e) \<Rightarrow>
        (r, emit (if r = Some EINTR then [] else [EvClose f]) (w\<lparr>env := e\<rparr>)))"

definition sys_getfl :: "'e os \<Rightarrow> fd \<Rightarrow> 'e world \<Rightarrow> u32 option \<times> 'e world" where
  "sys_getfl os f w = (case os_getfl os f (env w) of (r, e) \<Rightarrow> (r, w\<lparr>env := e\<rparr>))"

definition sys_setfl :: "'e os \<Rightarrow> fd \<Rightarrow> u32 \<Rightarrow> 'e world \<Rightarrow> bool \<times> 'e world" where
  "sys_setfl os f v w = (case os_setfl os f v (env w) of (r, e) \<Rightarrow> (r, w\<lparr>env := e\<rparr>))"

lemma emit_simps [world_simps]:
  "env (emit evs w) = env w" "metrics_of (emit evs w) = metrics_of w"
  "trace (emit evs w) = trace w @ evs"
  by (simp_all add: emit_def)

lemma metric_world [world_simps]:
  "env (metric op w) = env w" "metrics_of (metric op w) = apply_metric op (metrics_of w)"
  "trace (metric op w) = trace w @ [EvMetric op]"
  by (simp_all add: metric_def emit_def)

section \<open>What one piece of code did\<close>

text \<open>
  \<open>did w evs w'\<close>: between the worlds \<open>w\<close> and \<open>w'\<close> the process did exactly \<open>evs\<close>;
  in particular the counters changed by the counter operations of \<open>evs\<close>.
\<close>

definition did :: "'e world \<Rightarrow> event list \<Rightarrow> 'e world \<Rightarrow> bool" where
  "did w evs w' \<longleftrightarrow> trace w' = trace w @ evs \<and>
     metrics_of w' = apply_metrics (metric_ops evs) (metrics_of w)"

lemma did_refl [intro, simp]: "did w [] w"
  by (simp add: did_def trace_simps)

lemma did_trans [trans]: "did w xs v \<Longrightarrow> did v ys u \<Longrightarrow> did w (xs @ ys) u"
  by (simp add: did_def trace_simps)

lemma did_silent: "did w [] v \<Longrightarrow> did v evs u \<Longrightarrow> did w evs u"
  by (simp add: did_def trace_simps)

lemma did_silent2: "did w evs v \<Longrightarrow> did v [] u \<Longrightarrow> did w evs u"
  by (simp add: did_def trace_simps)

lemma did_trace: "did w evs w' \<Longrightarrow> trace w' = trace w @ evs"
  by (simp add: did_def)

lemma did_unique: "did w xs w' \<Longrightarrow> did w ys w' \<Longrightarrow> xs = ys"
  by (simp add: did_def)

lemma did_metric: "did w [EvMetric op] (metric op w)"
  by (simp add: did_def world_simps trace_simps)

lemma did_clock: "sys_clock os w = (t, w') \<Longrightarrow> did w [] w'"
  by (auto simp: sys_clock_def did_def trace_simps split: prod.splits)

lemma did_poll: "sys_poll os f ev t w = (r, w') \<Longrightarrow> did w [] w'"
  by (auto simp: sys_poll_def did_def trace_simps split: prod.splits)

lemma did_recv: "sys_recv os f n w = (r, w') \<Longrightarrow> did w (recv_events f r) w'"
  by (cases r) (auto simp: sys_recv_def did_def trace_simps world_simps split: prod.splits)

lemma did_send: "sys_send os f bs w = (r, w') \<Longrightarrow> did w (send_events f bs r) w'"
  by (cases r) (auto simp: sys_send_def did_def trace_simps world_simps split: prod.splits)

lemma did_close:
  "sys_close os f w = (r, w') \<Longrightarrow> did w (if r = Some EINTR then [] else [EvClose f]) w'"
  by (auto simp: sys_close_def did_def trace_simps world_simps split: prod.splits)

lemma did_getfl: "sys_getfl os f w = (r, w') \<Longrightarrow> did w [] w'"
  by (auto simp: sys_getfl_def did_def trace_simps split: prod.splits)

lemma did_setfl: "sys_setfl os f v w = (r, w') \<Longrightarrow> did w [] w'"
  by (auto simp: sys_setfl_def did_def trace_simps split: prod.splits)

text \<open>
  \<open>transferred C w bs w'\<close>: the process moved the bytes \<open>bs\<close>, in some division into
  chunks, by events \<open>C chunk\<close> and did nothing else. \<open>C\<close> is one of the four transfer
  constructors applied to a descriptor.
\<close>

definition transferred :: "(bytes \<Rightarrow> event) \<Rightarrow> 'e world \<Rightarrow> bytes \<Rightarrow> 'e world \<Rightarrow> bool" where
  "transferred C w bs w' \<longleftrightarrow> (\<exists>chunks. did w (map C chunks) w' \<and> concat chunks = bs)"

lemma transferredE:
  assumes "transferred C w bs w'"
  obtains cs where "did w (map C cs) w'" and "concat cs = bs"
  using assms by (auto simp: transferred_def)

lemma transferred_Nil: "did w [] w' \<Longrightarrow> transferred C w [] w'"
  by (auto simp: transferred_def intro!: exI [of _ "[]"])

lemma transferred_one: "did w [C bs] w' \<Longrightarrow> transferred C w bs w'"
  by (auto simp: transferred_def intro!: exI [of _ "[bs]"])

lemma transferred_trans:
  assumes "transferred C w xs v" and "transferred C v ys u"
  shows "transferred C w (xs @ ys) u"
proof -
  obtain a b where "did w (map C a) v" "concat a = xs" "did v (map C b) u" "concat b = ys"
    using assms by (auto simp: transferred_def)
  then show ?thesis
    by (auto simp: transferred_def intro!: exI [of _ "a @ b"] dest: did_trans)
qed

lemma transferred_silent: "did w [] v \<Longrightarrow> transferred C v bs u \<Longrightarrow> transferred C w bs u"
  using transferred_trans [OF transferred_Nil] by fastforce

lemma transferred_step: "did w [C xs] v \<Longrightarrow> transferred C v ys u \<Longrightarrow> transferred C w (xs @ ys) u"
  by (rule transferred_trans [OF transferred_one])

text \<open>What a transfer amounts to in each projection of the history.\<close>

lemma map_event_quiet [trace_simps]:
  "received g (map (EvRecv f) cs) = (if g = f then concat cs else [])"
  "received g (map (EvSend f) cs) = []" "received g (map (EvTlsRead f) cs) = []"
  "received g (map (EvTlsWrite f) cs) = []"
  "sent g (map (EvSend f) cs) = (if g = f then concat cs else [])"
  "sent g (map (EvRecv f) cs) = []" "sent g (map (EvTlsRead f) cs) = []"
  "sent g (map (EvTlsWrite f) cs) = []"
  "tls_read g (map (EvTlsRead f) cs) = (if g = f then concat cs else [])"
  "tls_read g (map (EvRecv f) cs) = []" "tls_read g (map (EvSend f) cs) = []"
  "tls_read g (map (EvTlsWrite f) cs) = []"
  "tls_written g (map (EvTlsWrite f) cs) = (if g = f then concat cs else [])"
  "tls_written g (map (EvRecv f) cs) = []" "tls_written g (map (EvSend f) cs) = []"
  "tls_written g (map (EvTlsRead f) cs) = []"
  "metric_ops (map (EvRecv f) cs) = []" "metric_ops (map (EvSend f) cs) = []"
  "metric_ops (map (EvTlsRead f) cs) = []" "metric_ops (map (EvTlsWrite f) cs) = []"
  "closes (map (EvRecv f) cs) = []" "closes (map (EvSend f) cs) = []"
  "closes (map (EvTlsRead f) cs) = []" "closes (map (EvTlsWrite f) cs) = []"
  "opens (map (EvRecv f) cs) = []" "opens (map (EvSend f) cs) = []"
  "opens (map (EvTlsRead f) cs) = []" "opens (map (EvTlsWrite f) cs) = []"
  by (induction cs; simp add: trace_simps)+

section \<open>Documented behaviour the code relies on\<close>

text \<open>
  \<open>recv_bounded\<close>: \<open>recv\<close> stores at most as many bytes as asked for, and a positive return
  stores at least one. \<open>send_bounded\<close>: \<open>send\<close> accepts at most the bytes it was given.
\<close>

definition recv_bounded :: "'e os \<Rightarrow> bool" where
  "recv_bounded os \<longleftrightarrow>
     (\<forall>f n e bs. fst (os_recv os f n e) = RecvData bs \<longrightarrow> 0 < n \<longrightarrow> bs \<noteq> [] \<and> length bs \<le> n)"

definition send_bounded :: "'e os \<Rightarrow> bool" where
  "send_bounded os \<longleftrightarrow>
     (\<forall>f bs e k. fst (os_send os f bs e) = SendCount k \<longrightarrow> k \<le> length bs)"

text \<open>
  \<open>finite_interrupts os budget\<close>: every call a signal interrupts (\<open>EINTR\<close>) and every
  spurious readiness (\<open>EAGAIN\<close> after \<open>poll\<close> said ready) uses up some of a finite budget
  that no other call replenishes, and a blocking \<open>send\<close> takes at least one byte. This is
  the fairness every retry loop of the sources needs in order to end.
\<close>

fun poll_cost :: "poll_result \<Rightarrow> nat" where
  "poll_cost (PollErr e) = (if e = EINTR then 1 else 0)"
| "poll_cost _ = 0"

fun recv_cost :: "recv_result \<Rightarrow> nat" where
  "recv_cost (RecvErr e) = (if e = EINTR \<or> e = EAGAIN then 1 else 0)"
| "recv_cost _ = 0"

fun send_cost :: "send_result \<Rightarrow> nat" where
  "send_cost (SendErr e) = (if e = EINTR \<or> e = EAGAIN then 1 else 0)"
| "send_cost _ = 0"

definition close_cost :: "errno option \<Rightarrow> nat" where
  "close_cost r = (if r = Some EINTR then 1 else 0)"

definition finite_interrupts :: "'e os \<Rightarrow> ('e \<Rightarrow> nat) \<Rightarrow> bool" where
  "finite_interrupts os budget \<longleftrightarrow>
     (\<forall>e. budget (snd (os_clock os e)) \<le> budget e) \<and>
     (\<forall>f ev t e. budget (snd (os_poll os f ev t e)) + poll_cost (fst (os_poll os f ev t e)) \<le> budget e) \<and>
     (\<forall>f n e. budget (snd (os_recv os f n e)) + recv_cost (fst (os_recv os f n e)) \<le> budget e) \<and>
     (\<forall>f bs e. budget (snd (os_send os f bs e)) + send_cost (fst (os_send os f bs e)) \<le> budget e) \<and>
     (\<forall>f bs e. bs \<noteq> [] \<longrightarrow> fst (os_send os f bs e) \<noteq> SendCount 0) \<and>
     (\<forall>f e. budget (snd (os_close os f e)) + close_cost (fst (os_close os f e)) \<le> budget e) \<and>
     (\<forall>f e. budget (snd (os_getfl os f e)) \<le> budget e) \<and>
     (\<forall>f v e. budget (snd (os_setfl os f v e)) \<le> budget e)"

lemma recv_boundedD:
  assumes "recv_bounded os" and "sys_recv os f n w = (RecvData bs, w')" and "0 < n"
  shows "bs \<noteq> []" and "length bs \<le> n"
proof -
  from assms(2) have "fst (os_recv os f n (env w)) = RecvData bs"
    by (simp add: sys_recv_def split: prod.splits)
  with assms(1,3) show "bs \<noteq> []" and "length bs \<le> n"
    unfolding recv_bounded_def by blast+
qed

lemma send_boundedD:
  assumes "send_bounded os" and "sys_send os f bs w = (SendCount k, w')"
  shows "k \<le> length bs"
proof -
  from assms(2) have "fst (os_send os f bs (env w)) = SendCount k"
    by (simp add: sys_send_def split: prod.splits)
  with assms(1) show ?thesis unfolding send_bounded_def by blast
qed

lemma finite_interruptsD:
  assumes "finite_interrupts os budget"
  shows "sys_clock os w = (t, w') \<Longrightarrow> budget (env w') \<le> budget (env w)"
    and "sys_poll os f ev tm w = (pr, w') \<Longrightarrow> budget (env w') + poll_cost pr \<le> budget (env w)"
    and "sys_recv os f n w = (rr, w') \<Longrightarrow> budget (env w') + recv_cost rr \<le> budget (env w)"
    and "sys_send os f bs w = (sr, w') \<Longrightarrow> budget (env w') + send_cost sr \<le> budget (env w)"
    and "sys_send os f bs w = (SendCount k, w') \<Longrightarrow> bs \<noteq> [] \<Longrightarrow> 0 < k"
    and "sys_close os f w = (cr, w') \<Longrightarrow> budget (env w') + close_cost cr \<le> budget (env w)"
    and "sys_getfl os f w = (gr, w') \<Longrightarrow> budget (env w') \<le> budget (env w)"
    and "sys_setfl os f v w = (tr, w') \<Longrightarrow> budget (env w') \<le> budget (env w)"
proof -
  note laws = assms [unfolded finite_interrupts_def]
  from laws have "budget (snd (os_clock os (env w))) \<le> budget (env w)" by simp
  then show "sys_clock os w = (t, w') \<Longrightarrow> budget (env w') \<le> budget (env w)"
    by (auto simp: sys_clock_def split: prod.splits)
  from laws have "budget (snd (os_poll os f ev tm (env w))) + poll_cost (fst (os_poll os f ev tm (env w)))
      \<le> budget (env w)" by simp
  then show "sys_poll os f ev tm w = (pr, w') \<Longrightarrow>
      budget (env w') + poll_cost pr \<le> budget (env w)"
    by (auto simp: sys_poll_def split: prod.splits)
  from laws have "budget (snd (os_recv os f n (env w))) + recv_cost (fst (os_recv os f n (env w)))
      \<le> budget (env w)" by simp
  then show "sys_recv os f n w = (rr, w') \<Longrightarrow> budget (env w') + recv_cost rr \<le> budget (env w)"
    by (auto simp: sys_recv_def world_simps split: prod.splits)
  from laws have "budget (snd (os_send os f bs (env w))) + send_cost (fst (os_send os f bs (env w)))
      \<le> budget (env w)" by simp
  then show "sys_send os f bs w = (sr, w') \<Longrightarrow> budget (env w') + send_cost sr \<le> budget (env w)"
    by (auto simp: sys_send_def world_simps split: prod.splits)
  from laws have "bs \<noteq> [] \<longrightarrow> fst (os_send os f bs (env w)) \<noteq> SendCount 0" by simp
  then show "sys_send os f bs w = (SendCount k, w') \<Longrightarrow> bs \<noteq> [] \<Longrightarrow> 0 < k"
    by (auto simp: sys_send_def split: prod.splits intro: gr0I)
  from laws have "budget (snd (os_close os f (env w))) + close_cost (fst (os_close os f (env w)))
      \<le> budget (env w)" by simp
  then show "sys_close os f w = (cr, w') \<Longrightarrow> budget (env w') + close_cost cr \<le> budget (env w)"
    by (auto simp: sys_close_def world_simps split: prod.splits)
  from laws have "budget (snd (os_getfl os f (env w))) \<le> budget (env w)" by simp
  then show "sys_getfl os f w = (gr, w') \<Longrightarrow> budget (env w') \<le> budget (env w)"
    by (auto simp: sys_getfl_def split: prod.splits)
  from laws have "budget (snd (os_setfl os f v (env w))) \<le> budget (env w)" by simp
  then show "sys_setfl os f v w = (tr, w') \<Longrightarrow> budget (env w') \<le> budget (env w)"
    by (auto simp: sys_setfl_def split: prod.splits)
qed

end
