(* ===== verification/Wire.thy ===== *)
theory Wire
  imports Prelude "HOL-Library.Sublist"
begin

unbundle bit_operations_syntax

text \<open>
  The wire format of \<open>src/src/connection.h\<close>: a 4-byte length in network byte order and
  then the payload. This theory models the parts that touch no socket: the status codes,
  the conversion between the header bytes and the length (\<open>memcpy\<close> with \<open>ntohl\<close> and
  \<open>htonl\<close> in \<open>connection.cpp\<close>, the hand-written byte swap in \<open>tls.cpp\<close>) and
  \<open>parse_frame\<close>. \<open>frame\<close> is the reference: the encoding every reader and writer of the
  sources is compared with.
\<close>

section \<open>Status codes\<close>

datatype io_status = kOk | kPeerClosed | kTimeout | kProtocolError | kIoError

fun io_status_name :: "io_status \<Rightarrow> string" where
  "io_status_name kOk = ''ok''"
| "io_status_name kPeerClosed = ''peer_closed''"
| "io_status_name kTimeout = ''timeout''"
| "io_status_name kProtocolError = ''protocol_error''"
| "io_status_name kIoError = ''io_error''"

definition kDefaultMaxPayload :: nat where
  "kDefaultMaxPayload = 16 * 1024 * 1024"

section \<open>Header bytes and the host's byte order\<close>

text \<open>
  \<open>memcpy\<close> between a \<open>std::uint32_t\<close> and four bytes exposes how the host stores the
  integer, so the host's byte order is a parameter.
\<close>

datatype endian = Little | Big

definition u32_of_bytes :: "byte \<Rightarrow> byte \<Rightarrow> byte \<Rightarrow> byte \<Rightarrow> u32" where
  "u32_of_bytes a b c d =
     ucast a OR push_bit 8 (ucast b) OR push_bit 16 (ucast c) OR push_bit 24 (ucast d)"

definition u32_byte :: "nat \<Rightarrow> u32 \<Rightarrow> byte" where
  "u32_byte i x = ucast (drop_bit (8 * i) x)"

fun memcpy_u32 :: "endian \<Rightarrow> bytes \<Rightarrow> u32" where
  "memcpy_u32 Little (a # b # c # d # _) = u32_of_bytes a b c d"
| "memcpy_u32 Big (a # b # c # d # _) = u32_of_bytes d c b a"
| "memcpy_u32 _ _ = 0"

fun memcpy_hdr :: "endian \<Rightarrow> u32 \<Rightarrow> bytes" where
  "memcpy_hdr Little x = [u32_byte 0 x, u32_byte 1 x, u32_byte 2 x, u32_byte 3 x]"
| "memcpy_hdr Big x = [u32_byte 3 x, u32_byte 2 x, u32_byte 1 x, u32_byte 0 x]"

text \<open>
  The shift-and-mask expression of \<open>tls.cpp\<close>, which swaps whatever the host's byte order
  is; \<open>ntohl\<close> and \<open>htonl\<close> swap on a little-endian host only.
\<close>

definition bswap32 :: "u32 \<Rightarrow> u32" where
  "bswap32 x = drop_bit 24 (x AND 0xFF000000) OR drop_bit 8 (x AND 0x00FF0000) OR
     push_bit 8 (x AND 0x0000FF00) OR push_bit 24 (x AND 0x000000FF)"

fun ntohl :: "endian \<Rightarrow> u32 \<Rightarrow> u32" where
  "ntohl Little x = bswap32 x"
| "ntohl Big x = x"

definition htonl :: "endian \<Rightarrow> u32 \<Rightarrow> u32" where
  "htonl e x = ntohl e x"

section \<open>The frame decoder\<close>

text \<open>
  \<open>parse_frame\<close>: a null buffer is None; the result is the status, the new content of
  \<open>out\<close> (unchanged unless the status is \<open>kOk\<close>) and \<open>consumed\<close>.
\<close>

definition parse_frame ::
    "endian \<Rightarrow> bytes option \<Rightarrow> nat \<Rightarrow> bytes \<Rightarrow> io_status \<times> bytes \<times> nat" where
  "parse_frame e buf max_payload out =
     (case buf of
        None \<Rightarrow> (kIoError, out, 0)
      | Some b \<Rightarrow>
          if length b < 4 then (kPeerClosed, out, 0)
          else let len = unat (ntohl e (memcpy_u32 e b)) in
            if len > max_payload then (kProtocolError, out, 0)
            else if length b < 4 + len then (kPeerClosed, out, 0)
            else (kOk, take len (drop 4 b), 4 + len))"

section \<open>The reference encoding\<close>

definition be_bytes :: "nat \<Rightarrow> bytes" where
  "be_bytes n = [of_nat (n div 16777216), of_nat (n div 65536), of_nat (n div 256), of_nat n]"

fun be_value :: "bytes \<Rightarrow> nat" where
  "be_value (a # b # c # d # _) = 16777216 * unat a + 65536 * unat b + 256 * unat c + unat d"
| "be_value _ = 0"

definition frame :: "bytes \<Rightarrow> bytes" where
  "frame payload = be_bytes (length payload) @ payload"

definition frame_fits :: "nat \<Rightarrow> bytes \<Rightarrow> bool" where
  "frame_fits max_payload p \<longleftrightarrow> length p \<le> max_payload \<and> length p < 4294967296"

lemma length_be_bytes [simp]: "length (be_bytes n) = 4"
  by (simp add: be_bytes_def)

lemma length_frame [simp]: "length (frame p) = 4 + length p"
  by (simp add: frame_def)

lemma be_value_less: "be_value bs < 4294967296"
proof (cases bs rule: be_value.cases)
  case (1 a b c d us)
  then show ?thesis
    using unat_u8_less [of a] unat_u8_less [of b] unat_u8_less [of c] unat_u8_less [of d]
    by simp
qed simp_all

lemma be_value_append: "length xs = 4 \<Longrightarrow> be_value (xs @ ys) = be_value xs"
  by (auto elim!: length_4_exE)

lemma unat_of_nat_byte: "unat (of_nat n :: byte) = n mod 256"
  by (simp add: unat_of_nat)

lemma be_value_be_bytes:
  assumes "n < 4294967296"
  shows "be_value (be_bytes n) = n"
proof -
  define q1 q2 q3 where "q1 = n div 256" and "q2 = q1 div 256" and "q3 = q2 div 256"
  note q = q1_def q2_def q3_def
  have "n div 65536 = q2" and "n div 16777216 = q3"
    by (simp_all add: q div_mult2_eq [symmetric])
  moreover from assms have "q3 < 256" by (simp add: q div_mult2_eq [symmetric])
  moreover have "n = 256 * q1 + n mod 256" "q1 = 256 * q2 + q1 mod 256" "q2 = 256 * q3 + q2 mod 256"
    by (simp_all add: q)
  ultimately show ?thesis
    by (simp add: be_bytes_def unat_of_nat_byte q1_def [symmetric])
qed

lemma div_eq_of_bound: "(r :: nat) < k \<Longrightarrow> (k * q + r) div k = q"
  by simp

lemma be_bytes_be_value:
  assumes "length xs = 4"
  shows "be_bytes (be_value xs) = xs"
proof -
  obtain a b c d where xs: "xs = [a, b, c, d]" using assms by (rule length_4_exE)
  define n where "n = 16777216 * unat a + 65536 * unat b + 256 * unat c + unat d"
  note bounds = unat_u8_less [of a] unat_u8_less [of b] unat_u8_less [of c] unat_u8_less [of d]
  have "n = 16777216 * unat a + (65536 * unat b + 256 * unat c + unat d)" by (simp add: n_def)
  then have 1: "n div 16777216 = unat a" using bounds by (simp only: div_eq_of_bound)
  have "n = 65536 * (256 * unat a + unat b) + (256 * unat c + unat d)" by (simp add: n_def)
  then have 2: "n div 65536 = 256 * unat a + unat b" using bounds by (simp only: div_eq_of_bound)
  have "n = 256 * (65536 * unat a + 256 * unat b + unat c) + unat d" by (simp add: n_def)
  then have "n div 256 = 65536 * unat a + 256 * unat b + unat c"
    using bounds by (simp only: div_eq_of_bound)
  then have 3: "n div 256 = 256 * (256 * unat a + unat b) + unat c" by simp
  have "n mod 256 = (256 * (65536 * unat a + 256 * unat b + unat c) + unat d) mod 256"
    by (simp add: n_def)
  then have 4: "n mod 256 = unat d" using bounds by (simp only: mod_mult_self4) simp
  have "be_value xs = n" by (simp add: xs n_def)
  moreover have "(of_nat (n div 16777216) :: byte) = a" "(of_nat (n div 65536) :: byte) = b"
    "(of_nat (n div 256) :: byte) = c" "(of_nat n :: byte) = d"
    using bounds
    by (simp_all only: word_unat_eq_iff unat_of_nat_byte 1 2 3 4 mod_mult_self4 mod_less)
  ultimately show ?thesis by (simp add: be_bytes_def xs)
qed

section \<open>Words and bytes\<close>

lemma u32_eqI:
  fixes x y :: u32
  assumes "\<And>k. k < 8 \<Longrightarrow> bit x k = bit y k"
    and "\<And>k. k < 8 \<Longrightarrow> bit x (8 + k) = bit y (8 + k)"
    and "\<And>k. k < 8 \<Longrightarrow> bit x (16 + k) = bit y (16 + k)"
    and "\<And>k. k < 8 \<Longrightarrow> bit x (24 + k) = bit y (24 + k)"
  shows "x = y"
proof (rule bit_word_eqI)
  fix n assume "n < LENGTH(32)"
  then consider "n < 8" | "8 \<le> n" "n - 8 < 8" | "16 \<le> n" "n - 16 < 8" | "24 \<le> n" "n - 24 < 8"
    by fastforce
  then show "bit x n = bit y n"
    using assms(1) [of n] assms(2) [of "n - 8"] assms(3) [of "n - 16"] assms(4) [of "n - 24"]
    by cases auto
qed

lemma byte_masks:
  "(0xFF000000 :: u32) = push_bit 24 (mask 8)" "(0x00FF0000 :: u32) = push_bit 16 (mask 8)"
  "(0x0000FF00 :: u32) = push_bit 8 (mask 8)" "(0x000000FF :: u32) = mask 8"
  by (simp_all add: mask_eq_exp_minus_1 push_bit_eq_mult)

lemma u32_of_bytes_bytes:
  "u32_of_bytes (u32_byte 0 x) (u32_byte 1 x) (u32_byte 2 x) (u32_byte 3 x) = x"
  unfolding u32_of_bytes_def u32_byte_def
  by (rule u32_eqI) (simp_all add: bit_simps)

lemma bswap32_u32_of_bytes: "bswap32 (u32_of_bytes a b c d) = u32_of_bytes d c b a"
  unfolding bswap32_def byte_masks u32_of_bytes_def
  by (rule u32_eqI) (auto simp: bit_simps dest: bit_imp_le_length)

lemma bswap32_bswap32: "bswap32 (bswap32 x) = x"
  by (metis bswap32_u32_of_bytes u32_of_bytes_bytes)

lemma u32_of_bytes_sum:
  "u32_of_bytes a b c d
     = ucast a + (push_bit 8 (ucast b) + (push_bit 16 (ucast c) + push_bit 24 (ucast d)))"
proof -
  have 1: "push_bit 16 (ucast c) + push_bit 24 (ucast d)
      = push_bit 16 (ucast c) OR push_bit 24 (ucast d :: u32)"
    by (rule disjunctive_add_eq_or) (rule u32_eqI; auto simp: bit_simps dest: bit_imp_le_length)
  have 2: "push_bit 8 (ucast b) + (push_bit 16 (ucast c) OR push_bit 24 (ucast d))
      = push_bit 8 (ucast b) OR (push_bit 16 (ucast c) OR push_bit 24 (ucast d :: u32))"
    by (rule disjunctive_add_eq_or) (rule u32_eqI; auto simp: bit_simps dest: bit_imp_le_length)
  have "ucast a + (push_bit 8 (ucast b) OR (push_bit 16 (ucast c) OR push_bit 24 (ucast d)))
      = ucast a OR (push_bit 8 (ucast b) OR (push_bit 16 (ucast c) OR push_bit 24 (ucast d :: u32)))"
    by (rule disjunctive_add_eq_or) (rule u32_eqI; auto simp: bit_simps dest: bit_imp_le_length)
  with 1 2 show ?thesis by (simp add: u32_of_bytes_def or.assoc)
qed

lemma unat_u32_of_bytes:
  "unat (u32_of_bytes a b c d) = unat a + 256 * unat b + 65536 * unat c + 16777216 * unat d"
proof -
  note bounds = unat_u8_less [of a] unat_u8_less [of b] unat_u8_less [of c] unat_u8_less [of d]
  have "u32_of_bytes a b c d
      = of_nat (unat a + 256 * unat b + 65536 * unat c + 16777216 * unat d)"
    by (simp add: u32_of_bytes_sum push_bit_eq_mult)
  moreover have "unat a + 256 * unat b + 65536 * unat c + 16777216 * unat d < 4294967296"
    using bounds by linarith
  ultimately show ?thesis by (simp only: unat_of_nat_u32)
qed

text \<open>
  With \<open>ntohl\<close> and \<open>htonl\<close> the header is big-endian on every host.
\<close>

lemma ntohl_memcpy:
  assumes "4 \<le> length bs"
  shows "unat (ntohl e (memcpy_u32 e bs)) = be_value bs"
proof -
  have "length (take 4 bs) = 4" using assms by simp
  then obtain a b c d where "take 4 bs = [a, b, c, d]" by (rule length_4_exE)
  then have "bs = a # b # c # d # drop 4 bs"
    by (metis append_Cons append_Nil append_take_drop_id)
  then obtain r where "bs = a # b # c # d # r" ..
  then show ?thesis
    by (cases e) (simp_all add: bswap32_u32_of_bytes unat_u32_of_bytes)
qed

lemma u32_byte_u32_of_bytes:
  "u32_byte 0 (u32_of_bytes a b c d) = a" "u32_byte 1 (u32_of_bytes a b c d) = b"
  "u32_byte 2 (u32_of_bytes a b c d) = c" "u32_byte 3 (u32_of_bytes a b c d) = d"
  unfolding u32_of_bytes_def u32_byte_def
  by (rule bit_word_eqI, simp add: bit_simps; (auto dest: bit_imp_le_length; fail))+

lemma u32_byte_of_nat:
  assumes "n < 4294967296"
  shows "u32_byte i (of_nat n) = of_nat (n div 2 ^ (8 * i))"
proof -
  have "unat (drop_bit (8 * i) (of_nat n :: u32)) = drop_bit (8 * i) (unat (of_nat n :: u32))"
    using assms by (simp add: unsigned_drop_bit_eq take_bit_nat_eq_self)
  then have "unat (drop_bit (8 * i) (of_nat n :: u32)) = n div 2 ^ (8 * i)"
    using assms by (simp add: drop_bit_eq_div)
  then show ?thesis
    by (simp add: u32_byte_def word_unat_eq_iff unsigned_ucast_eq take_bit_eq_mod unat_of_nat)
qed

lemma memcpy_htonl:
  assumes "n < 4294967296"
  shows "memcpy_hdr e (htonl e (of_nat n)) = be_bytes n"
proof -
  let ?x = "of_nat n :: u32"
  have swap: "bswap32 ?x = u32_of_bytes (u32_byte 3 ?x) (u32_byte 2 ?x) (u32_byte 1 ?x) (u32_byte 0 ?x)"
    by (metis bswap32_u32_of_bytes u32_of_bytes_bytes)
  show ?thesis
    by (cases e)
      (simp_all add: htonl_def swap u32_byte_u32_of_bytes [unfolded One_nat_def] be_bytes_def
        u32_byte_of_nat [OF assms])
qed

section \<open>The decoder against the reference encoding\<close>

lemma parse_frame_be:
  "parse_frame e (Some b) mx out =
     (if length b < 4 then (kPeerClosed, out, 0)
      else if be_value b > mx then (kProtocolError, out, 0)
      else if length b < 4 + be_value b then (kPeerClosed, out, 0)
      else (kOk, take (be_value b) (drop 4 b), 4 + be_value b))"
  by (simp add: parse_frame_def Let_def ntohl_memcpy)

lemma be_value_frame:
  "length p < 4294967296 \<Longrightarrow> be_value (frame p @ r) = length p"
  by (simp add: frame_def be_value_append be_value_be_bytes)

lemma frame_of_parsed:
  assumes "4 + be_value b \<le> length b"
  shows "b = frame (take (be_value b) (drop 4 b)) @ drop (4 + be_value b) b"
proof -
  have 4: "length (take 4 b) = 4" using assms by simp
  have "be_value b = be_value (take 4 b)"
    using be_value_append [OF 4, of "drop 4 b"] by simp
  then have "be_bytes (be_value b) = take 4 b"
    using be_bytes_be_value [OF 4] by simp
  moreover have "length (take (be_value b) (drop 4 b)) = be_value b"
    using assms by simp
  ultimately have "frame (take (be_value b) (drop 4 b)) = take 4 b @ take (be_value b) (drop 4 b)"
    by (simp add: frame_def)
  also have "\<dots> @ drop (4 + be_value b) b = b"
    by (metis append_take_drop_id append.assoc drop_drop add.commute)
  finally show ?thesis by simp
qed

text \<open>
  A successful parse is exactly a frame at the front of the buffer, within both limits.
\<close>

lemma parse_frame_ok_iff:
  "parse_frame e (Some b) mx out = (kOk, p, c) \<longleftrightarrow>
     c = 4 + length p \<and> frame_fits mx p \<and> (\<exists>rest. b = frame p @ rest)"
proof
  assume ok: "parse_frame e (Some b) mx out = (kOk, p, c)"
  then have len: "4 + be_value b \<le> length b" and "be_value b \<le> mx"
    and p: "p = take (be_value b) (drop 4 b)" and c: "c = 4 + be_value b"
    by (auto simp: parse_frame_be split: if_splits)
  from len p have "length p = be_value b" by simp
  with \<open>be_value b \<le> mx\<close> be_value_less [of b] c frame_of_parsed [OF len]
  show "c = 4 + length p \<and> frame_fits mx p \<and> (\<exists>rest. b = frame p @ rest)"
    by (auto simp: p frame_fits_def)
next
  assume "c = 4 + length p \<and> frame_fits mx p \<and> (\<exists>rest. b = frame p @ rest)"
  then obtain rest where "c = 4 + length p" "frame_fits mx p" "b = frame p @ rest" by blast
  then show "parse_frame e (Some b) mx out = (kOk, p, c)"
    by (simp add: parse_frame_be frame_fits_def be_value_frame) (simp add: frame_def)
qed

text \<open>
  The two failures of a non-null buffer: an announced length beyond the limit, and a buffer
  that is a proper prefix of some acceptable frame.
\<close>

lemma parse_frame_too_long_iff:
  "fst (parse_frame e (Some b) mx out) = kProtocolError \<longleftrightarrow> 4 \<le> length b \<and> mx < be_value b"
  by (auto simp: parse_frame_be)

lemma parse_frame_short_iff:
  "fst (parse_frame e (Some b) mx out) = kPeerClosed \<longleftrightarrow>
     (\<exists>p. frame_fits mx p \<and> strict_prefix b (frame p)) \<or> length b < 4"
proof
  assume "fst (parse_frame e (Some b) mx out) = kPeerClosed"
  then consider "length b < 4" | "4 \<le> length b" "be_value b \<le> mx" "length b < 4 + be_value b"
    by (auto simp: parse_frame_be split: if_splits)
  then show "(\<exists>p. frame_fits mx p \<and> strict_prefix b (frame p)) \<or> length b < 4"
  proof cases
    case 2
    define p where "p = drop 4 b @ replicate (4 + be_value b - length b) 0"
    have len: "length p = be_value b" using 2 by (simp add: p_def)
    have 4: "length (take 4 b) = 4" using 2 by simp
    have "be_bytes (length p) = take 4 b"
      using be_bytes_be_value [OF 4] be_value_append [OF 4, of "drop 4 b"] len by simp
    then have "frame p = b @ replicate (4 + be_value b - length b) 0"
      by (simp add: frame_def p_def)
    then have "strict_prefix b (frame p)"
      using 2(3) by (auto simp: strict_prefix_def)
    moreover have "frame_fits mx p"
      using len 2(2) be_value_less [of b] by (simp add: frame_fits_def)
    ultimately show ?thesis by blast
  qed simp
next
  assume "(\<exists>p. frame_fits mx p \<and> strict_prefix b (frame p)) \<or> length b < 4"
  then show "fst (parse_frame e (Some b) mx out) = kPeerClosed"
  proof
    assume "\<exists>p. frame_fits mx p \<and> strict_prefix b (frame p)"
    then obtain p z zs where p: "frame_fits mx p" and fr: "frame p = b @ z # zs"
      by (auto elim!: strict_prefixE')
    show ?thesis
    proof (cases "length b < 4")
      case True
      then show ?thesis by (simp add: parse_frame_be)
    next
      case False
      then have "be_value b = be_value (take 4 b)"
        using be_value_append [of "take 4 b" "drop 4 b"] by simp
      also have "take 4 b = take 4 (frame p)" using False fr by simp
      also have "\<dots> = be_bytes (length p)" by (simp add: frame_def)
      also have "be_value \<dots> = length p"
        using p by (simp add: be_value_be_bytes frame_fits_def)
      finally have "be_value b = length p" .
      moreover have "length b < 4 + length p"
        using arg_cong [OF fr, of length] by simp
      ultimately show ?thesis
        using p False by (simp add: parse_frame_be frame_fits_def)
    qed
  qed (simp add: parse_frame_be)
qed

text \<open>Frames delimit themselves: a concatenation of frames splits in one way only.\<close>

lemma frame_inject:
  assumes "frame p @ r = frame q @ t" and "length p < 4294967296" and "length q < 4294967296"
  shows "p = q \<and> r = t"
proof -
  from assms(1) have "be_value (frame p @ r) = be_value (frame q @ t)" by simp
  with assms(2,3) have "length p = length q" by (simp add: be_value_frame)
  with assms(1) show ?thesis by (simp add: frame_def)
qed

section \<open>The decoder is correct\<close>

text \<open>
  C18: \<open>parse_frame\<close> decides its input completely. It accepts exactly the buffers that start
  with the encoding of a payload within the limit, and returns that payload and the length of
  its encoding; it reports \<open>kProtocolError\<close> exactly when a complete header announces more
  than the limit; and it asks for more input exactly when the header is incomplete or the
  buffer is a proper prefix of the encoding of an acceptable payload. The host's byte order
  plays no role.
\<close>

theorem parse_frame_classifies:
  "(parse_frame e (Some b) mx out = (kOk, p, c) \<longleftrightarrow>
      c = 4 + length p \<and> frame_fits mx p \<and> prefix (frame p) b) \<and>
   (fst (parse_frame e (Some b) mx out) = kProtocolError \<longleftrightarrow> 4 \<le> length b \<and> mx < be_value b) \<and>
   (fst (parse_frame e (Some b) mx out) = kPeerClosed \<longleftrightarrow>
      length b < 4 \<or> (\<exists>q. frame_fits mx q \<and> strict_prefix b (frame q)))"
  using parse_frame_ok_iff [of e b mx out p c] parse_frame_too_long_iff [of e b mx out]
    parse_frame_short_iff [of e b mx out]
  by (auto simp: prefix_def)

end
