(* ===== verification/Connection.thy ===== *)
theory Connection
  imports System_Calls Wire
begin

unbundle bit_operations_syntax

text \<open>
  The socket I/O of \<open>src/src/connection.cpp\<close>: \<open>wait_for\<close>, \<open>read_exact\<close>,
  \<open>write_exact\<close>, \<open>read_message\<close>, \<open>write_message\<close>, \<open>set_nonblocking\<close> and
  \<open>safe_close\<close>. Each loop of the sources retries on \<open>EINTR\<close> without a bound, so the
  loops are partial functions: None is a loop that never returns, and under
  \<open>finite_interrupts\<close> every one of them is shown to return.
\<close>

section \<open>Waiting for readiness\<close>

definition ns_per_ms :: int where "ns_per_ms = 1000000"

partial_function (option) wait_for_loop ::
    "'e os \<Rightarrow> fd \<Rightarrow> poll_events \<Rightarrow> int \<Rightarrow> 'e world \<Rightarrow> (int \<times> 'e world) option" where
  "wait_for_loop os f events deadline w =
     (case sys_clock os w of (now, w1) \<Rightarrow>
        (case sys_poll os f events
            (if now < deadline then (deadline - now) div ns_per_ms else 0) w1 of (rc, w2) \<Rightarrow>
           (case rc of
              PollErr e \<Rightarrow>
                if e = EINTR then wait_for_loop os f events deadline w2 else Some (- 1, w2)
            | PollTimeout \<Rightarrow> Some (0, w2)
            | PollReady err \<Rightarrow> if err then Some (1, w2) else Some (1, w2))))"

definition wait_for ::
    "'e os \<Rightarrow> fd \<Rightarrow> poll_events \<Rightarrow> int \<Rightarrow> 'e world \<Rightarrow> (int \<times> 'e world) option" where
  "wait_for os f events timeout_ms w =
     (if timeout_ms < 0 then Some (1, w)
      else case sys_clock os w of (now, w1) \<Rightarrow>
        wait_for_loop os f events (now + timeout_ms * ns_per_ms) w1)"

section \<open>Exact reads and writes\<close>

text \<open>
  \<open>got\<close> holds the bytes stored so far; the C++ loop counts them and writes them to
  \<open>buf + got\<close>.
\<close>

partial_function (option) read_exact ::
    "'e os \<Rightarrow> fd \<Rightarrow> nat \<Rightarrow> int \<Rightarrow> bool \<Rightarrow> bytes \<Rightarrow> 'e world \<Rightarrow> (io_status \<times> bytes \<times> 'e world) option"
    where
  "read_exact os f need timeout_ms allow_eof_at_start got w =
     (if length got < need then
        Option.bind (wait_for os f POLLIN timeout_ms w) (\<lambda>(wait_rc, w1).
          if wait_rc = 0 then Some (kTimeout, got, w1)
          else if wait_rc < 0 then Some (kIoError, got, w1)
          else (case sys_recv os f (need - length got) w1 of (n, w2) \<Rightarrow>
            (case n of
               RecvData bs \<Rightarrow> read_exact os f need timeout_ms allow_eof_at_start (got @ bs) w2
             | RecvEof \<Rightarrow>
                 if got = [] \<and> allow_eof_at_start then Some (kPeerClosed, got, w2)
                 else Some (kPeerClosed, got, w2)
             | RecvErr e \<Rightarrow>
                 if e = EINTR then read_exact os f need timeout_ms allow_eof_at_start got w2
                 else if e = EAGAIN \<or> e = EWOULDBLOCK
                   then read_exact os f need timeout_ms allow_eof_at_start got w2
                 else Some (kIoError, got, w2))))
      else Some (kOk, got, w))"

partial_function (option) write_exact ::
    "'e os \<Rightarrow> fd \<Rightarrow> bytes \<Rightarrow> int \<Rightarrow> nat \<Rightarrow> 'e world \<Rightarrow> (io_status \<times> 'e world) option" where
  "write_exact os f buf timeout_ms n_sent w =
     (if n_sent < length buf then
        Option.bind (wait_for os f POLLOUT timeout_ms w) (\<lambda>(wait_rc, w1).
          if wait_rc = 0 then Some (kTimeout, w1)
          else if wait_rc < 0 then Some (kIoError, w1)
          else (case sys_send os f (drop n_sent buf) w1 of (n, w2) \<Rightarrow>
            (case n of
               SendCount k \<Rightarrow> write_exact os f buf timeout_ms (n_sent + k) w2
             | SendErr e \<Rightarrow>
                 if e = EINTR then write_exact os f buf timeout_ms n_sent w2
                 else if e = EAGAIN \<or> e = EWOULDBLOCK then write_exact os f buf timeout_ms n_sent w2
                 else if e = EPIPE \<or> e = ECONNRESET then Some (kPeerClosed, w2)
                 else Some (kIoError, w2))))
      else Some (kOk, w))"

section \<open>Messages\<close>

text \<open>
  \<open>std::vector::resize\<close> keeps the old prefix and fills with zeros; a read that fails
  part-way leaves what it stored in front of the rest of the buffer.
\<close>

definition resize :: "bytes \<Rightarrow> nat \<Rightarrow> bytes" where
  "resize xs n = take n xs @ replicate (n - length xs) 0"

definition overlay :: "bytes \<Rightarrow> bytes \<Rightarrow> bytes" where
  "overlay got buf = got @ drop (length got) buf"

lemma overlay_full: "length got = length buf \<Longrightarrow> overlay got buf = got"
  by (simp add: overlay_def)

lemma length_resize [simp]: "length (resize xs n) = n"
  by (simp add: resize_def)

lemma resize_0 [simp]: "resize xs 0 = []"
  by (simp add: resize_def)

definition read_message ::
    "'e os \<Rightarrow> endian \<Rightarrow> fd \<Rightarrow> bytes \<Rightarrow> nat \<Rightarrow> int \<Rightarrow> 'e world \<Rightarrow>
       (io_status \<times> bytes \<times> 'e world) option" where
  "read_message os e f out max_payload timeout_ms w =
     do {
       (rc, hdr, w1) \<leftarrow> read_exact os f 4 timeout_ms True [] w;
       if rc \<noteq> kOk then Some (rc, out, w1)
       else let len = unat (ntohl e (memcpy_u32 e hdr)) in
         if len > max_payload then Some (kProtocolError, out, w1)
         else let out1 = resize out len in
           if len = 0 then Some (kOk, out1, w1)
           else do {
             (rc2, got, w2) \<leftarrow> read_exact os f len timeout_ms False [] w1;
             Some (rc2, overlay got out1, w2)
           }
     }"

definition write_message ::
    "'e os \<Rightarrow> endian \<Rightarrow> fd \<Rightarrow> bytes \<Rightarrow> int \<Rightarrow> 'e world \<Rightarrow> (io_status \<times> 'e world) option" where
  "write_message os e f data timeout_ms w =
     (if length data > 0xFFFFFFFF then Some (kProtocolError, w)
      else let net_len = htonl e (of_nat (length data)); hdr = memcpy_hdr e net_len in
        do {
          (rc, w1) \<leftarrow> write_exact os f hdr timeout_ms 0 w;
          if rc \<noteq> kOk then Some (rc, w1)
          else if length data = 0 then Some (kOk, w1)
          else write_exact os f data timeout_ms 0 w1
        })"

section \<open>Descriptor flags and closing\<close>

definition O_NONBLOCK :: u32 where "O_NONBLOCK = 2048"

definition set_nonblocking :: "'e os \<Rightarrow> fd \<Rightarrow> bool \<Rightarrow> 'e world \<Rightarrow> bool \<times> 'e world" where
  "set_nonblocking os f nonblocking w =
     (case sys_getfl os f w of (flags, w1) \<Rightarrow>
        (case flags of
           None \<Rightarrow> (False, w1)
         | Some fl \<Rightarrow>
             sys_setfl os f (if nonblocking then fl OR O_NONBLOCK else fl AND NOT O_NONBLOCK) w1))"

partial_function (option) close_loop :: "'e os \<Rightarrow> fd \<Rightarrow> 'e world \<Rightarrow> 'e world option" where
  "close_loop os f w =
     (case sys_close os f w of (r, w1) \<Rightarrow>
        (case r of None \<Rightarrow> Some w1
         | Some e \<Rightarrow> if e \<noteq> EINTR then Some w1 else close_loop os f w1))"

definition safe_close :: "'e os \<Rightarrow> fd \<Rightarrow> 'e world \<Rightarrow> 'e world option" where
  "safe_close os f w = (if f < 0 then Some w else close_loop os f w)"

section \<open>What the loops do\<close>

lemmas wait_for_loop_induct = wait_for_loop.raw_induct [rotated, consumes 1, case_names step]
lemmas read_exact_induct = read_exact.raw_induct [rotated, consumes 1, case_names step]
lemmas write_exact_induct = write_exact.raw_induct [rotated, consumes 1, case_names step]
lemmas close_loop_induct = close_loop.raw_induct [rotated, consumes 1, case_names step]

lemma wait_for_loop_did:
  "wait_for_loop os f ev dl w = Some r \<Longrightarrow> did w [] (snd r) \<and> fst r \<in> {- 1, 0, 1}"
proof (induction rule: wait_for_loop_induct)
  case (step g os f ev dl w r)
  obtain now w1 where c: "sys_clock os w = (now, w1)" by fastforce
  obtain rc w2 where p: "sys_poll os f ev (if now < dl then (dl - now) div ns_per_ms else 0) w1
      = (rc, w2)" by fastforce
  have 12: "did w [] w2" using did_clock [OF c] did_poll [OF p] by (rule did_silent)
  show ?case
    using step.hyps c p 12
    by (auto split: poll_result.splits if_splits dest!: step.IH dest: did_silent)
qed

lemma wait_for_did:
  assumes "wait_for os f ev t w = Some (rc, w')"
  shows "did w [] w'" and "rc = - 1 \<or> rc = 0 \<or> rc = 1"
  using assms
  by (auto simp: wait_for_def split: if_splits prod.splits dest!: did_clock wait_for_loop_did
      dest: did_silent)

text \<open>
  The result of an exact read that has \<open>got\<close> already: it received a continuation, it
  reports \<open>kOk\<close> exactly when the buffer is full, and it never reports a protocol error.
\<close>

definition read_result ::
    "(bytes \<Rightarrow> event) \<Rightarrow> nat \<Rightarrow> bytes \<Rightarrow> 'e world \<Rightarrow> io_status \<times> bytes \<times> 'e world \<Rightarrow> bool" where
  "read_result C need got w r \<longleftrightarrow> (case r of (st, buf, w') \<Rightarrow>
     (\<exists>bs. transferred C w bs w' \<and> buf = got @ bs) \<and>
     (st = kOk \<longleftrightarrow> need \<le> length buf) \<and> st \<noteq> kProtocolError)"

lemma read_result_stop:
  "did w [] w' \<Longrightarrow> (st = kOk \<longleftrightarrow> need \<le> length got) \<Longrightarrow> st \<noteq> kProtocolError \<Longrightarrow>
     read_result C need got w (st, got, w')"
  by (auto simp: read_result_def dest: transferred_Nil)

lemma read_result_silent:
  "did w [] v \<Longrightarrow> read_result C need got v r \<Longrightarrow> read_result C need got w r"
  by (auto simp: read_result_def dest: transferred_silent)

lemma read_result_data:
  "did w [C bs] v \<Longrightarrow> read_result C need (got @ bs) v r \<Longrightarrow> read_result C need got w r"
  by (fastforce simp: read_result_def dest: transferred_step)

lemma read_exact_result:
  "read_exact os f need t aeof got w = Some r \<Longrightarrow> read_result (EvRecv f) need got w r"
proof (induction rule: read_exact_induct)
  case (step g os f need t aeof got w r)
  show ?case
  proof (cases "length got < need")
    case False
    with step.hyps show ?thesis by (auto intro!: read_result_stop)
  next
    case True
    with step.hyps obtain rc w1 where w1: "wait_for os f POLLIN t w = Some (rc, w1)"
      by (auto elim!: bind_SomeE)
    note d1 = wait_for_did(1) [OF w1]
    obtain n w2 where w2: "sys_recv os f (need - length got) w1 = (n, w2)" by fastforce
    note d2 = did_silent [OF d1 did_recv [OF w2]]
    from step.hyps True w1 w2 d1 d2 show ?thesis
      by (auto split: if_splits recv_result.splits dest!: step.IH
          intro!: read_result_stop intro: read_result_silent read_result_data)
  qed
qed

text \<open>With a \<open>recv\<close> that respects its buffer, an exact read is never too long.\<close>

lemma read_exact_bounded:
  "read_exact os f need t aeof got w = Some r \<Longrightarrow> recv_bounded os \<Longrightarrow> length got \<le> need \<Longrightarrow>
     length (fst (snd r)) \<le> need"
proof (induction rule: read_exact_induct)
  case (step g os f need t aeof got w r)
  show ?case
  proof (cases "length got < need")
    case False
    with step.hyps step.prems show ?thesis by auto
  next
    case True
    with step.hyps obtain rc w1 where w1: "wait_for os f POLLIN t w = Some (rc, w1)"
      by (auto elim!: bind_SomeE)
    obtain n w2 where w2: "sys_recv os f (need - length got) w1 = (n, w2)" by fastforce
    have len: "n = RecvData bs \<Longrightarrow> length (got @ bs) \<le> need" for bs
      using recv_boundedD(2) [OF step.prems(1), of f "need - length got" w1 bs w2] w2 True by simp
    from step.hyps True w1 w2 step.prems show ?thesis
      by (auto split: if_splits recv_result.splits dest!: step.IH len)
  qed
qed

text \<open>
  The result of an exact write that has sent \<open>k\<close> bytes already: what it sent continues
  the buffer, all of it exactly when the status is \<open>kOk\<close>.
\<close>

definition write_result ::
    "(bytes \<Rightarrow> event) \<Rightarrow> bytes \<Rightarrow> nat \<Rightarrow> 'e world \<Rightarrow> io_status \<times> 'e world \<Rightarrow> bool" where
  "write_result C buf k w r \<longleftrightarrow> (case r of (st, w') \<Rightarrow>
     (\<exists>bs rest. transferred C w bs w' \<and> drop k buf = bs @ rest \<and> (st = kOk \<longleftrightarrow> rest = [])) \<and>
     st \<noteq> kProtocolError)"

lemma write_result_stop:
  "did w [] w' \<Longrightarrow> (st = kOk \<longleftrightarrow> length buf \<le> k) \<Longrightarrow> st \<noteq> kProtocolError \<Longrightarrow>
     write_result C buf k w (st, w')"
  by (auto simp: write_result_def dest: transferred_Nil)

lemma write_result_silent:
  "did w [] v \<Longrightarrow> write_result C buf k v r \<Longrightarrow> write_result C buf k w r"
  by (auto simp: write_result_def dest: transferred_silent)

lemma write_result_data:
  assumes "did w [C (take n (drop k buf))] v" and "write_result C buf (k + n) v r"
  shows "write_result C buf k w r"
proof -
  obtain st w' where r: "r = (st, w')" by fastforce
  obtain bs rest where bs: "transferred C v bs w'" "drop (k + n) buf = bs @ rest"
    "st = kOk \<longleftrightarrow> rest = []" "st \<noteq> kProtocolError"
    using assms(2) by (auto simp: write_result_def r)
  have "drop k buf = (take n (drop k buf) @ bs) @ rest"
    using bs(2) by (metis append.assoc append_take_drop_id drop_drop add.commute)
  with transferred_step [OF assms(1) bs(1)] bs(3,4) show ?thesis
    unfolding write_result_def r by blast
qed

lemma write_exact_result:
  "write_exact os f buf t k w = Some r \<Longrightarrow> write_result (EvSend f) buf k w r"
proof (induction rule: write_exact_induct)
  case (step g os f buf t k w r)
  show ?case
  proof (cases "k < length buf")
    case False
    with step.hyps show ?thesis by (auto intro!: write_result_stop)
  next
    case True
    with step.hyps obtain rc w1 where w1: "wait_for os f POLLOUT t w = Some (rc, w1)"
      by (auto elim!: bind_SomeE)
    note d1 = wait_for_did(1) [OF w1]
    obtain n w2 where w2: "sys_send os f (drop k buf) w1 = (n, w2)" by fastforce
    note d2 = did_silent [OF d1 did_send [OF w2]]
    from step.hyps True w1 w2 d1 d2 show ?thesis
      by (auto split: if_splits send_result.splits dest!: step.IH
          intro!: write_result_stop intro: write_result_silent write_result_data)
  qed
qed

lemma close_loop_did: "close_loop os f w = Some w' \<Longrightarrow> did w [EvClose f] w'"
proof (induction rule: close_loop_induct)
  case (step g os f w w')
  obtain r w1 where c: "sys_close os f w = (r, w1)" by fastforce
  from step.hyps c did_close [OF c] show ?case
    by (auto split: option.splits if_splits dest!: step.IH dest: did_silent)
qed

lemma safe_close_did:
  "safe_close os f w = Some w' \<Longrightarrow> did w (if f < 0 then [] else [EvClose f]) w'"
  by (auto simp: safe_close_def split: if_splits dest: close_loop_did)

lemma set_nonblocking_did: "set_nonblocking os f b w = (r, w') \<Longrightarrow> did w [] w'"
  by (auto simp: set_nonblocking_def split: prod.splits option.splits
      dest!: did_getfl did_setfl dest: did_silent)

section \<open>The loops return\<close>

text \<open>
  \<open>returns budget w m\<close>: the computation \<open>m\<close> started in \<open>w\<close> ends, and does not
  replenish the interrupt budget. Sequences of such computations return.
\<close>

definition returns :: "('e \<Rightarrow> nat) \<Rightarrow> 'e world \<Rightarrow> 'r option \<Rightarrow> ('r \<Rightarrow> 'e world) \<Rightarrow> bool" where
  "returns budget w m out \<longleftrightarrow> (\<exists>r. m = Some r \<and> budget (env (out r)) \<le> budget (env w))"

lemma returns_Some: "budget (env (out r)) \<le> budget (env w) \<Longrightarrow> returns budget w (Some r) out"
  by (simp add: returns_def)

lemma returns_bind:
  assumes "returns budget w m out"
    and "\<And>r. m = Some r \<Longrightarrow> budget (env (out r)) \<le> budget (env w) \<Longrightarrow>
      returns budget (out r) (k r) out'"
  shows "returns budget w (Option.bind m k) out'"
  using assms by (fastforce simp: returns_def)

lemma returns_le:
  "returns budget v m out \<Longrightarrow> budget (env v) \<le> budget (env w) \<Longrightarrow> returns budget w m out"
  by (fastforce simp: returns_def)

lemma returnsE:
  assumes "returns budget w m out"
  obtains r where "m = Some r" and "budget (env (out r)) \<le> budget (env w)"
  using assms by (auto simp: returns_def)

lemma wait_for_loop_returns:
  assumes "finite_interrupts os budget"
  shows "returns budget w (wait_for_loop os f ev dl w) snd"
proof (induction "budget (env w)" arbitrary: w rule: less_induct)
  case less
  obtain now w1 where c: "sys_clock os w = (now, w1)" by fastforce
  obtain rc w2 where p: "sys_poll os f ev (if now < dl then (dl - now) div ns_per_ms else 0) w1
      = (rc, w2)" by fastforce
  have b: "budget (env w2) + poll_cost rc \<le> budget (env w)"
    using finite_interruptsD(1) [OF assms c] finite_interruptsD(2) [OF assms p] by simp
  show ?case
  proof (cases "rc = PollErr EINTR")
    case True
    with b have "budget (env w2) < budget (env w)" by simp
    from less [OF this] this True c p show ?thesis
      by (simp add: wait_for_loop.simps [of os f ev dl w] returns_le)
  next
    case False
    with b c p show ?thesis
      by (subst wait_for_loop.simps) (auto intro!: returns_Some split: poll_result.splits)
  qed
qed

lemma wait_for_returns:
  assumes "finite_interrupts os budget"
  shows "returns budget w (wait_for os f ev t w) snd"
  using finite_interruptsD(1) [OF assms]
  by (auto simp: wait_for_def intro!: returns_Some returns_le [OF wait_for_loop_returns [OF assms]]
      split: prod.splits)

lemma read_exact_returns:
  assumes fin: "finite_interrupts os budget" and rb: "recv_bounded os"
  shows "returns budget w (read_exact os f need t aeof got w) (\<lambda>r. snd (snd r))"
proof (induction "need - length got + budget (env w)" arbitrary: got w rule: less_induct)
  case less
  show ?case
  proof (cases "length got < need")
    case False
    then show ?thesis by (simp add: read_exact.simps [of os f need t aeof got w] returns_Some)
  next
    case True
    obtain rc w1 where w1: "wait_for os f POLLIN t w = Some (rc, w1)"
      and b1: "budget (env w1) \<le> budget (env w)"
      using wait_for_returns [OF fin, of w f POLLIN t] by (auto elim: returnsE)
    obtain n w2 where w2: "sys_recv os f (need - length got) w1 = (n, w2)" by fastforce
    have b2: "budget (env w2) + recv_cost n \<le> budget (env w)"
      using finite_interruptsD(3) [OF fin w2] b1 by simp
    have data: "returns budget w (read_exact os f need t aeof (got @ bs) w2) (\<lambda>r. snd (snd r))"
      if n: "n = RecvData bs" for bs
    proof (rule returns_le [OF less])
      have "0 < length bs"
        using recv_boundedD(1) [OF rb, of f "need - length got" w1 bs w2] w2 n True by simp
      then show "need - length (got @ bs) + budget (env w2) < need - length got + budget (env w)"
        using True b2 by (simp del: length_greater_0_conv)
      show "budget (env w2) \<le> budget (env w)" using b2 by simp
    qed
    have retry: "returns budget w (read_exact os f need t aeof got w2) (\<lambda>r. snd (snd r))"
      if "recv_cost n = 1"
      using less [of got w2] b2 that by (auto intro: returns_le)
    from True w1 w2 b1 b2 data retry show ?thesis
      by (subst read_exact.simps) (auto intro!: returns_Some split: recv_result.splits)
  qed
qed

lemma write_exact_returns:
  assumes fin: "finite_interrupts os budget"
  shows "returns budget w (write_exact os f buf t k w) snd"
proof (induction "length buf - k + budget (env w)" arbitrary: k w rule: less_induct)
  case less
  show ?case
  proof (cases "k < length buf")
    case False
    then show ?thesis by (simp add: write_exact.simps [of os f buf t k w] returns_Some)
  next
    case True
    obtain rc w1 where w1: "wait_for os f POLLOUT t w = Some (rc, w1)"
      and b1: "budget (env w1) \<le> budget (env w)"
      using wait_for_returns [OF fin, of w f POLLOUT t] by (auto elim: returnsE)
    obtain n w2 where w2: "sys_send os f (drop k buf) w1 = (n, w2)" by fastforce
    have b2: "budget (env w2) + send_cost n \<le> budget (env w)"
      using finite_interruptsD(4) [OF fin w2] b1 by simp
    have data: "returns budget w (write_exact os f buf t (k + i) w2) snd" if n: "n = SendCount i" for i
    proof (rule returns_le [OF less])
      have "0 < i"
        using finite_interruptsD(5) [OF fin, of f "drop k buf" w1 i w2] w2 n True by simp
      then show "length buf - (k + i) + budget (env w2) < length buf - k + budget (env w)"
        using True b2 by simp
      show "budget (env w2) \<le> budget (env w)" using b2 by simp
    qed
    have retry: "returns budget w (write_exact os f buf t k w2) snd" if "send_cost n = 1"
      using less [of k w2] b2 that by (auto intro: returns_le)
    from True w1 w2 b1 b2 data retry show ?thesis
      by (subst write_exact.simps) (auto intro!: returns_Some split: send_result.splits)
  qed
qed

lemma close_loop_returns:
  assumes "finite_interrupts os budget"
  shows "returns budget w (close_loop os f w) id"
proof (induction "budget (env w)" arbitrary: w rule: less_induct)
  case less
  obtain r w1 where c: "sys_close os f w = (r, w1)" by fastforce
  note b = finite_interruptsD(6) [OF assms c]
  have retry: "returns budget w (close_loop os f w1) id" if "r = Some EINTR"
    using less [of w1] b that by (auto simp: close_cost_def intro: returns_le)
  from c b retry show ?case
    by (subst close_loop.simps) (auto intro!: returns_Some split: option.splits)
qed

lemma safe_close_returns:
  "finite_interrupts os budget \<Longrightarrow> returns budget w (safe_close os f w) id"
  by (simp add: safe_close_def close_loop_returns returns_Some)

end
