(* ===== verification/Echo_World.thy ===== *)
theory Echo_World
  imports Connection
begin

text \<open>
  A concrete kernel, on which the properties with hypotheses about the operating system are
  instantiated: every descriptor is connected to a peer that echoes, so that what is sent on
  a descriptor can be received on it again. The environment is the unread input of every
  descriptor. No call blocks, fails or is interrupted.
\<close>

type_synonym inboxes = "fd \<Rightarrow> bytes"

definition echo_recv :: "fd \<Rightarrow> nat \<Rightarrow> inboxes \<Rightarrow> recv_result \<times> inboxes" where
  "echo_recv f n e =
     (if e f = [] then (RecvEof, e) else (RecvData (take n (e f)), e(f := drop n (e f))))"

definition echo_send :: "fd \<Rightarrow> bytes \<Rightarrow> inboxes \<Rightarrow> send_result \<times> inboxes" where
  "echo_send f bs e = (SendCount (length bs), e(f := e f @ bs))"

definition echo_os :: "inboxes os" where
  "echo_os = \<lparr>os_clock = (\<lambda>e. (0, e)), os_poll = (\<lambda>f ev t e. (PollReady False, e)),
     os_recv = echo_recv, os_send = echo_send, os_close = (\<lambda>f e. (None, e)),
     os_getfl = (\<lambda>f e. (Some 0, e)), os_setfl = (\<lambda>f v e. (True, e))\<rparr>"

definition start :: "inboxes \<Rightarrow> inboxes world" where
  "start e = \<lparr>env = e, metrics_of = metrics_init, trace = []\<rparr>"

lemma start_simps [simp]:
  "env (start e) = e" "metrics_of (start e) = metrics_init" "trace (start e) = []"
  by (simp_all add: start_def)

lemma echo_laws [simp]:
  "recv_bounded echo_os" "send_bounded echo_os" "finite_interrupts echo_os (\<lambda>_. 0)"
  by (auto simp: recv_bounded_def send_bounded_def finite_interrupts_def echo_os_def
      echo_recv_def echo_send_def close_cost_def split: if_splits)

lemma echo_sys [simp]:
  "sys_clock echo_os w = (0, w)" "sys_poll echo_os f ev t w = (PollReady False, w)"
  "sys_close echo_os f w = (None, emit [EvClose f] w)"
  "set_nonblocking echo_os f b w = (True, w)"
  "sys_send echo_os f bs w = (SendCount (length bs),
     emit [EvSend f bs] (w\<lparr>env := (env w)(f := env w f @ bs)\<rparr>))"
  by (simp_all add: sys_clock_def sys_poll_def sys_close_def sys_send_def set_nonblocking_def
      sys_getfl_def sys_setfl_def echo_os_def echo_send_def)

lemma echo_sys_recv:
  "sys_recv echo_os f n w =
     (if env w f = [] then (RecvEof, w)
      else (RecvData (take n (env w f)),
        emit [EvRecv f (take n (env w f))] (w\<lparr>env := (env w)(f := drop n (env w f))\<rparr>)))"
  by (simp add: sys_recv_def echo_os_def echo_recv_def emit_def)

lemma echo_wait_for [simp]: "wait_for echo_os f ev t w = Some (1, w)"
  by (simp add: wait_for_def wait_for_loop.simps [of echo_os])

lemma echo_safe_close [simp]:
  "safe_close echo_os f w = Some (if f < 0 then w else emit [EvClose f] w)"
  by (simp add: safe_close_def close_loop.simps [of echo_os])

lemma echo_read_exact:
  assumes "0 < need" and "need \<le> length (env w f)"
  shows "read_exact echo_os f need t a [] w =
     Some (kOk, take need (env w f),
       emit [EvRecv f (take need (env w f))] (w\<lparr>env := (env w)(f := drop need (env w f))\<rparr>))"
proof -
  from assms have "env w f \<noteq> []" by auto
  with assms show ?thesis
    by (simp add: read_exact.simps [of echo_os _ _ _ _ "[]"] echo_sys_recv
        read_exact.simps [of echo_os _ _ _ _ "take need (env w f)"] min_def)
qed

lemma echo_read_exact_eof:
  "0 < need \<Longrightarrow> env w f = [] \<Longrightarrow> read_exact echo_os f need t a [] w = Some (kPeerClosed, [], w)"
  by (simp add: read_exact.simps [of echo_os _ _ _ _ "[]"] echo_sys_recv)

lemma echo_write_exact:
  "buf \<noteq> [] \<Longrightarrow> write_exact echo_os f buf t 0 w =
     Some (kOk, emit [EvSend f buf] (w\<lparr>env := (env w)(f := env w f @ buf)\<rparr>))"
  by (simp add: write_exact.simps [of echo_os _ _ _ 0] write_exact.simps [of echo_os _ _ _ "length buf"])

text \<open>Reading a frame that is there, reading at the end of the input, writing a frame.\<close>

lemma echo_read_message:
  assumes "env w f = frame p @ r" and "frame_fits mx p"
  shows "read_message echo_os e f out mx t w =
     Some (kOk, p, emit (EvRecv f (be_bytes (length p)) # (if p = [] then [] else [EvRecv f p]))
       (w\<lparr>env := (env w)(f := r)\<rparr>))"
proof -
  from assms have p: "length p \<le> mx" "length p < 4294967296" by (simp_all add: frame_fits_def)
  have hv: "unat (ntohl e (memcpy_u32 e (be_bytes (length p)))) = length p"
    using p(2) by (simp add: ntohl_memcpy be_value_be_bytes)
  have t4: "take 4 (env w f) = be_bytes (length p)" "drop 4 (env w f) = p @ r"
    using assms(1) by (simp_all add: frame_def)
  moreover have "4 \<le> length (env w f)" using assms(1) by simp
  ultimately show ?thesis
    using p
    by (simp add: read_message_def echo_read_exact hv t4 world_simps Let_def overlay_full emit_def)
qed

lemma echo_read_message_eof:
  "env w f = [] \<Longrightarrow> read_message echo_os e f out mx t w = Some (kPeerClosed, out, w)"
  by (simp add: read_message_def echo_read_exact_eof)

lemma echo_write_message:
  assumes "length p < 4294967296"
  shows "write_message echo_os e f p t w =
     Some (kOk, emit (EvSend f (be_bytes (length p)) # (if p = [] then [] else [EvSend f p]))
       (w\<lparr>env := (env w)(f := env w f @ frame p)\<rparr>))"
proof -
  have "memcpy_hdr e (htonl e (of_nat (length p))) = be_bytes (length p)"
    using assms by (rule memcpy_htonl)
  moreover have "be_bytes (length p) \<noteq> []" by (simp add: be_bytes_def)
  ultimately show ?thesis
    using assms by (simp add: write_message_def echo_write_exact Let_def frame_def emit_def)
qed

end
