(* ===== verification/Messages.thy ===== *)
theory Messages
  imports Echo_World
begin

text \<open>
  The message layer on top of exact reads and writes. \<open>read_message\<close> and
  \<open>write_message\<close> exist twice in the sources, over a descriptor (\<open>connection.cpp\<close>) and
  over a TLS session (\<open>tls.cpp\<close>), with the same control flow. What both need of the
  layer below is the contract of the locales \<open>exact_reader\<close> and \<open>exact_writer\<close>; the
  facts about messages are proved once, from the contract, and reach the two
  implementations by interpretation.
\<close>

section \<open>The shared control flow\<close>

text \<open>
  \<open>hdr_len\<close> turns the four header bytes into the announced length, \<open>rd n eof w\<close> reads
  exactly \<open>n\<close> bytes, \<open>wr buf w\<close> writes all of \<open>buf\<close>.
\<close>

definition read_framed ::
    "(bytes \<Rightarrow> nat) \<Rightarrow> (nat \<Rightarrow> bool \<Rightarrow> 'e world \<Rightarrow> (io_status \<times> bytes \<times> 'e world) option) \<Rightarrow>
       bytes \<Rightarrow> nat \<Rightarrow> 'e world \<Rightarrow> (io_status \<times> bytes \<times> 'e world) option" where
  "read_framed hdr_len rd out max_payload w =
     do {
       (rc, hdr, w1) \<leftarrow> rd 4 True w;
       if rc \<noteq> kOk then Some (rc, out, w1)
       else if hdr_len hdr > max_payload then Some (kProtocolError, out, w1)
       else if hdr_len hdr = 0 then Some (kOk, resize out (hdr_len hdr), w1)
       else do {
         (rc2, got, w2) \<leftarrow> rd (hdr_len hdr) False w1;
         Some (rc2, overlay got (resize out (hdr_len hdr)), w2)
       }
     }"

definition write_framed ::
    "(nat \<Rightarrow> bytes) \<Rightarrow> (bytes \<Rightarrow> 'e world \<Rightarrow> (io_status \<times> 'e world) option) \<Rightarrow>
       bytes \<Rightarrow> 'e world \<Rightarrow> (io_status \<times> 'e world) option" where
  "write_framed hdr wr data w =
     (if length data > 0xFFFFFFFF then Some (kProtocolError, w)
      else do {
        (rc, w1) \<leftarrow> wr (hdr (length data)) w;
        if rc \<noteq> kOk then Some (rc, w1)
        else if length data = 0 then Some (kOk, w1)
        else wr data w1
      })"

section \<open>What a message read and a message write achieve\<close>

text \<open>
  \<open>frame_outcome\<close>: the status and the output of a message read agree with what
  \<open>parse_frame\<close> says of the bytes \<open>bs\<close> the read took off the wire. A status other than
  \<open>kOk\<close> and \<open>kProtocolError\<close> stopped inside a frame.
\<close>

definition frame_outcome :: "endian \<Rightarrow> nat \<Rightarrow> bytes \<Rightarrow> bytes \<Rightarrow> io_status \<Rightarrow> bytes \<Rightarrow> bool" where
  "frame_outcome e mx out bs st out' \<longleftrightarrow>
     (case st of
        kOk \<Rightarrow> parse_frame e (Some bs) mx out = (kOk, out', length bs)
      | kProtocolError \<Rightarrow> parse_frame e (Some bs) mx out = (kProtocolError, out', 0) \<and> length bs = 4
      | _ \<Rightarrow> fst (parse_frame e (Some bs) mx out) = kPeerClosed)"

definition message_written :: "(bytes \<Rightarrow> event) \<Rightarrow> bytes \<Rightarrow> 'e world \<Rightarrow> io_status \<Rightarrow> 'e world \<Rightarrow> bool" where
  "message_written C data w st w' \<longleftrightarrow>
     (if length data > 0xFFFFFFFF then st = kProtocolError \<and> w' = w
      else \<exists>bs rest. transferred C w bs w' \<and> frame data = bs @ rest \<and>
        (st = kOk \<longleftrightarrow> rest = []) \<and> st \<noteq> kProtocolError)"

lemma frame_outcome_ok:
  "frame_outcome e mx out bs kOk out' \<longleftrightarrow> bs = frame out' \<and> frame_fits mx out'"
  by (auto simp: frame_outcome_def parse_frame_ok_iff frame_fits_def frame_def)

text \<open>The four ways a message read can end, by how far into the frame it came.\<close>

lemma frame_outcome_short:
  "length bs < 4 \<Longrightarrow> st \<noteq> kOk \<Longrightarrow> st \<noteq> kProtocolError \<Longrightarrow> frame_outcome e mx out bs st out'"
  by (cases st) (simp_all add: frame_outcome_def parse_frame_be)

lemma frame_outcome_big:
  "length hdr = 4 \<Longrightarrow> mx < be_value hdr \<Longrightarrow> frame_outcome e mx out hdr kProtocolError out"
  by (simp add: frame_outcome_def parse_frame_be)

lemma frame_outcome_empty:
  "length hdr = 4 \<Longrightarrow> be_value hdr = 0 \<Longrightarrow> frame_outcome e mx out hdr kOk []"
  by (simp add: frame_outcome_def parse_frame_be)

lemma frame_outcome_body:
  assumes "length hdr = 4" and "be_value hdr \<le> mx" and "st \<noteq> kProtocolError"
    and "st = kOk \<Longrightarrow> length got = be_value hdr \<and> out' = got"
    and "st \<noteq> kOk \<Longrightarrow> length got < be_value hdr"
  shows "frame_outcome e mx out (hdr @ got) st out'"
  using assms be_value_append [OF assms(1), of got]
  by (cases st) (simp_all add: frame_outcome_def parse_frame_be)

section \<open>The contract of an exact reader\<close>

locale exact_reader =
  fixes rd :: "nat \<Rightarrow> bool \<Rightarrow> 'e world \<Rightarrow> (io_status \<times> bytes \<times> 'e world) option"
    and C :: "bytes \<Rightarrow> event"
    and exact :: bool
    and live :: "('e \<Rightarrow> nat) \<Rightarrow> bool"
  assumes rd_result: "rd n a w = Some r \<Longrightarrow> read_result C n [] w r"
    and rd_exact: "exact \<Longrightarrow> rd n a w = Some r \<Longrightarrow> length (fst (snd r)) \<le> n"
    and rd_returns: "live budget \<Longrightarrow> returns budget w (rd n a w) (\<lambda>r. snd (snd r))"
begin

lemma rd_cases:
  assumes "rd n a w = Some (st, buf, w')"
  shows "transferred C w buf w'" and "st = kOk \<longleftrightarrow> n \<le> length buf" and "st \<noteq> kProtocolError"
    and "exact \<Longrightarrow> st = kOk \<Longrightarrow> length buf = n" and "exact \<Longrightarrow> st \<noteq> kOk \<Longrightarrow> length buf < n"
  using rd_result [OF assms] rd_exact [OF _ assms] by (auto simp: read_result_def)

lemma read_framed_outcome:
  assumes exact and hl: "\<And>h. length h = 4 \<Longrightarrow> hdr_len h = be_value h"
    and run: "read_framed hdr_len rd out mx w = Some (st, out', w')"
  shows "\<exists>bs. transferred C w bs w' \<and> frame_outcome e mx out bs st out'"
proof -
  from run obtain rc hdr w1 where h: "rd 4 True w = Some (rc, hdr, w1)"
    by (auto simp: read_framed_def elim!: bind_SomeE)
  note H = rd_cases [OF h]
  show ?thesis
  proof (cases "rc = kOk")
    case False
    with run h have "st = rc" "w' = w1" by (simp_all add: read_framed_def)
    with frame_outcome_short [OF H(5) [OF \<open>exact\<close> False]] H(1,3) False show ?thesis by blast
  next
    case True
    with H(4) [OF \<open>exact\<close>] have l4: "length hdr = 4" by simp
    note hv = hl [OF l4]
    consider (big) "mx < be_value hdr" | (empty) "be_value hdr = 0" "\<not> mx < be_value hdr"
      | (body) "be_value hdr \<le> mx" "be_value hdr \<noteq> 0" by linarith
    then show ?thesis
    proof cases
      case big
      with run h True hv have "st = kProtocolError" "out' = out" "w' = w1"
        by (simp_all add: read_framed_def)
      with frame_outcome_big [OF l4 big] H(1) show ?thesis by blast
    next
      case empty
      with run h True hv have "st = kOk" "out' = []" "w' = w1"
        by (simp_all add: read_framed_def)
      with frame_outcome_empty [OF l4 empty(1)] H(1) show ?thesis by blast
    next
      case body
      with run h True hv obtain rc2 got w2 where g: "rd (be_value hdr) False w1 = Some (rc2, got, w2)"
        and st: "st = rc2" "out' = overlay got (resize out (be_value hdr))" "w' = w2"
        by (auto simp: read_framed_def elim!: bind_SomeE)
      note G = rd_cases [OF g]
      have "frame_outcome e mx out (hdr @ got) st out'"
        using G(3) G(4,5) [OF \<open>exact\<close>] st
        by (intro frame_outcome_body [OF l4 body(1)]) (simp_all add: overlay_full)
      with transferred_trans [OF H(1) G(1)] st(3) show ?thesis by blast
    qed
  qed
qed

lemma read_framed_returns:
  assumes "live budget"
  shows "returns budget w (read_framed hdr_len rd out mx w) (\<lambda>r. snd (snd r))"
  unfolding read_framed_def
proof (rule returns_bind [OF rd_returns [OF assms]], clarify)
  fix rc hdr w1
  have body: "returns budget w1 (Option.bind (rd (hdr_len hdr) False w1)
      (\<lambda>(rc2, got, w2). Some (rc2, overlay got (resize out (hdr_len hdr)), w2)))
      (\<lambda>r. snd (snd r))"
    by (rule returns_bind [OF rd_returns [OF assms]]) (auto intro: returns_Some)
  then show "returns budget (snd (snd (rc, hdr, w1)))
      (if rc \<noteq> kOk then Some (rc, out, w1)
       else if hdr_len hdr > mx then Some (kProtocolError, out, w1)
       else if hdr_len hdr = 0 then Some (kOk, resize out (hdr_len hdr), w1)
       else Option.bind (rd (hdr_len hdr) False w1)
         (\<lambda>(rc2, got, w2). Some (rc2, overlay got (resize out (hdr_len hdr)), w2)))
      (\<lambda>r. snd (snd r))"
    by (simp add: returns_Some)
qed

end

section \<open>The contract of an exact writer\<close>

locale exact_writer =
  fixes wr :: "bytes \<Rightarrow> 'e world \<Rightarrow> (io_status \<times> 'e world) option"
    and C :: "bytes \<Rightarrow> event"
    and live :: "('e \<Rightarrow> nat) \<Rightarrow> bool"
  assumes wr_result: "wr buf w = Some r \<Longrightarrow> write_result C buf 0 w r"
    and wr_returns: "live budget \<Longrightarrow> returns budget w (wr buf w) snd"
begin

lemma write_framed_written:
  assumes hdr: "\<And>n. n < 4294967296 \<Longrightarrow> hdr n = be_bytes n"
    and run: "write_framed hdr wr data w = Some (st, w')"
  shows "message_written C data w st w'"
proof (cases "length data > 0xFFFFFFFF")
  case True
  with run show ?thesis by (simp add: write_framed_def message_written_def)
next
  case False
  then have fits: "hdr (length data) = be_bytes (length data)" by (intro hdr) simp
  with run False obtain rc w1 where h: "wr (be_bytes (length data)) w = Some (rc, w1)"
    by (auto simp: write_framed_def elim!: bind_SomeE)
  from wr_result [OF h] obtain bs rest where H: "transferred C w bs w1"
    "be_bytes (length data) = bs @ rest" "rc = kOk \<longleftrightarrow> rest = []" "rc \<noteq> kProtocolError"
    by (auto simp: write_result_def)
  show ?thesis
  proof (cases "rc = kOk \<and> data \<noteq> []")
    case True
    with run False fits h have d: "wr data w1 = Some (st, w')" by (simp add: write_framed_def)
    from wr_result [OF d] obtain bs2 rest2 where D: "transferred C w1 bs2 w'" "data = bs2 @ rest2"
      "st = kOk \<longleftrightarrow> rest2 = []" "st \<noteq> kProtocolError"
      by (auto simp: write_result_def)
    have "frame data = (bs @ bs2) @ rest2" using True H(2,3) D(2) by (simp add: frame_def)
    with transferred_trans [OF H(1) D(1)] D(3,4) False show ?thesis
      unfolding message_written_def by (simp only: if_False) blast
  next
    case no_body: False
    with run False fits h have "st = rc" "w' = w1" by (auto simp: write_framed_def split: if_splits)
    moreover have "frame data = bs @ (rest @ data)" using H(2) by (simp add: frame_def)
    moreover have "st = kOk \<longleftrightarrow> rest @ data = []"
      using no_body H(3) \<open>st = rc\<close> by auto
    ultimately show ?thesis
      using H(1,4) False unfolding message_written_def by (simp only: if_False) blast
  qed
qed

lemma write_framed_returns:
  assumes "live budget"
  shows "returns budget w (write_framed hdr wr data w) snd"
proof (cases "length data > 0xFFFFFFFF")
  case True
  then show ?thesis by (simp add: write_framed_def returns_Some)
next
  case False
  have "returns budget w (Option.bind (wr (hdr (length data)) w) (\<lambda>(rc, w1).
      if rc \<noteq> kOk then Some (rc, w1) else if length data = 0 then Some (kOk, w1) else wr data w1))
      snd"
    by (rule returns_bind [OF wr_returns [OF assms]])
      (simp add: returns_Some wr_returns [OF assms] split: prod.splits)
  with False show ?thesis by (simp add: write_framed_def)
qed

end

section \<open>The plain descriptor provides both contracts\<close>

interpretation plain_rd: exact_reader
    "\<lambda>n a w. read_exact os f n t a [] w" "EvRecv f" "recv_bounded os"
    "\<lambda>budget. finite_interrupts os budget \<and> recv_bounded os"
  for os f t
proof
  show "read_exact os f n t a [] w = Some r \<Longrightarrow> read_result (EvRecv f) n [] w r" for n a w r
    by (rule read_exact_result)
  show "recv_bounded os \<Longrightarrow> read_exact os f n t a [] w = Some r \<Longrightarrow> length (fst (snd r)) \<le> n"
    for n a w r
    by (erule read_exact_bounded) simp_all
  show "finite_interrupts os budget \<and> recv_bounded os \<Longrightarrow>
      returns budget w (read_exact os f n t a [] w) (\<lambda>r. snd (snd r))" for budget w n a
    by (simp add: read_exact_returns)
qed

interpretation plain_wr: exact_writer
    "\<lambda>buf w. write_exact os f buf t 0 w" "EvSend f" "finite_interrupts os"
  for os f t
  by unfold_locales (auto intro: write_exact_result write_exact_returns)

lemma read_message_framed:
  "read_message os e f out mx t w =
     read_framed (\<lambda>hdr. unat (ntohl e (memcpy_u32 e hdr)))
       (\<lambda>n a w. read_exact os f n t a [] w) out mx w"
  unfolding read_message_def read_framed_def Let_def by (rule refl)

lemma write_message_framed:
  "write_message os e f data t w =
     write_framed (\<lambda>n. memcpy_hdr e (htonl e (of_nat n)))
       (\<lambda>buf w. write_exact os f buf t 0 w) data w"
  unfolding write_message_def write_framed_def Let_def by (rule refl)

lemma read_message_outcome:
  assumes "recv_bounded os" and "read_message os e f out mx t w = Some (st, out', w')"
  shows "\<exists>bs. transferred (EvRecv f) w bs w' \<and> frame_outcome e mx out bs st out'"
  by (rule plain_rd.read_framed_outcome [OF assms(1) _ assms(2) [unfolded read_message_framed]])
    (simp add: ntohl_memcpy)

lemma read_message_returns:
  "finite_interrupts os budget \<Longrightarrow> recv_bounded os \<Longrightarrow>
     returns budget w (read_message os e f out mx t w) (\<lambda>r. snd (snd r))"
  unfolding read_message_framed by (rule plain_rd.read_framed_returns) simp

lemma write_message_written:
  "write_message os e f data t w = Some (st, w') \<Longrightarrow> message_written (EvSend f) data w st w'"
  unfolding write_message_framed
  by (erule plain_wr.write_framed_written [rotated]) (simp add: memcpy_htonl)

lemma write_message_returns:
  "finite_interrupts os budget \<Longrightarrow> returns budget w (write_message os e f data t w) snd"
  unfolding write_message_framed by (rule plain_wr.write_framed_returns)

section \<open>Messages on the wire\<close>

text \<open>
  C16: one call of \<open>read_message\<close> takes at most one frame off the descriptor and does nothing
  else. Status \<open>kOk\<close>: the bytes it took are exactly the encoding of the payload it returns,
  which respects the limit. \<open>kProtocolError\<close>: it took the four header bytes, they announce
  more than the limit, and the caller's buffer is untouched. Any other status: the bytes it
  took are an incomplete frame for \<open>parse_frame\<close>.
\<close>

theorem read_message_takes_one_frame:
  assumes "recv_bounded os" and "read_message os e f out mx t w = Some (st, out', w')"
  shows "\<exists>bs. transferred (EvRecv f) w bs w' \<and>
    (if st = kOk then bs = frame out' \<and> frame_fits mx out'
     else if st = kProtocolError then length bs = 4 \<and> mx < be_value bs \<and> out' = out
     else fst (parse_frame e (Some bs) mx out) = kPeerClosed)"
proof -
  from read_message_outcome [OF assms] obtain bs
    where bs: "transferred (EvRecv f) w bs w'" "frame_outcome e mx out bs st out'" by blast
  then show ?thesis
    by (intro exI [of _ bs])
      (cases st; simp add: frame_outcome_ok; simp add: frame_outcome_def parse_frame_be split: if_splits)
qed

theorem read_message_takes_one_frame_witness:
  "\<exists>bs. transferred (EvRecv 7) (start (\<lambda>_. frame [10, 20] @ [99])) bs
      (emit [EvRecv 7 (be_bytes 2), EvRecv 7 [10, 20]]
        (start ((\<lambda>_. frame [10, 20] @ [99])(7 := [99])))) \<and>
     bs = frame [10, 20] \<and> frame_fits 16 [10, 20]"
  using read_message_takes_one_frame [of echo_os Little 7 "[]" 16 5 "start (\<lambda>_. frame [10, 20] @ [99])"
      kOk "[10, 20]" "emit [EvRecv 7 (be_bytes 2), EvRecv 7 [10, 20]]
        (start ((\<lambda>_. frame [10, 20] @ [99])(7 := [99])))"]
  by (simp add: echo_read_message [where p = "[10, 20]" and r = "[99]"] frame_fits_def start_def
      numeral_2_eq_2)

text \<open>
  \<open>write_message\<close> refuses a payload whose length does not fit the header before it sends
  anything. Otherwise it sends a prefix of the payload's encoding and nothing else, and the
  whole of it exactly when it returns \<open>kOk\<close>.
\<close>

lemma write_message_sends_frame:
  assumes "write_message os e f data t w = Some (st, w')"
  shows "if 4294967295 < length data then st = kProtocolError \<and> w' = w
    else st \<noteq> kProtocolError \<and> (\<exists>bs. transferred (EvSend f) w bs w' \<and> prefix bs (frame data) \<and>
      (st = kOk \<longleftrightarrow> bs = frame data))"
proof (cases "4294967295 < length data")
  case True
  with write_message_written [OF assms] show ?thesis by (simp add: message_written_def)
next
  case False
  with write_message_written [OF assms] obtain bs rest where "transferred (EvSend f) w bs w'"
    "frame data = bs @ rest" "st = kOk \<longleftrightarrow> rest = []" "st \<noteq> kProtocolError"
    by (auto simp: message_written_def)
  with False show ?thesis by (auto intro!: exI [of _ bs])
qed

text \<open>
  C17: two routers agree on a message whatever their byte orders are. If a writer reported
  \<open>kOk\<close> for a payload, and a reader at the other end reported \<open>kOk\<close> after consuming the
  start of a stream that begins with what the writer sent, then the reader has the payload.
\<close>

theorem write_then_read_message:
  assumes "write_message os1 e1 f data t1 w = Some (kOk, w')"
    and "recv_bounded os2" and "read_message os2 e2 g out mx t2 v = Some (kOk, out', v')"
    and "trace w' = trace w @ evs1" and "trace v' = trace v @ evs2"
    and "prefix (received g evs2) (sent f evs1 @ rest)"
  shows "out' = data"
proof -
  from write_message_written [OF assms(1)]
  have len: "length data \<le> 4294967295" and tw: "transferred (EvSend f) w (frame data) w'"
    by (auto simp: message_written_def split: if_splits)
  from tw assms(4) have "sent f evs1 = frame data"
    by (auto simp: transferred_def did_def trace_simps)
  moreover from read_message_outcome [OF assms(2,3)]
  have "transferred (EvRecv g) v (frame out') v'" and fit: "frame_fits mx out'"
    by (auto simp: frame_outcome_ok)
  then have "received g evs2 = frame out'"
    using assms(5) by (auto simp: transferred_def did_def trace_simps)
  ultimately obtain r where "frame out' @ r = frame data @ rest"
    using assms(6) by (auto simp: prefix_def)
  with frame_inject [of out' r data rest] fit len show ?thesis by (simp add: frame_fits_def)
qed

theorem write_then_read_message_witness:
  "\<exists>w' v' out'. write_message echo_os Little 4 [8, 9] 10 (start (\<lambda>_. [])) = Some (kOk, w') \<and>
     read_message echo_os Big 4 [] 16 20 w' = Some (kOk, out', v') \<and> out' = [8, 9]"
proof (intro exI conjI)
  let ?w = "emit [EvSend 4 (be_bytes 2), EvSend 4 [8, 9]] (start ((\<lambda>_. [])(4 := frame [8, 9])))"
  let ?v = "emit [EvRecv 4 (be_bytes 2), EvRecv 4 [8, 9]] (?w\<lparr>env := (env ?w)(4 := [])\<rparr>)"
  show w: "write_message echo_os Little 4 [8, 9] 10 (start (\<lambda>_. [])) = Some (kOk, ?w)"
    by (simp add: echo_write_message start_def numeral_2_eq_2)
  show r: "read_message echo_os Big 4 [] 16 20 ?w = Some (kOk, [8, 9], ?v)"
    by (subst echo_read_message [where p = "[8, 9]" and r = "[]"])
      (simp_all add: world_simps frame_fits_def numeral_2_eq_2)
  show "[8, 9] = ([8, 9] :: bytes)"
    by (rule write_then_read_message [OF w _ r, where rest = "[]"
          and ?evs1.0 = "[EvSend 4 (be_bytes 2), EvSend 4 [8, 9]]"
          and ?evs2.0 = "[EvRecv 4 (be_bytes 2), EvRecv 4 [8, 9]]"])
      (simp_all add: world_simps trace_simps)
qed

end
