(* ===== verification/Dial.thy ===== *)
theory Dial
  imports Messages
begin

text \<open>
  \<open>dial_tcp\<close> and \<open>listen_tcp\<close> of \<open>src/src/connection.cpp\<close>: resolve a name, try the
  addresses in order and return the first descriptor that works. The resolver and the
  socket calls are parameters; an address is whatever the resolver returns.
\<close>

section \<open>The calls\<close>

text \<open>
  \<open>nd_getaddrinfo\<close> takes the host (None: null pointer), the decimal port and whether
  \<open>AI_PASSIVE\<close> is set; \<open>nd_connect\<close>, \<open>nd_bind\<close>, \<open>nd_listen\<close> return None for 0 and
  the error otherwise; \<open>nd_so_error\<close> is \<open>getsockopt(SO_ERROR)\<close>, None when the call
  itself failed.
\<close>

record ('a, 'e) netdb =
  nd_getaddrinfo :: "string option \<Rightarrow> string \<Rightarrow> bool \<Rightarrow> 'e \<Rightarrow> 'a list option \<times> 'e"
  nd_socket :: "'a \<Rightarrow> 'e \<Rightarrow> fd \<times> 'e"
  nd_connect :: "fd \<Rightarrow> 'a \<Rightarrow> 'e \<Rightarrow> errno option \<times> 'e"
  nd_so_error :: "fd \<Rightarrow> 'e \<Rightarrow> nat option \<times> 'e"
  nd_setsockopt :: "fd \<Rightarrow> 'e \<Rightarrow> 'e"
  nd_bind :: "fd \<Rightarrow> 'a \<Rightarrow> 'e \<Rightarrow> errno option \<times> 'e"
  nd_listen :: "fd \<Rightarrow> int \<Rightarrow> 'e \<Rightarrow> errno option \<times> 'e"

definition sys_socket :: "('a, 'e) netdb \<Rightarrow> 'a \<Rightarrow> 'e world \<Rightarrow> fd \<times> 'e world" where
  "sys_socket nd a w =
     (case nd_socket nd a (env w) of (f, e) \<Rightarrow>
        (f, emit (if f < 0 then [] else [EvOpen f]) (w\<lparr>env := e\<rparr>)))"

definition sys_env :: "('e \<Rightarrow> 'r \<times> 'e) \<Rightarrow> 'e world \<Rightarrow> 'r \<times> 'e world" where
  "sys_env call w = (case call (env w) of (r, e) \<Rightarrow> (r, w\<lparr>env := e\<rparr>))"

section \<open>Connecting\<close>

fun dial_loop ::
    "'e os \<Rightarrow> ('a, 'e) netdb \<Rightarrow> int \<Rightarrow> 'a list \<Rightarrow> 'e world \<Rightarrow> (fd \<times> 'e world) option" where
  "dial_loop os nd connect_timeout_ms [] w = Some (- 1, w)"
| "dial_loop os nd connect_timeout_ms (ai # ais) w =
     (case sys_socket nd ai w of (f, w1) \<Rightarrow>
        if f < 0 then dial_loop os nd connect_timeout_ms ais w1
        else (case set_nonblocking os f True w1 of (nb, w2) \<Rightarrow>
          if \<not> nb then do { w3 \<leftarrow> safe_close os f w2; dial_loop os nd connect_timeout_ms ais w3 }
          else (case sys_env (nd_connect nd f ai) w2 of (rc, w3) \<Rightarrow>
            if rc = None then Some (f, snd (set_nonblocking os f False w3))
            else if rc \<noteq> Some EINPROGRESS
              then do { w4 \<leftarrow> safe_close os f w3; dial_loop os nd connect_timeout_ms ais w4 }
            else do {
              (wait_rc, w4) \<leftarrow> wait_for os f POLLOUT connect_timeout_ms w3;
              if wait_rc \<le> 0
                then do { w5 \<leftarrow> safe_close os f w4; dial_loop os nd connect_timeout_ms ais w5 }
              else (case sys_env (nd_so_error nd f) w4 of (err, w5) \<Rightarrow>
                if err = None \<or> err \<noteq> Some 0
                  then do { w6 \<leftarrow> safe_close os f w5; dial_loop os nd connect_timeout_ms ais w6 }
                else Some (f, snd (set_nonblocking os f False w5)))
            })))"

definition dial_tcp ::
    "'e os \<Rightarrow> ('a, 'e) netdb \<Rightarrow> string \<Rightarrow> u16 \<Rightarrow> int \<Rightarrow> 'e world \<Rightarrow> (fd \<times> 'e world) option" where
  "dial_tcp os nd host port connect_timeout_ms w =
     (case sys_env (nd_getaddrinfo nd (Some host) (show_nat (unat port)) False) w of (res, w1) \<Rightarrow>
        (case res of
           None \<Rightarrow> Some (- 1, w1)
         | Some ais \<Rightarrow> do {
             (f, w2) \<leftarrow> dial_loop os nd connect_timeout_ms ais w1;
             Some (f, if f \<ge> 0 then w2\<lparr>env := nd_setsockopt nd f (env w2)\<rparr> else w2)
           }))"

section \<open>Listening\<close>

fun listen_loop ::
    "'e os \<Rightarrow> ('a, 'e) netdb \<Rightarrow> int \<Rightarrow> 'a list \<Rightarrow> 'e world \<Rightarrow> (fd \<times> 'e world) option" where
  "listen_loop os nd backlog [] w = Some (- 1, w)"
| "listen_loop os nd backlog (ai # ais) w =
     (case sys_socket nd ai w of (f, w1) \<Rightarrow>
        if f < 0 then listen_loop os nd backlog ais w1
        else (let w2 = w1\<lparr>env := nd_setsockopt nd f (nd_setsockopt nd f (env w1))\<rparr> in
          (case sys_env (nd_bind nd f ai) w2 of (rb, w3) \<Rightarrow>
            if rb \<noteq> None then do { w4 \<leftarrow> safe_close os f w3; listen_loop os nd backlog ais w4 }
            else (case sys_env (nd_listen nd f backlog) w3 of (rl, w4) \<Rightarrow>
              if rl \<noteq> None then do { w5 \<leftarrow> safe_close os f w4; listen_loop os nd backlog ais w5 }
              else Some (f, w4)))))"

definition listen_tcp ::
    "'e os \<Rightarrow> ('a, 'e) netdb \<Rightarrow> string \<Rightarrow> u16 \<Rightarrow> int \<Rightarrow> 'e world \<Rightarrow> (fd \<times> 'e world) option" where
  "listen_tcp os nd host port backlog w =
     (case sys_env (nd_getaddrinfo nd (if host = [] then None else Some host)
          (show_nat (unat port)) True) w of (res, w1) \<Rightarrow>
        (case res of
           None \<Rightarrow> Some (- 1, w1)
         | Some ais \<Rightarrow> listen_loop os nd backlog ais w1))"

section \<open>No descriptor is lost\<close>

text \<open>
  \<open>one_fd w f w'\<close>: the code did nothing but open and close descriptors; every descriptor
  it opened it closed again, once each and in that order, but for the one it returns.
\<close>

definition opened_closed :: "fd list \<Rightarrow> event list" where
  "opened_closed fs = concat (map (\<lambda>f. [EvOpen f, EvClose f]) fs)"

definition one_fd :: "'e world \<Rightarrow> fd \<Rightarrow> 'e world \<Rightarrow> bool" where
  "one_fd w f w' \<longleftrightarrow> - 1 \<le> f \<and>
     (\<exists>fs. did w (opened_closed fs @ (if f < 0 then [] else [EvOpen f])) w' \<and> (\<forall>g \<in> set fs. 0 \<le> g))"

lemma one_fd_none: "did w [] w' \<Longrightarrow> one_fd w (- 1) w'"
  by (auto simp: one_fd_def opened_closed_def intro!: exI [of _ "[]"])

lemma one_fd_some: "did w [EvOpen f] w' \<Longrightarrow> 0 \<le> f \<Longrightarrow> one_fd w f w'"
  by (auto simp: one_fd_def opened_closed_def intro!: exI [of _ "[]"])

lemma one_fd_silent: "did w [] v \<Longrightarrow> one_fd v f u \<Longrightarrow> one_fd w f u"
  unfolding one_fd_def by (meson did_silent)

lemma one_fd_closed:
  assumes "did w [EvOpen g] v" and "0 \<le> g" and "did v [EvClose g] u" and "one_fd u f t"
  shows "one_fd w f t"
proof -
  from assms(4) obtain fs where fs: "did u (opened_closed fs @ (if f < 0 then [] else [EvOpen f])) t"
    "\<forall>g \<in> set fs. 0 \<le> g" "- 1 \<le> f" by (auto simp: one_fd_def)
  have "did w (opened_closed (g # fs) @ (if f < 0 then [] else [EvOpen f])) t"
    using did_trans [OF did_trans [OF assms(1,3)] fs(1)] by (simp add: opened_closed_def)
  with fs assms(2) show ?thesis unfolding one_fd_def by (intro conjI exI [of _ "g # fs"]) auto
qed

lemma did_socket: "sys_socket nd a w = (f, w') \<Longrightarrow> did w (if f < 0 then [] else [EvOpen f]) w'"
  by (auto simp: sys_socket_def did_def world_simps trace_simps split: prod.splits)

lemma did_sys_env: "sys_env call w = (r, w') \<Longrightarrow> did w [] w'"
  by (auto simp: sys_env_def did_def trace_simps split: prod.splits)

lemma did_env_update [simp]: "did w evs (w'\<lparr>env := e\<rparr>) \<longleftrightarrow> did w evs w'"
  by (simp add: did_def)

lemma did_set_nonblocking_snd: "did w evs v \<Longrightarrow> did w evs (snd (set_nonblocking os f b v))"
  by (metis did_silent2 prod.collapse set_nonblocking_did)

lemma safe_close_closes: "safe_close os f w = Some w' \<Longrightarrow> 0 \<le> f \<Longrightarrow> did w [EvClose f] w'"
  using safe_close_did [of os f w w'] by simp

text \<open>An address that fails after its socket was opened is closed before the next one.\<close>

lemma one_fd_retry:
  assumes "did w [EvOpen g] v" and "0 \<le> g" and "safe_close os g v = Some u" and "one_fd u f t"
  shows "one_fd w f t"
  using one_fd_closed [OF assms(1,2) safe_close_closes [OF assms(3,2)] assms(4)] .

lemma dial_loop_one_fd: "dial_loop os nd t ais w = Some (f, w') \<Longrightarrow> one_fd w f w'"
proof (induction ais arbitrary: w)
  case Nil
  then show ?case by (auto intro: one_fd_none)
next
  case (Cons ai ais)
  obtain g w1 where s: "sys_socket nd ai w = (g, w1)" by fastforce
  show ?case
  proof (cases "g < 0")
    case True
    with Cons.prems s did_socket [OF s] show ?thesis
      by (auto intro: one_fd_silent Cons.IH)
  next
    case False
    then have g: "0 \<le> g" and d1: "did w [EvOpen g] w1" using did_socket [OF s] by simp_all
    obtain nb w2 where nb: "set_nonblocking os g True w1 = (nb, w2)" by fastforce
    obtain rc w3 where rc: "sys_env (nd_connect nd g ai) w2 = (rc, w3)" by fastforce
    note d2 = did_silent2 [OF d1 set_nonblocking_did [OF nb]]
    note d3 = did_silent2 [OF d2 did_sys_env [OF rc]]
    note retry = one_fd_retry [OF _ g _ Cons.IH]
    show ?thesis
    proof (cases "nb \<and> rc = Some EINPROGRESS")
      case False
      with Cons.prems s g nb rc d2 d3 show ?thesis
        by (auto split: if_splits elim!: bind_SomeE intro: retry one_fd_some
            did_set_nonblocking_snd)
    next
      case True
      with Cons.prems s g nb rc obtain wr w4 where w4: "wait_for os g POLLOUT t w3 = Some (wr, w4)"
        by (auto elim!: bind_SomeE)
      obtain er w5 where er: "sys_env (nd_so_error nd g) w4 = (er, w5)" by fastforce
      note d4 = did_silent2 [OF d3 wait_for_did(1) [OF w4]]
      note d5 = did_silent2 [OF d4 did_sys_env [OF er]]
      from Cons.prems s g nb rc True w4 er d4 d5 show ?thesis
        by (auto split: if_splits elim!: bind_SomeE intro: retry one_fd_some
            did_set_nonblocking_snd)
    qed
  qed
qed

lemma one_fd_env [simp]: "one_fd w f (w'\<lparr>env := e\<rparr>) \<longleftrightarrow> one_fd w f w'"
  by (simp add: one_fd_def)

lemma dial_tcp_one_fd: "dial_tcp os nd host port t w = Some (f, w') \<Longrightarrow> one_fd w f w'"
  by (auto simp: dial_tcp_def split: prod.splits option.splits if_splits
      elim!: bind_SomeE dest!: did_sys_env dial_loop_one_fd intro: one_fd_none one_fd_silent)

lemma listen_loop_one_fd: "listen_loop os nd b ais w = Some (f, w') \<Longrightarrow> one_fd w f w'"
proof (induction ais arbitrary: w)
  case Nil
  then show ?case by (auto intro: one_fd_none)
next
  case (Cons ai ais)
  obtain g w1 where s: "sys_socket nd ai w = (g, w1)" by fastforce
  show ?case
  proof (cases "g < 0")
    case True
    with Cons.prems s did_socket [OF s] show ?thesis
      by (auto intro: one_fd_silent Cons.IH)
  next
    case False
    then have g: "0 \<le> g" and d1: "did w [EvOpen g] w1" using did_socket [OF s] by simp_all
    let ?w2 = "w1\<lparr>env := nd_setsockopt nd g (nd_setsockopt nd g (env w1))\<rparr>"
    obtain rb w3 where rb: "sys_env (nd_bind nd g ai) ?w2 = (rb, w3)" by fastforce
    obtain rl w4 where rl: "sys_env (nd_listen nd g b) w3 = (rl, w4)" by fastforce
    from d1 have d2: "did w [EvOpen g] ?w2" by simp
    note d3 = did_silent2 [OF d2 did_sys_env [OF rb]]
    note d4 = did_silent2 [OF d3 did_sys_env [OF rl]]
    note retry = one_fd_retry [OF _ g _ Cons.IH]
    from Cons.prems s g rb rl d3 d4 show ?thesis
      by (auto simp: Let_def split: if_splits elim!: bind_SomeE intro: retry one_fd_some)
  qed
qed

lemma listen_tcp_one_fd: "listen_tcp os nd host port b w = Some (f, w') \<Longrightarrow> one_fd w f w'"
  by (auto simp: listen_tcp_def split: prod.splits option.splits
      dest!: did_sys_env listen_loop_one_fd intro: one_fd_none one_fd_silent)

text \<open>What a history with at most one surviving descriptor says of its projections.\<close>

lemma opened_closed_projections [trace_simps]:
  "metric_ops (opened_closed fs) = []" "received f (opened_closed fs) = []"
  "sent f (opened_closed fs) = []" "tls_read f (opened_closed fs) = []"
  "tls_written f (opened_closed fs) = []"
  "closes (opened_closed fs) = fs" "opens (opened_closed fs) = fs"
  by (induction fs; simp add: opened_closed_def trace_simps)+

section \<open>Dialing returns\<close>

text \<open>
  \<open>netdb_quiet\<close>: the resolver and the socket calls do not replenish the interrupt budget.
\<close>

definition netdb_quiet :: "('a, 'e) netdb \<Rightarrow> ('e \<Rightarrow> nat) \<Rightarrow> bool" where
  "netdb_quiet nd budget \<longleftrightarrow>
     (\<forall>h p b e. budget (snd (nd_getaddrinfo nd h p b e)) \<le> budget e) \<and>
     (\<forall>a e. budget (snd (nd_socket nd a e)) \<le> budget e) \<and>
     (\<forall>f a e. budget (snd (nd_connect nd f a e)) \<le> budget e) \<and>
     (\<forall>f e. budget (snd (nd_so_error nd f e)) \<le> budget e) \<and>
     (\<forall>f e. budget (nd_setsockopt nd f e) \<le> budget e) \<and>
     (\<forall>f a e. budget (snd (nd_bind nd f a e)) \<le> budget e) \<and>
     (\<forall>f b e. budget (snd (nd_listen nd f b e)) \<le> budget e)"

lemma sys_env_budget:
  "sys_env call w = (r, w') \<Longrightarrow> (\<And>e. budget (snd (call e)) \<le> budget e) \<Longrightarrow>
     budget (env w') \<le> budget (env w)"
  by (auto simp: sys_env_def split: prod.splits) (metis snd_conv)

lemma sys_socket_budget:
  "sys_socket nd a w = (r, w') \<Longrightarrow> netdb_quiet nd budget \<Longrightarrow> budget (env w') \<le> budget (env w)"
  by (auto simp: sys_socket_def netdb_quiet_def world_simps split: prod.splits) (metis snd_conv)

lemma set_nonblocking_budget:
  assumes "finite_interrupts os budget"
  shows "budget (env (snd (set_nonblocking os f b w))) \<le> budget (env w)"
proof -
  obtain fl w1 where g: "sys_getfl os f w = (fl, w1)" by fastforce
  have s: "budget (env (snd (sys_setfl os f v w1))) \<le> budget (env w1)" for v
    using finite_interruptsD(8) [OF assms, of f v w1] by (metis prod.collapse)
  show ?thesis
    using finite_interruptsD(7) [OF assms g] s order_trans
    by (auto simp: set_nonblocking_def g split: option.splits)
qed

lemma close_then_returns:
  assumes "finite_interrupts os budget" and "budget (env v) \<le> budget (env w)"
    and "\<And>u. returns budget u (k u) out"
  shows "returns budget w (Option.bind (safe_close os f v) k) out"
proof (rule returns_le [OF _ assms(2)], rule returns_bind [OF safe_close_returns [OF assms(1)]])
  show "returns budget (id u) (k u) out" for u using assms(3) by simp
qed

lemma dial_loop_returns:
  assumes fin: "finite_interrupts os budget" and nq: "netdb_quiet nd budget"
  shows "returns budget w (dial_loop os nd t ais w) snd"
proof (induction ais arbitrary: w)
  case Nil
  then show ?case by (simp add: returns_Some)
next
  case (Cons ai ais)
  obtain g w1 where s: "sys_socket nd ai w = (g, w1)" by fastforce
  obtain nb w2 where nb: "set_nonblocking os g True w1 = (nb, w2)" by fastforce
  obtain rc w3 where rc: "sys_env (nd_connect nd g ai) w2 = (rc, w3)" by fastforce
  obtain wr w4 where w4: "wait_for os g POLLOUT t w3 = Some (wr, w4)"
    and b4: "budget (env w4) \<le> budget (env w3)"
    using wait_for_returns [OF fin, of w3 g POLLOUT t] by (auto elim: returnsE)
  obtain er w5 where er: "sys_env (nd_so_error nd g) w4 = (er, w5)" by fastforce
  have b1: "budget (env w1) \<le> budget (env w)" using sys_socket_budget [OF s nq] .
  have b2: "budget (env w2) \<le> budget (env w)"
    using set_nonblocking_budget [OF fin, of g True w1] nb b1 by simp
  have b3: "budget (env w3) \<le> budget (env w)"
    using sys_env_budget [OF rc, of budget] nq b2 by (simp add: netdb_quiet_def)
  have b5: "budget (env w5) \<le> budget (env w)"
    using sys_env_budget [OF er, of budget] nq b3 b4 by (simp add: netdb_quiet_def)
  have off: "budget (env (snd (set_nonblocking os g False v))) \<le> budget (env w)"
    if "budget (env v) \<le> budget (env w)" for v
    using set_nonblocking_budget [OF fin, of g False v] that by simp
  show ?case
    using s nb rc w4 er b1 b2 b3 b4 b5
    by (auto intro!: returns_Some off close_then_returns [OF fin _ Cons.IH]
        intro: returns_le [OF Cons.IH])
qed

lemma dial_tcp_returns:
  assumes fin: "finite_interrupts os budget" and nq: "netdb_quiet nd budget"
  shows "returns budget w (dial_tcp os nd host port t w) snd"
proof -
  obtain res w1 where r: "sys_env (nd_getaddrinfo nd (Some host) (show_nat (unat port)) False) w
      = (res, w1)" by fastforce
  have b1: "budget (env w1) \<le> budget (env w)"
    using sys_env_budget [OF r, of budget] nq by (simp add: netdb_quiet_def)
  have so: "budget (nd_setsockopt nd f e) \<le> budget e" for f e
    using nq by (simp add: netdb_quiet_def)
  have "returns budget w1 (Option.bind (dial_loop os nd t ais w1) (\<lambda>(f, w2).
      Some (f, if f \<ge> 0 then w2\<lparr>env := nd_setsockopt nd f (env w2)\<rparr> else w2))) snd" for ais
    by (rule returns_bind [OF dial_loop_returns [OF fin nq]])
      (auto intro!: returns_Some so split: prod.splits)
  with b1 show ?thesis
    by (auto simp: dial_tcp_def r intro!: returns_Some returns_le [OF _ b1] split: option.splits)
qed

section \<open>The echoing peer\<close>

text \<open>In the echo world a name resolves to one address, whose socket is descriptor 9.\<close>

definition echo_nd :: "(unit, inboxes) netdb" where
  "echo_nd = \<lparr>nd_getaddrinfo = (\<lambda>h p b e. (Some [()], e)), nd_socket = (\<lambda>a e. (9, e)),
     nd_connect = (\<lambda>f a e. (None, e)), nd_so_error = (\<lambda>f e. (Some 0, e)),
     nd_setsockopt = (\<lambda>f e. e), nd_bind = (\<lambda>f a e. (None, e)),
     nd_listen = (\<lambda>f b e. (None, e))\<rparr>"

lemma echo_netdb_quiet [simp]: "netdb_quiet echo_nd (\<lambda>_. 0)"
  by (simp add: netdb_quiet_def)

lemma echo_dial_tcp [simp]:
  "dial_tcp echo_os echo_nd h p t w = Some (9, emit [EvOpen 9] w)"
  by (simp add: dial_tcp_def echo_nd_def sys_env_def sys_socket_def emit_def)

end
