(* ===== verification/Backend_Pool.thy ===== *)
theory Backend_Pool
  imports Dial
begin

text \<open>
  \<open>src/src/backend_pool.{h,cpp}\<close>: the connection pool to one backend. Everything the
  code does while it holds \<open>mu_\<close> is one function on the pool state (\<open>borrow_locked\<close>,
  \<open>dial_failed_locked\<close>, \<open>release_locked\<close>, \<open>shutdown_locked\<close>, \<open>reaper_locked\<close>,
  \<open>reaper_return_locked\<close>); the operations below are sequences of these sections and of
  the I/O between them. Theory \<open>Pool_Concurrency\<close> interleaves the same sections.
\<close>

section \<open>State\<close>

record pool_options =
  host :: string
  port :: u16
  max_size :: nat
  min_idle :: nat
  idle_timeout :: int
  max_lifetime :: int
  health_check_interval :: int
  connect_timeout :: int
  borrow_timeout :: int
  enable_health_check :: bool

definition default_pool_options :: pool_options where
  "default_pool_options = \<lparr>host = ''127.0.0.1'', port = 0, max_size = 16, min_idle = 2,
     idle_timeout = 60000, max_lifetime = 5 * 60000, health_check_interval = 10000,
     connect_timeout = 2000, borrow_timeout = 2000, enable_health_check = True\<rparr>"

text \<open>The timeouts are milliseconds, time points nanoseconds of the steady clock.\<close>

record slot =
  slot_fd :: fd
  created :: int
  last_used :: int

record pool =
  opts :: pool_options
  has_metrics :: bool
  idle :: "slot list"
  in_use :: nat
  shutting_down :: bool

definition new_pool :: "pool_options \<Rightarrow> bool \<Rightarrow> pool" where
  "new_pool o0 m =
     (let o1 = (if max_size o0 = 0 then o0\<lparr>max_size := 1\<rparr> else o0);
          o2 = (if min_idle o1 > max_size o1 then o1\<lparr>min_idle := max_size o1\<rparr> else o1)
      in \<lparr>opts = o2, has_metrics = m, idle = [], in_use = 0, shutting_down = False\<rparr>)"

definition idle_count :: "pool \<Rightarrow> nat" where "idle_count p = length (idle p)"

definition in_use_count :: "pool \<Rightarrow> nat" where "in_use_count p = in_use p"

section \<open>Critical sections\<close>

text \<open>
  One pass through the body of the loop in \<open>borrow\<close>: refuse, take the oldest idle
  connection, reserve a place and go dialing, or wait on the condition variable.
\<close>

datatype borrow_step = BorrowAborted | BorrowIdle fd | BorrowDial | BorrowWait

definition borrow_locked :: "pool \<Rightarrow> borrow_step \<times> pool" where
  "borrow_locked p =
     (if shutting_down p then (BorrowAborted, p)
      else (case idle p of
        s # rest \<Rightarrow> (BorrowIdle (slot_fd s), p\<lparr>idle := rest, in_use := in_use p + 1\<rparr>)
      | [] \<Rightarrow>
          if in_use p + length (idle p) < max_size (opts p)
            then (BorrowDial, p\<lparr>in_use := in_use p + 1\<rparr>)
          else (BorrowWait, p)))"

definition dial_failed_locked :: "pool \<Rightarrow> pool" where
  "dial_failed_locked p = p\<lparr>in_use := in_use p - 1\<rparr>"

text \<open>
  \<open>release\<close> decides whether to close before it takes the lock; the decision is an
  argument of the section.
\<close>

definition close_it :: "bool \<Rightarrow> pool \<Rightarrow> bool" where
  "close_it ok p \<longleftrightarrow> \<not> ok \<or> shutting_down p"

definition release_locked :: "fd \<Rightarrow> bool \<Rightarrow> int \<Rightarrow> pool \<Rightarrow> pool" where
  "release_locked f close now p =
     (let p1 = (if in_use p > 0 then p\<lparr>in_use := in_use p - 1\<rparr> else p) in
      if close then p1
      else p1\<lparr>idle := idle p1 @ [\<lparr>slot_fd = f, created = now, last_used = now\<rparr>]\<rparr>)"

text \<open>\<open>shutdown\<close> closes the idle descriptors while it holds the lock; they are returned.\<close>

definition shutdown_locked :: "pool \<Rightarrow> fd list \<times> pool" where
  "shutdown_locked p =
     (if shutting_down p then ([], p)
      else (map slot_fd (idle p), p\<lparr>shutting_down := True, idle := []\<rparr>))"

text \<open>One sweep of the reaper: the slots that are too old, and the rest.\<close>

definition expired :: "pool_options \<Rightarrow> int \<Rightarrow> slot \<Rightarrow> bool" where
  "expired o' now s \<longleftrightarrow>
     now - last_used s > idle_timeout o' * ns_per_ms \<or> now - created s > max_lifetime o' * ns_per_ms"

definition reaper_locked :: "int \<Rightarrow> pool \<Rightarrow> slot list \<times> slot list \<times> pool" where
  "reaper_locked now p =
     (let victims = filter (expired (opts p) now) (idle p);
          kept = filter (\<lambda>s. \<not> expired (opts p) now s) (idle p)
      in if enable_health_check (opts p) then (victims, kept, p\<lparr>idle := []\<rparr>)
         else (victims, [], p\<lparr>idle := kept\<rparr>))"

definition reaper_return_locked :: "slot list \<Rightarrow> pool \<Rightarrow> pool" where
  "reaper_return_locked survivors p = p\<lparr>idle := idle p @ survivors\<rparr>"

definition reaper_wait_ms :: "pool_options \<Rightarrow> int" where
  "reaper_wait_ms o' = max 100 (min (health_check_interval o') (idle_timeout o'))"

section \<open>Operations\<close>

text \<open>
  The result of \<open>borrow\<close>: a descriptor, or -1 with \<open>errno\<close> set to \<open>ECONNABORTED\<close>,
  \<open>ETIMEDOUT\<close> or whatever the failed dial left there.
\<close>

datatype borrow_result = Borrowed fd | Aborted | TimedOut | DialFailed

fun borrow_fd :: "borrow_result \<Rightarrow> fd" where
  "borrow_fd (Borrowed f) = f"
| "borrow_fd _ = - 1"

fun borrow_errno :: "borrow_result \<Rightarrow> errno option" where
  "borrow_errno Aborted = Some ECONNABORTED"
| "borrow_errno TimedOut = Some ETIMEDOUT"
| "borrow_errno _ = None"

definition dial_one ::
    "'e os \<Rightarrow> ('a, 'e) netdb \<Rightarrow> pool_options \<Rightarrow> 'e world \<Rightarrow> (fd \<times> 'e world) option" where
  "dial_one os nd o' w = dial_tcp os nd (host o') (port o') (connect_timeout o') w"

definition pool_metric :: "pool \<Rightarrow> metric_op \<Rightarrow> 'e world \<Rightarrow> 'e world" where
  "pool_metric p op w = (if has_metrics p then metric op w else w)"

text \<open>
  While a borrower waits on the condition variable the other threads own the pool: what
  they make of it, and whether the wait ends by timeout, is the parameter \<open>cv\<close>.
\<close>

partial_function (option) borrow_loop ::
    "(int \<Rightarrow> pool \<Rightarrow> 'e \<Rightarrow> bool \<times> pool \<times> 'e) \<Rightarrow> 'e os \<Rightarrow> ('a, 'e) netdb \<Rightarrow> int \<Rightarrow> pool \<Rightarrow>
       'e world \<Rightarrow> (borrow_result \<times> pool \<times> 'e world) option" where
  "borrow_loop cv os nd deadline p w =
     (case borrow_locked p of (st, p1) \<Rightarrow>
        (case st of
           BorrowAborted \<Rightarrow> Some (Aborted, p1, w)
         | BorrowIdle f \<Rightarrow> Some (Borrowed f, p1, pool_metric p Inc_pool_borrow w)
         | BorrowDial \<Rightarrow>
             Option.bind (dial_one os nd (opts p1) w) (\<lambda>(f, w1).
               if f < 0 then Some (DialFailed, dial_failed_locked p1, w1)
               else Some (Borrowed f, p1,
                 pool_metric p Inc_pool_borrow (pool_metric p Inc_pool_create w1)))
         | BorrowWait \<Rightarrow>
             (case cv deadline p1 (env w) of (timeout, p2, e) \<Rightarrow>
                if timeout then Some (TimedOut, p2, w\<lparr>env := e\<rparr>)
                else borrow_loop cv os nd deadline p2 (w\<lparr>env := e\<rparr>))))"

definition borrow ::
    "(int \<Rightarrow> pool \<Rightarrow> 'e \<Rightarrow> bool \<times> pool \<times> 'e) \<Rightarrow> 'e os \<Rightarrow> ('a, 'e) netdb \<Rightarrow> pool \<Rightarrow>
       'e world \<Rightarrow> (borrow_result \<times> pool \<times> 'e world) option" where
  "borrow cv os nd p w =
     (case sys_clock os w of (now, w1) \<Rightarrow>
        borrow_loop cv os nd (now + borrow_timeout (opts p) * ns_per_ms) p w1)"

definition release :: "'e os \<Rightarrow> fd \<Rightarrow> bool \<Rightarrow> pool \<Rightarrow> 'e world \<Rightarrow> (pool \<times> 'e world) option" where
  "release os f ok p w =
     (if f < 0 then Some (p, w)
      else let c = close_it ok p in
        if c then (let p1 = release_locked f c 0 p in do { w1 \<leftarrow> safe_close os f w; Some (p1, w1) })
        else (case sys_clock os w of (now, w1) \<Rightarrow> Some (release_locked f c now p, w1)))"

fun close_all :: "'e os \<Rightarrow> fd list \<Rightarrow> 'e world \<Rightarrow> 'e world option" where
  "close_all os [] w = Some w"
| "close_all os (f # fs) w = do { w1 \<leftarrow> safe_close os f w; close_all os fs w1 }"

definition shutdown :: "'e os \<Rightarrow> pool \<Rightarrow> 'e world \<Rightarrow> (pool \<times> 'e world) option" where
  "shutdown os p w =
     (case shutdown_locked p of (fs, p1) \<Rightarrow> do { w1 \<leftarrow> close_all os fs w; Some (p1, w1) })"

definition close_idle :: "'e os \<Rightarrow> slot list \<Rightarrow> 'e world \<Rightarrow> 'e world option" where
  "close_idle os victims w = close_all os (map slot_fd victims) w"

definition health_ping :: "'e os \<Rightarrow> endian \<Rightarrow> fd \<Rightarrow> 'e world \<Rightarrow> (bool \<times> 'e world) option" where
  "health_ping os e f w =
     do {
       (rc, w1) \<leftarrow> write_message os e f [] 1000 w;
       if rc \<noteq> kOk then Some (False, w1)
       else do {
         (rc2, reply, w2) \<leftarrow> read_message os e f [] kDefaultMaxPayload 1000 w1;
         if rc2 \<noteq> kOk then Some (False, w2) else Some (reply = [], w2)
       }
     }"

text \<open>The health checks of one sweep: survivors, with \<open>last_used\<close> renewed, and dead slots.\<close>

fun ping_all :: "'e os \<Rightarrow> endian \<Rightarrow> slot list \<Rightarrow> 'e world \<Rightarrow> (slot list \<times> slot list \<times> 'e world) option"
    where
  "ping_all os e [] w = Some ([], [], w)"
| "ping_all os e (s # ss) w =
     do {
       (alive, w1) \<leftarrow> health_ping os e (slot_fd s) w;
       if alive then (case sys_clock os w1 of (now, w2) \<Rightarrow> do {
           (survivors, dead, w3) \<leftarrow> ping_all os e ss w2;
           Some (s\<lparr>last_used := now\<rparr> # survivors, dead, w3)
         })
       else do {
         (survivors, dead, w2) \<leftarrow> ping_all os e ss w1;
         Some (survivors, s # dead, w2)
       }
     }"

text \<open>
  One turn of \<open>reaper_main_\<close> after its timed wait; the result tells whether the thread
  goes on. \<open>mid\<close> is what the other threads do to the pool while the reaper does I/O.
\<close>

definition reaper_turn ::
    "'e os \<Rightarrow> endian \<Rightarrow> (pool \<Rightarrow> pool) \<Rightarrow> pool \<Rightarrow> 'e world \<Rightarrow> (bool \<times> pool \<times> 'e world) option" where
  "reaper_turn os e mid p w =
     (if shutting_down p then Some (False, p, w)
      else (case sys_clock os w of (now, w1) \<Rightarrow>
        (case reaper_locked now p of (victims, to_check, p1) \<Rightarrow> do {
           w2 \<leftarrow> close_idle os victims w1;
           if to_check \<noteq> [] then do {
             (survivors, dead, w3) \<leftarrow> ping_all os e to_check w2;
             w4 \<leftarrow> close_idle os dead w3;
             Some (True, reaper_return_locked survivors (mid p1), w4)
           }
           else Some (True, mid p1, w2)
         })))"

section \<open>Well-formed pools\<close>

text \<open>
  What the constructor establishes and every critical section keeps: a positive bound, and
  idle connections that are distinct, valid descriptors.
\<close>

definition idle_fds :: "pool \<Rightarrow> fd list" where "idle_fds p = map slot_fd (idle p)"

definition pool_wf :: "pool \<Rightarrow> bool" where
  "pool_wf p \<longleftrightarrow> 0 < max_size (opts p) \<and> min_idle (opts p) \<le> max_size (opts p) \<and>
     distinct (idle_fds p) \<and> (\<forall>f \<in> set (idle_fds p). 0 \<le> f)"

lemma new_pool_simps [simp]:
  "idle (new_pool o' m) = []" "in_use (new_pool o' m) = 0" "\<not> shutting_down (new_pool o' m)"
  "has_metrics (new_pool o' m) = m" "max_size (opts (new_pool o' m)) = max 1 (max_size o')"
  "enable_health_check (opts (new_pool o' m)) = enable_health_check o'"
  by (simp_all add: new_pool_def Let_def)

lemma new_pool_wf: "pool_wf (new_pool o' m)"
  by (simp add: pool_wf_def new_pool_def Let_def idle_fds_def)

lemma borrow_locked_cases:
  obtains (aborted) "shutting_down p" "borrow_locked p = (BorrowAborted, p)"
  | (idle) s rest where "\<not> shutting_down p" "idle p = s # rest"
      "borrow_locked p = (BorrowIdle (slot_fd s), p\<lparr>idle := rest, in_use := in_use p + 1\<rparr>)"
  | (dial) "\<not> shutting_down p" "idle p = []" "in_use p < max_size (opts p)"
      "borrow_locked p = (BorrowDial, p\<lparr>in_use := in_use p + 1\<rparr>)"
  | (wait) "\<not> shutting_down p" "idle p = []" "max_size (opts p) \<le> in_use p"
      "borrow_locked p = (BorrowWait, p)"
  by (cases "shutting_down p"; cases "idle p"; cases "in_use p < max_size (opts p)")
    (auto simp: borrow_locked_def)

lemma borrow_locked_wf: "pool_wf p \<Longrightarrow> pool_wf (snd (borrow_locked p))"
  by (cases p rule: borrow_locked_cases) (auto simp: pool_wf_def idle_fds_def)

lemma dial_failed_locked_wf: "pool_wf p \<Longrightarrow> pool_wf (dial_failed_locked p)"
  by (simp add: pool_wf_def idle_fds_def dial_failed_locked_def)

lemma idle_fds_release:
  "idle_fds (release_locked f c now p) = idle_fds p @ (if c then [] else [f])"
  by (auto simp: idle_fds_def release_locked_def Let_def)

lemma release_locked_simps [simp]:
  "opts (release_locked f c now p) = opts p" "in_use (release_locked f c now p) = in_use p - 1"
  "shutting_down (release_locked f c now p) = shutting_down p"
  "has_metrics (release_locked f c now p) = has_metrics p"
  by (auto simp: release_locked_def Let_def)

lemma release_locked_wf:
  "pool_wf p \<Longrightarrow> 0 \<le> f \<Longrightarrow> f \<notin> set (idle_fds p) \<Longrightarrow> pool_wf (release_locked f c now p)"
  by (auto simp: pool_wf_def idle_fds_release)

lemma shutdown_locked_wf: "pool_wf p \<Longrightarrow> pool_wf (snd (shutdown_locked p))"
  by (auto simp: pool_wf_def idle_fds_def shutdown_locked_def)

section \<open>The reaper's partition\<close>

lemma reaper_locked_parts:
  assumes "reaper_locked now p = (victims, to_check, p')"
  shows "victims = filter (expired (opts p) now) (idle p)"
    and "idle p' @ to_check = filter (\<lambda>s. \<not> expired (opts p) now s) (idle p)"
    and "mset victims + mset to_check + mset (idle p') = mset (idle p)"
    and "in_use p' = in_use p" and "opts p' = opts p" and "shutting_down p' = shutting_down p"
    and "enable_health_check (opts p) \<Longrightarrow> idle p' = []"
    and "\<not> enable_health_check (opts p) \<Longrightarrow> to_check = []"
    and "has_metrics p' = has_metrics p"
  using assms by (auto simp: reaper_locked_def Let_def split: if_splits)

section \<open>Sequences of closes\<close>

lemma close_all_did: "close_all os fs w = Some w' \<Longrightarrow> did w (map EvClose (filter (\<lambda>f. 0 \<le> f) fs)) w'"
proof (induction fs arbitrary: w)
  case Nil
  then show ?case by simp
next
  case (Cons f fs)
  then obtain w1 where w1: "safe_close os f w = Some w1" "close_all os fs w1 = Some w'"
    by (auto elim!: bind_SomeE)
  from did_trans [OF safe_close_did [OF w1(1)] Cons.IH [OF w1(2)]] show ?case
    by (cases "f < 0") simp_all
qed

lemma close_all_returns:
  assumes "finite_interrupts os budget"
  shows "returns budget w (close_all os fs w) id"
proof (induction fs arbitrary: w)
  case Nil
  then show ?case by (simp add: returns_Some)
next
  case (Cons f fs)
  then show ?case by (auto intro: close_then_returns [OF assms])
qed

lemma close_events_projections [trace_simps]:
  "metric_ops (map EvClose fs) = []" "received f (map EvClose fs) = []"
  "sent f (map EvClose fs) = []" "tls_read f (map EvClose fs) = []"
  "tls_written f (map EvClose fs) = []" "closes (map EvClose fs) = fs"
  "opens (map EvClose fs) = []"
  by (induction fs; simp add: trace_simps)+

section \<open>What borrow and release do\<close>

text \<open>
  The history of a \<open>borrow\<close>, by its result: sockets of failed addresses opened and closed,
  then the returned one if it was dialed, then the counters if the pool has them.
\<close>

definition borrow_events :: "bool \<Rightarrow> borrow_result \<Rightarrow> event list \<Rightarrow> bool" where
  "borrow_events m res evs \<longleftrightarrow>
     (case res of
        Borrowed f \<Rightarrow>
          evs = (if m then [EvMetric Inc_pool_borrow] else []) \<or>
          (\<exists>fs. evs = opened_closed fs @ [EvOpen f] @
             (if m then [EvMetric Inc_pool_create, EvMetric Inc_pool_borrow] else []) \<and> 0 \<le> f)
      | DialFailed \<Rightarrow> \<exists>fs. evs = opened_closed fs
      | _ \<Rightarrow> evs = [])"

lemmas borrow_loop_induct = borrow_loop.raw_induct [rotated, consumes 1, case_names step]

lemma did_metric_after: "did w evs v \<Longrightarrow> did w (evs @ [EvMetric op]) (metric op v)"
  by (erule did_trans) (rule did_metric)

lemma did_pool_metric:
  "did w evs v \<Longrightarrow> did w (evs @ (if has_metrics p then [EvMetric op] else [])) (pool_metric p op v)"
  by (simp add: pool_metric_def did_metric_after)

lemma dial_one_events:
  assumes "dial_one os nd o' w = Some (f, w1)"
  shows "f < 0 \<Longrightarrow> \<exists>fs. did w (opened_closed fs) w1"
    and "\<not> f < 0 \<Longrightarrow> \<exists>fs. did w (opened_closed fs @ [EvOpen f]) w1"
  using dial_tcp_one_fd [OF assms [unfolded dial_one_def]] by (auto simp: one_fd_def)

lemma borrow_loop_events:
  "borrow_loop cv os nd dl p w = Some r \<Longrightarrow>
     \<exists>m evs. did w evs (snd (snd r)) \<and> borrow_events m (fst r) evs"
proof (induction rule: borrow_loop_induct)
  case (step g cv os nd dl p w r)
  show ?case
  proof (cases p rule: borrow_locked_cases)
    case aborted
    with step.hyps have "r = (Aborted, p, w)" by simp
    then show ?thesis by (auto simp: borrow_events_def)
  next
    case (idle s rest)
    with step.hyps have r: "fst r = Borrowed (slot_fd s)"
      "snd (snd r) = pool_metric p Inc_pool_borrow w" by auto
    have "borrow_events (has_metrics p) (fst r)
        ([] @ (if has_metrics p then [EvMetric Inc_pool_borrow] else []))"
      by (simp add: borrow_events_def r)
    with did_pool_metric [OF did_refl, of w p Inc_pool_borrow] show ?thesis
      unfolding r(2) by blast
  next
    case dial
    with step.hyps obtain f w1 where d: "dial_one os nd (opts p) w = Some (f, w1)"
      by (auto elim!: bind_SomeE)
    show ?thesis
    proof (cases "f < 0")
      case True
      with dial step.hyps d have r: "fst r = DialFailed" "snd (snd r) = w1" by auto
      from dial_one_events(1) [OF d True] obtain fs where "did w (opened_closed fs) w1" by blast
      moreover have "borrow_events False (fst r) (opened_closed fs)"
        by (auto simp: borrow_events_def r)
      ultimately show ?thesis unfolding r(2) by blast
    next
      case False
      from dial_one_events(2) [OF d this]
      obtain fs where fs: "did w (opened_closed fs @ [EvOpen f]) w1" by blast
      from False dial step.hyps d have r: "fst r = Borrowed f" "snd (snd r) =
          pool_metric p Inc_pool_borrow (pool_metric p Inc_pool_create w1)" by auto
      have "borrow_events (has_metrics p) (fst r) (((opened_closed fs @ [EvOpen f]) @
          (if has_metrics p then [EvMetric Inc_pool_create] else [])) @
          (if has_metrics p then [EvMetric Inc_pool_borrow] else []))"
        using False by (auto simp: borrow_events_def r)
      with did_pool_metric [OF did_pool_metric [OF fs, of p Inc_pool_create], of p Inc_pool_borrow]
      show ?thesis unfolding r(2) by blast
    qed
  next
    case wait
    obtain tm p2 e where cv: "cv dl p (env w) = (tm, p2, e)" by (metis prod_cases3)
    show ?thesis
    proof (cases tm)
      case True
      with wait step.hyps cv have r: "r = (TimedOut, p2, w\<lparr>env := e\<rparr>)" by simp
      have "did w [] (w\<lparr>env := e\<rparr>)" by simp
      then show ?thesis by (auto simp: r borrow_events_def)
    next
      case False
      with wait step.hyps cv have "g cv os nd dl p2 (w\<lparr>env := e\<rparr>) = Some r" by simp
      from step.IH [OF this] show ?thesis by (simp add: did_def)
    qed
  qed
qed

lemma borrow_events_did:
  assumes "borrow cv os nd p w = Some (res, p', w')"
  obtains m evs where "did w evs w'" and "borrow_events m res evs"
proof -
  obtain now w1 where c: "sys_clock os w = (now, w1)" by fastforce
  with assms have "borrow_loop cv os nd (now + borrow_timeout (opts p) * ns_per_ms) p w1
      = Some (res, p', w')" by (simp add: borrow_def)
  from borrow_loop_events [OF this] obtain m evs where "did w1 evs w'" "borrow_events m res evs"
    by auto
  with did_silent [OF did_clock [OF c]] that show ?thesis by blast
qed

lemma borrow_events_forms:
  assumes "borrow_events m res evs"
  obtains ms where "evs = map EvMetric ms" and "set ms \<subseteq> {Inc_pool_borrow, Inc_pool_create}"
  | fs where "evs = opened_closed fs"
  | fs f ms where "evs = opened_closed fs @ [EvOpen f] @ map EvMetric ms" and "res = Borrowed f"
      and "set ms \<subseteq> {Inc_pool_borrow, Inc_pool_create}"
proof (cases res)
  case (Borrowed f)
  with assms consider "evs = (if m then [EvMetric Inc_pool_borrow] else [])"
    | fs where "evs = opened_closed fs @ [EvOpen f] @
        (if m then [EvMetric Inc_pool_create, EvMetric Inc_pool_borrow] else [])"
    by (auto simp: borrow_events_def)
  then show ?thesis
  proof cases
    case 1
    then show ?thesis by (intro that(1) [of "if m then [Inc_pool_borrow] else []"]) auto
  next
    case 2
    with Borrowed show ?thesis
      by (intro that(3) [of fs f "if m then [Inc_pool_create, Inc_pool_borrow] else []"]) auto
  qed
qed (use assms that(1) [of "[]"] that(2) in \<open>auto simp: borrow_events_def\<close>)

lemma map_EvMetric_projections [trace_simps]:
  "received f (map EvMetric ms) = []" "sent f (map EvMetric ms) = []"
  "tls_read f (map EvMetric ms) = []" "tls_written f (map EvMetric ms) = []"
  "closes (map EvMetric ms) = []" "opens (map EvMetric ms) = []" "metric_ops (map EvMetric ms) = ms"
  by (induction ms; simp add: trace_simps)+

lemma borrow_events_quiet:
  assumes "borrow_events m res evs"
  shows "received f evs = []" "sent f evs = []" "tls_read f evs = []" "tls_written f evs = []"
    and "set (metric_ops evs) \<subseteq> {Inc_pool_borrow, Inc_pool_create}"
  by (rule borrow_events_forms [OF assms]; simp add: trace_simps)+

text \<open>
  \<open>alone cv\<close>: nobody else touches the pool while the borrower waits. Then the state after a
  borrow is determined by the state before it.
\<close>

definition alone :: "(int \<Rightarrow> pool \<Rightarrow> 'e \<Rightarrow> bool \<times> pool \<times> 'e) \<Rightarrow> bool" where
  "alone cv \<longleftrightarrow> (\<forall>dl p e. fst (snd (cv dl p e)) = p)"

definition borrow_effect :: "pool \<Rightarrow> borrow_result \<Rightarrow> pool \<Rightarrow> bool" where
  "borrow_effect p res p' \<longleftrightarrow>
     (case res of
        Borrowed f \<Rightarrow> \<not> shutting_down p \<and>
          ((\<exists>s rest. idle p = s # rest \<and> f = slot_fd s \<and>
              p' = p\<lparr>idle := rest, in_use := in_use p + 1\<rparr>) \<or>
           (idle p = [] \<and> in_use p < max_size (opts p) \<and> 0 \<le> f \<and>
              p' = p\<lparr>in_use := in_use p + 1\<rparr>))
      | Aborted \<Rightarrow> shutting_down p \<and> p' = p
      | TimedOut \<Rightarrow> idle p = [] \<and> max_size (opts p) \<le> in_use p \<and> p' = p
      | DialFailed \<Rightarrow> idle p = [] \<and> in_use p < max_size (opts p) \<and> p' = p)"

lemma borrow_loop_effect:
  "borrow_loop cv os nd dl p w = Some r \<Longrightarrow> alone cv \<Longrightarrow> borrow_effect p (fst r) (fst (snd r))"
proof (induction rule: borrow_loop_induct)
  case (step g cv os nd dl p w r)
  show ?case
  proof (cases p rule: borrow_locked_cases)
    case aborted
    with step.hyps have "r = (Aborted, p, w)" by simp
    with aborted show ?thesis by (simp add: borrow_effect_def)
  next
    case (idle s rest)
    with step.hyps have "fst r = Borrowed (slot_fd s)"
      "fst (snd r) = p\<lparr>idle := rest, in_use := in_use p + 1\<rparr>" by auto
    with idle show ?thesis by (simp add: borrow_effect_def)
  next
    case dial
    with step.hyps obtain f w1 where d: "dial_one os nd (opts p) w = Some (f, w1)"
      by (auto elim!: bind_SomeE)
    show ?thesis
    proof (cases "f < 0")
      case True
      with dial step.hyps d have "r = (DialFailed, dial_failed_locked (p\<lparr>in_use := in_use p + 1\<rparr>), w1)"
        by simp
      with dial show ?thesis by (simp add: borrow_effect_def dial_failed_locked_def)
    next
      case False
      with dial step.hyps d have "fst r = Borrowed f" "fst (snd r) = p\<lparr>in_use := in_use p + 1\<rparr>"
        by auto
      with False dial show ?thesis by (simp add: borrow_effect_def)
    qed
  next
    case wait
    obtain tm p2 e where cv: "cv dl p (env w) = (tm, p2, e)" by (metis prod_cases3)
    from step.prems have "fst (snd (cv dl p (env w))) = p" by (simp add: alone_def)
    with cv have p2: "p2 = p" by simp
    show ?thesis
    proof (cases tm)
      case True
      with wait step.hyps cv p2 have "r = (TimedOut, p, w\<lparr>env := e\<rparr>)" by simp
      with wait show ?thesis by (simp add: borrow_effect_def)
    next
      case False
      with wait step.hyps cv p2 have "g cv os nd dl p (w\<lparr>env := e\<rparr>) = Some r" by simp
      from step.IH [OF this step.prems] show ?thesis .
    qed
  qed
qed

lemma borrow_effect:
  "borrow cv os nd p w = Some (res, p', w') \<Longrightarrow> alone cv \<Longrightarrow> borrow_effect p res p'"
  by (auto simp: borrow_def split: prod.splits dest!: borrow_loop_effect)

lemma release_effect:
  assumes "release os f ok p w = Some (p', w')" and "0 \<le> f"
  obtains now where "p' = release_locked f (close_it ok p) now p"
    and "did w (if close_it ok p then [EvClose f] else []) w'"
proof (cases "close_it ok p")
  case True
  with assms obtain w1 where "safe_close os f w = Some w1" "p' = release_locked f True 0 p" "w' = w1"
    by (auto simp: release_def Let_def elim!: bind_SomeE)
  with True assms(2) that [of 0] safe_close_did show ?thesis by fastforce
next
  case False
  obtain now w1 where "sys_clock os w = (now, w1)" by fastforce
  with False assms that [of now] show ?thesis by (auto simp: release_def Let_def dest: did_clock)
qed

lemma release_invalid: "f < 0 \<Longrightarrow> release os f ok p w = Some (p, w)"
  by (simp add: release_def)

section \<open>Connections are conserved\<close>

text \<open>
  Every descriptor a borrow finds or opens is, afterwards, idle, closed or in the hands of
  the borrower; a release puts it back or closes it.
\<close>

fun handed_out :: "borrow_result \<Rightarrow> fd multiset" where
  "handed_out (Borrowed f) = {#f#}"
| "handed_out _ = {#}"

lemma borrow_loop_conserves:
  "borrow_loop cv os nd dl p w = Some r \<Longrightarrow> alone cv \<Longrightarrow>
     \<exists>evs. did w evs (snd (snd r)) \<and>
       mset (idle_fds p) + mset (opens evs) =
         mset (idle_fds (fst (snd r))) + mset (closes evs) + handed_out (fst r)"
proof (induction rule: borrow_loop_induct)
  case (step g cv os nd dl p w r)
  show ?case
  proof (cases p rule: borrow_locked_cases)
    case aborted
    with step.hyps have r: "r = (Aborted, p, w)" by simp
    show ?thesis by (auto simp: r trace_simps intro!: exI [of _ "[]"])
  next
    case (idle s rest)
    with step.hyps have r: "fst r = Borrowed (slot_fd s)" "snd (snd r) = pool_metric p Inc_pool_borrow w"
      "fst (snd r) = p\<lparr>idle := rest, in_use := in_use p + 1\<rparr>" by auto
    show ?thesis
      unfolding r
      by (intro exI conjI, rule did_pool_metric [OF did_refl])
        (use idle in \<open>simp_all add: idle_fds_def trace_simps\<close>)
  next
    case dial
    with step.hyps obtain f w1 where d: "dial_one os nd (opts p) w = Some (f, w1)"
      by (auto elim!: bind_SomeE)
    show ?thesis
    proof (cases "f < 0")
      case True
      with dial step.hyps d have r: "fst r = DialFailed" "snd (snd r) = w1"
        "fst (snd r) = dial_failed_locked (p\<lparr>in_use := in_use p + 1\<rparr>)" by auto
      from dial_one_events(1) [OF d True] dial show ?thesis
        unfolding r by (auto simp: dial_failed_locked_def idle_fds_def trace_simps)
    next
      case False
      with dial step.hyps d have r: "fst r = Borrowed f" "fst (snd r) = p\<lparr>in_use := in_use p + 1\<rparr>"
        "snd (snd r) = pool_metric p Inc_pool_borrow (pool_metric p Inc_pool_create w1)" by auto
      from dial_one_events(2) [OF d False]
      obtain fs where fs: "did w (opened_closed fs @ [EvOpen f]) w1" by blast
      show ?thesis
        unfolding r
        by (intro exI conjI, rule did_pool_metric [OF did_pool_metric [OF fs]])
          (use dial in \<open>simp_all add: idle_fds_def trace_simps\<close>)
    qed
  next
    case wait
    obtain tm p2 e where cv: "cv dl p (env w) = (tm, p2, e)" by (metis prod_cases3)
    from step.prems have "fst (snd (cv dl p (env w))) = p" by (simp add: alone_def)
    with cv have p2: "p2 = p" by simp
    show ?thesis
    proof (cases tm)
      case True
      with wait step.hyps cv p2 have r: "r = (TimedOut, p, w\<lparr>env := e\<rparr>)" by simp
      show ?thesis by (auto simp: r trace_simps intro!: exI [of _ "[]"])
    next
      case False
      with wait step.hyps cv p2 have "g cv os nd dl p (w\<lparr>env := e\<rparr>) = Some r" by simp
      from step.IH [OF this step.prems] show ?thesis by (simp add: did_def)
    qed
  qed
qed

lemma borrow_conserves:
  assumes "borrow cv os nd p w = Some (res, p', w')" and "alone cv"
  obtains evs where "did w evs w'"
    and "mset (idle_fds p) + mset (opens evs) =
      mset (idle_fds p') + mset (closes evs) + handed_out res"
proof -
  obtain now w1 where c: "sys_clock os w = (now, w1)" by fastforce
  with assms(1) have "borrow_loop cv os nd (now + borrow_timeout (opts p) * ns_per_ms) p w1
      = Some (res, p', w')" by (simp add: borrow_def)
  from borrow_loop_conserves [OF this assms(2)] obtain evs where "did w1 evs w'"
    "mset (idle_fds p) + mset (opens evs) =
      mset (idle_fds p') + mset (closes evs) + handed_out res" by auto
  with did_silent [OF did_clock [OF c]] that show ?thesis by blast
qed

lemma release_conserves:
  assumes "release os f ok p w = Some (p', w')" and "0 \<le> f"
  shows "\<exists>evs. did w evs w' \<and> opens evs = [] \<and>
    mset (idle_fds p) + {#f#} = mset (idle_fds p') + mset (closes evs)"
  by (rule release_effect [OF assms]) (auto simp: idle_fds_release trace_simps split: if_splits)

section \<open>Shutdown\<close>

lemma shutdown_effect:
  assumes "shutdown os p w = Some (p', w')" and "pool_wf p" and "\<not> shutting_down p"
  shows "p' = p\<lparr>shutting_down := True, idle := []\<rparr>"
    and "did w (map EvClose (idle_fds p)) w'"
proof -
  from assms obtain w1 where "close_all os (idle_fds p) w = Some w1" "w' = w1"
    and p': "p' = p\<lparr>shutting_down := True, idle := []\<rparr>"
    by (auto simp: shutdown_def shutdown_locked_def idle_fds_def elim!: bind_SomeE)
  then have "did w (map EvClose (filter (\<lambda>f. 0 \<le> f) (idle_fds p))) w'" by (auto dest: close_all_did)
  moreover have "filter (\<lambda>f. 0 \<le> f) (idle_fds p) = idle_fds p"
    using assms(2) by (simp add: pool_wf_def)
  ultimately show "did w (map EvClose (idle_fds p)) w'" by simp
  show "p' = p\<lparr>shutting_down := True, idle := []\<rparr>" by (rule p')
qed

lemma shutdown_again: "shutting_down p \<Longrightarrow> shutdown os p w = Some (p, w)"
  by (simp add: shutdown_def shutdown_locked_def)

lemma borrow_after_shutdown:
  "shutting_down p \<Longrightarrow> borrow cv os nd p w = Some (Aborted, p, snd (sys_clock os w))"
  by (simp add: borrow_def borrow_loop.simps [of cv] borrow_locked_def split: prod.splits)

section \<open>The operations return\<close>

text \<open>
  \<open>cv_live\<close>: a borrower is woken only finitely often before its deadline passes.
\<close>

definition cv_live :: "(int \<Rightarrow> pool \<Rightarrow> 'e \<Rightarrow> bool \<times> pool \<times> 'e) \<Rightarrow> ('e \<Rightarrow> nat) \<Rightarrow> bool" where
  "cv_live cv budget \<longleftrightarrow> (\<forall>dl p e. case cv dl p e of (timeout, p', e') \<Rightarrow>
     budget e' + (if timeout then 0 else 1) \<le> budget e)"

lemma cv_liveD:
  "cv_live cv budget \<Longrightarrow> cv dl p e = (timeout, p', e') \<Longrightarrow>
     budget e' + (if timeout then 0 else 1) \<le> budget e"
  unfolding cv_live_def by (metis (no_types, lifting) case_prod_conv)

lemma env_pool_metric [simp]: "env (pool_metric p op w) = env w"
  by (simp add: pool_metric_def world_simps)

lemma borrow_loop_returns:
  assumes fin: "finite_interrupts os budget" and nq: "netdb_quiet nd budget" and cv: "cv_live cv budget"
  shows "returns budget w (borrow_loop cv os nd dl p w) (\<lambda>r. snd (snd r))"
proof (induction "budget (env w)" arbitrary: p w rule: less_induct)
  case less
  show ?case
  proof (cases p rule: borrow_locked_cases)
    case aborted
    then show ?thesis by (simp add: borrow_loop.simps [of cv] returns_Some)
  next
    case (idle s rest)
    then show ?thesis by (simp add: borrow_loop.simps [of cv] returns_Some)
  next
    case dial
    have "returns budget w (dial_one os nd (opts p) w) snd"
      unfolding dial_one_def by (rule dial_tcp_returns [OF fin nq])
    then obtain f w1 where "dial_one os nd (opts p) w = Some (f, w1)" "budget (env w1) \<le> budget (env w)"
      by (auto elim: returnsE)
    with dial show ?thesis by (simp add: borrow_loop.simps [of cv] returns_Some)
  next
    case wait
    obtain tm p2 e where c: "cv dl p (env w) = (tm, p2, e)" by (metis prod_cases3)
    note b = cv_liveD [OF cv c]
    show ?thesis
    proof (cases tm)
      case True
      with wait c b show ?thesis by (simp add: borrow_loop.simps [of cv] returns_Some)
    next
      case False
      with b have "returns budget (w\<lparr>env := e\<rparr>) (borrow_loop cv os nd dl p2 (w\<lparr>env := e\<rparr>))
          (\<lambda>r. snd (snd r))"
        by (intro less) simp
      from returns_le [OF this, of w] False wait c b show ?thesis
        by (simp add: borrow_loop.simps [of cv _ _ _ p])
    qed
  qed
qed

lemma borrow_returns:
  assumes "finite_interrupts os budget" and "netdb_quiet nd budget" and "cv_live cv budget"
  shows "returns budget w (borrow cv os nd p w) (\<lambda>r. snd (snd r))"
proof -
  obtain now w1 where c: "sys_clock os w = (now, w1)" by fastforce
  show ?thesis
    using returns_le [OF borrow_loop_returns [OF assms] finite_interruptsD(1) [OF assms(1) c]]
    by (simp add: borrow_def c)
qed

lemma release_returns:
  assumes "finite_interrupts os budget"
  shows "returns budget w (release os f ok p w) snd"
proof -
  obtain now w1 where c: "sys_clock os w = (now, w1)" by fastforce
  show ?thesis
    using finite_interruptsD(1) [OF assms c]
    by (auto simp: release_def Let_def c intro!: returns_Some close_then_returns [OF assms])
qed

lemma shutdown_returns:
  assumes "finite_interrupts os budget"
  shows "returns budget w (shutdown os p w) snd"
  unfolding shutdown_def
  by (cases "shutdown_locked p")
    (auto intro!: returns_bind [OF close_all_returns [OF assms]] returns_Some)

end
