(* ===== verification/Pool_Concurrency.thy ===== *)
theory Pool_Concurrency
  imports Backend_Pool
begin

text \<open>
  The connection pool under concurrency. The state is the pool together with what the
  threads are in the middle of: borrowers that dial, connections handed out, calls of
  \<open>release\<close> between reading \<open>shutting_down_\<close> and taking the lock, descriptors about to be
  closed outside the lock, the reaper's batch. Every critical section of \<open>Backend_Pool\<close> is
  one step, so a run is an interleaving of any number of callers and the reaper. The set of
  open descriptors is the kernel's.
\<close>

section \<open>The machine\<close>

record pool_state =
  pl :: pool
  dialing :: nat
  held :: "fd multiset"
  releasing :: "(fd \<times> bool) multiset"
  closing :: "fd multiset"
  pinging :: "slot list"
  open_fds :: "fd set"

datatype pool_action =
    Borrow | DialOk fd | DialFail | Release fd bool | ReleaseLocked fd bool int | CloseFd fd
  | PoolShutdown | ReaperTake int | PingDead slot | PingAlive slot int | ReaperReturn

definition pool_init :: "pool_options \<Rightarrow> bool \<Rightarrow> pool_state" where
  "pool_init o' m = \<lparr>pl = new_pool o' m, dialing = 0, held = {#}, releasing = {#}, closing = {#},
     pinging = [], open_fds = {}\<rparr>"

text \<open>
  The borrowing pass, by its outcome. An aborted or waiting borrower changes nothing.
\<close>

definition after_borrow :: "pool_state \<Rightarrow> pool_state" where
  "after_borrow s =
     (case borrow_locked (pl s) of (st, p) \<Rightarrow>
        (case st of
           BorrowIdle f \<Rightarrow> s\<lparr>pl := p, held := add_mset f (held s)\<rparr>
         | BorrowDial \<Rightarrow> s\<lparr>pl := p, dialing := dialing s + 1\<rparr>
         | _ \<Rightarrow> s))"

inductive pool_step :: "pool_state \<Rightarrow> pool_action \<Rightarrow> pool_state \<Rightarrow> bool" where
  borrow: "pool_step s Borrow (after_borrow s)"
| dial_ok: "0 < dialing s \<Longrightarrow> 0 \<le> f \<Longrightarrow> f \<notin> open_fds s \<Longrightarrow>
    pool_step s (DialOk f) (s\<lparr>dialing := dialing s - 1, held := add_mset f (held s),
      open_fds := insert f (open_fds s)\<rparr>)"
| dial_fail: "0 < dialing s \<Longrightarrow>
    pool_step s DialFail (s\<lparr>pl := dial_failed_locked (pl s), dialing := dialing s - 1\<rparr>)"
| release: "f \<in># held s \<Longrightarrow>
    pool_step s (Release f ok) (s\<lparr>held := held s - {#f#},
      releasing := add_mset (f, close_it ok (pl s)) (releasing s)\<rparr>)"
| release_locked: "(f, c) \<in># releasing s \<Longrightarrow>
    pool_step s (ReleaseLocked f c now) (s\<lparr>pl := release_locked f c now (pl s),
      releasing := releasing s - {#(f, c)#},
      closing := (if c then add_mset f (closing s) else closing s)\<rparr>)"
| close_fd: "f \<in># closing s \<Longrightarrow>
    pool_step s (CloseFd f) (s\<lparr>closing := closing s - {#f#}, open_fds := open_fds s - {f}\<rparr>)"
| pool_shutdown: "shutdown_locked (pl s) = (fs, p) \<Longrightarrow>
    pool_step s PoolShutdown (s\<lparr>pl := p, open_fds := open_fds s - set fs\<rparr>)"
| reaper_take: "\<not> shutting_down (pl s) \<Longrightarrow> pinging s = [] \<Longrightarrow>
    reaper_locked now (pl s) = (victims, to_check, p) \<Longrightarrow>
    pool_step s (ReaperTake now) (s\<lparr>pl := p, pinging := to_check,
      closing := closing s + mset (map slot_fd victims)\<rparr>)"
| ping_dead: "pinging s = xs @ x # ys \<Longrightarrow>
    pool_step s (PingDead x) (s\<lparr>pinging := xs @ ys, closing := add_mset (slot_fd x) (closing s)\<rparr>)"
| ping_alive: "pinging s = xs @ x # ys \<Longrightarrow>
    pool_step s (PingAlive x now) (s\<lparr>pinging := xs @ x\<lparr>last_used := now\<rparr> # ys\<rparr>)"
| reaper_return: "pinging s \<noteq> [] \<Longrightarrow>
    pool_step s ReaperReturn (s\<lparr>pl := reaper_return_locked (pinging s) (pl s), pinging := []\<rparr>)"

inductive_cases pool_stepE: "pool_step s a t"

section \<open>Ownership\<close>

text \<open>
  The descriptors somebody is responsible for, with multiplicity. \<open>owned_ok\<close>: these are
  exactly the open descriptors, each once, and \<open>in_use_\<close> counts the borrowers.
\<close>

definition owned :: "pool_state \<Rightarrow> fd multiset" where
  "owned s = mset (idle_fds (pl s)) + held s + image_mset fst (releasing s) + closing s +
     mset (map slot_fd (pinging s))"

definition owned_ok :: "pool_state \<Rightarrow> bool" where
  "owned_ok s \<longleftrightarrow> finite (open_fds s) \<and> owned s = mset_set (open_fds s) \<and>
     in_use (pl s) = dialing s + size (held s) + size (releasing s)"

lemma owned_init [simp]: "owned_ok (pool_init o' m)"
  by (simp add: owned_ok_def owned_def pool_init_def new_pool_def Let_def idle_fds_def)

lemma after_borrow_cases:
  obtains "after_borrow s = s"
  | x rest where "idle (pl s) = x # rest" "\<not> shutting_down (pl s)"
      "after_borrow s = s\<lparr>pl := (pl s)\<lparr>idle := rest, in_use := in_use (pl s) + 1\<rparr>,
         held := add_mset (slot_fd x) (held s)\<rparr>"
  | "idle (pl s) = []" "in_use (pl s) < max_size (opts (pl s))" "\<not> shutting_down (pl s)"
      "after_borrow s = s\<lparr>pl := (pl s)\<lparr>in_use := in_use (pl s) + 1\<rparr>, dialing := dialing s + 1\<rparr>"
  by (cases "pl s" rule: borrow_locked_cases) (auto simp: after_borrow_def)

text \<open>A descriptor with an owner is open, and taking it from its only owner closes it.\<close>

lemma owned_open: "owned_ok s \<Longrightarrow> f \<in># owned s \<Longrightarrow> f \<in> open_fds s"
  by (simp add: owned_ok_def)

lemma mset_set_diff_one: "finite A \<Longrightarrow> add_mset x M = mset_set A \<Longrightarrow> M = mset_set (A - {x})"
proof -
  assume *: "finite A" "add_mset x M = mset_set A"
  then have "x \<in># mset_set A" by (metis union_single_eq_member)
  with * have "mset_set A = add_mset x (mset_set (A - {x}))" by (simp add: mset_set.remove)
  with * show ?thesis by simp
qed

lemma mset_set_diff_list:
  "finite A \<Longrightarrow> M + mset xs = mset_set A \<Longrightarrow> M = mset_set (A - set xs)"
proof (induction xs arbitrary: A)
  case (Cons x xs)
  from Cons.prems have "M + mset xs = mset_set (A - {x})" by (intro mset_set_diff_one) simp_all
  from Cons.IH [OF _ this] Cons.prems(1) show ?case by (simp add: Diff_insert2 [symmetric])
qed simp

lemma owned_ok_step: "owned_ok s \<Longrightarrow> pool_step s a t \<Longrightarrow> owned_ok t"
proof (erule pool_stepE, goal_cases)
  case 1
  then show ?case
    by (cases s rule: after_borrow_cases) (simp_all add: owned_ok_def owned_def idle_fds_def)
next
  case (2 f)
  then show ?case by (simp add: owned_ok_def owned_def)
next
  case 3
  then show ?case by (simp add: owned_ok_def owned_def dial_failed_locked_def idle_fds_def)
next
  case (4 f ok)
  then show ?case by (auto simp: owned_ok_def owned_def dest!: multi_member_split)
next
  case (5 f c now)
  then show ?case by (auto simp: owned_ok_def owned_def idle_fds_release dest!: multi_member_split)
next
  case (6 f)
  then obtain M where "closing s = add_mset f M" by (auto dest!: multi_member_split)
  with 6 show ?case
    by (auto simp: owned_ok_def owned_def intro!: mset_set_diff_one)
next
  case (7 fs p)
  show ?case
  proof (cases "shutting_down (pl s)")
    case True
    with 7 show ?thesis by (simp add: owned_ok_def owned_def shutdown_locked_def)
  next
    case False
    with 7 have fs: "fs = idle_fds (pl s)" and p: "p = (pl s)\<lparr>shutting_down := True, idle := []\<rparr>"
      by (auto simp: shutdown_locked_def idle_fds_def)
    have "owned t + mset fs = mset_set (open_fds s)"
      using 7 by (simp add: owned_ok_def owned_def fs p ac_simps idle_fds_def)
    with mset_set_diff_list [of "open_fds s" "owned t" fs] 7 show ?thesis
      by (simp add: owned_ok_def p)
  qed
next
  case (8 now victims to_check p)
  note parts = reaper_locked_parts [OF 8(6)]
  have "mset (idle_fds (pl s)) =
      mset (map slot_fd victims) + mset (map slot_fd to_check) + mset (idle_fds p)"
    using arg_cong [OF parts(3), of "image_mset slot_fd"] by (simp add: idle_fds_def)
  then have "owned t = owned s" using 8 by (simp add: owned_def ac_simps)
  with 8 parts(4) show ?case by (simp add: owned_ok_def)
next
  case (9 xs x ys)
  then show ?case by (simp add: owned_ok_def owned_def)
next
  case (10 xs x ys now)
  then show ?case by (simp add: owned_ok_def owned_def)
next
  case 11
  then show ?case
    by (simp add: owned_ok_def owned_def reaper_return_locked_def idle_fds_def ac_simps)
qed

interpretation owned_inv: machine_invariant pool_step owned_ok
  by unfold_locales (rule owned_ok_step)

lemma card_open:
  assumes "owned_ok s"
  shows "card (open_fds s) + dialing s =
    in_use (pl s) + idle_count (pl s) + size (closing s) + length (pinging s)"
proof -
  have "size (owned s) = card (open_fds s)" using assms by (simp add: owned_ok_def)
  moreover have "size (owned s) = idle_count (pl s) + size (held s) + size (releasing s) +
      size (closing s) + length (pinging s)"
    by (simp add: owned_def idle_fds_def idle_count_def)
  ultimately show ?thesis using assms by (simp add: owned_ok_def)
qed

section \<open>The bound on connections\<close>

definition bounded_ok :: "pool_options \<Rightarrow> pool_state \<Rightarrow> bool" where
  "bounded_ok o' s \<longleftrightarrow> owned_ok s \<and> opts (pl s) = o' \<and> \<not> enable_health_check o' \<and> pinging s = [] \<and>
     in_use (pl s) + length (idle (pl s)) \<le> max_size o'"

lemma bounded_ok_step: "bounded_ok o' s \<Longrightarrow> pool_step s a t \<Longrightarrow> bounded_ok o' t"
proof -
  assume b: "bounded_ok o' s" and st: "pool_step s a t"
  then have "owned_ok t" by (auto simp: bounded_ok_def dest: owned_ok_step)
  from st show ?thesis
  proof cases
    case borrow
    show ?thesis
      by (cases s rule: after_borrow_cases) (use borrow b \<open>owned_ok t\<close> in \<open>simp_all add: bounded_ok_def\<close>)
  next
    case (release_locked f c now)
    then have "0 < in_use (pl s)"
      using b by (auto simp: bounded_ok_def owned_ok_def dest!: multi_member_split)
    with release_locked b \<open>owned_ok t\<close> show ?thesis
      by (auto simp: bounded_ok_def release_locked_def Let_def)
  next
    case (pool_shutdown fs p)
    with b \<open>owned_ok t\<close> show ?thesis
      by (auto simp: bounded_ok_def shutdown_locked_def split: if_splits)
  next
    case (reaper_take now victims to_check p)
    note parts = reaper_locked_parts [OF reaper_take(5)]
    have "length (idle p) \<le> length (idle (pl s))"
      using arg_cong [OF parts(3), of size] by simp
    with reaper_take b \<open>owned_ok t\<close> parts(4,5,8) show ?thesis by (simp add: bounded_ok_def)
  qed (use b \<open>owned_ok t\<close> in \<open>auto simp: bounded_ok_def dial_failed_locked_def\<close>)
qed

interpretation bounded_inv: machine_invariant pool_step "bounded_ok o'" for o'
  by unfold_locales (rule bounded_ok_step)

lemma bounded_init:
  "\<not> enable_health_check o' \<Longrightarrow> 0 < max_size o' \<Longrightarrow> bounded_ok (opts (new_pool o' m)) (pool_init o' m)"
  using owned_init [of o' m] by (simp add: bounded_ok_def pool_init_def)

lemma pool_bounded:
  assumes "runs pool_step (pool_init o' m) acts s" and "\<not> enable_health_check o'" and "0 < max_size o'"
  shows "in_use (pl s) + length (idle (pl s)) \<le> max_size o'" and "pinging s = []"
  using bounded_inv.ok_runs [OF assms(1) bounded_init [OF assms(2,3)]] assms(3)
  by (simp_all add: bounded_ok_def)

section \<open>After shutdown\<close>

definition drained_ok :: "pool_state \<Rightarrow> bool" where
  "drained_ok s \<longleftrightarrow> owned_ok s \<and> shutting_down (pl s) \<and> idle (pl s) = [] \<and> pinging s = [] \<and>
     (\<forall>x \<in># releasing s. snd x)"

lemma drained_ok_step: "drained_ok s \<Longrightarrow> pool_step s a t \<Longrightarrow> drained_ok t"
proof -
  assume d: "drained_ok s" and st: "pool_step s a t"
  then have "owned_ok t" by (auto simp: drained_ok_def dest: owned_ok_step)
  from st show ?thesis
  proof cases
    case borrow
    show ?thesis
      by (cases s rule: after_borrow_cases) (use borrow d \<open>owned_ok t\<close> in \<open>simp_all add: drained_ok_def\<close>)
  next
    case (release_locked f c now)
    with d have c by (auto simp: drained_ok_def)
    with release_locked d \<open>owned_ok t\<close> show ?thesis
      by (auto simp: drained_ok_def release_locked_def Let_def dest: in_diffD)
  next
    case (pool_shutdown fs p)
    with d \<open>owned_ok t\<close> show ?thesis by (auto simp: drained_ok_def shutdown_locked_def)
  qed (use d \<open>owned_ok t\<close> in \<open>auto simp: drained_ok_def dial_failed_locked_def close_it_def\<close>)
qed

interpretation drained_inv: machine_invariant pool_step drained_ok
  by unfold_locales (rule drained_ok_step)

lemma shutdown_drains:
  assumes "owned_ok s" and "\<not> shutting_down (pl s)" and "pinging s = []"
    and "\<forall>x \<in># releasing s. snd x" and "pool_step s PoolShutdown t"
  shows "drained_ok t"
  using owned_ok_step [OF assms(1,5)] assms(2-)
  by (auto simp: drained_ok_def shutdown_locked_def elim!: pool_stepE)

lemma drained_quiet_closed:
  "drained_ok s \<Longrightarrow> held s = {#} \<Longrightarrow> releasing s = {#} \<Longrightarrow> closing s = {#} \<Longrightarrow> open_fds s = {}"
  by (auto simp: drained_ok_def owned_ok_def owned_def idle_fds_def mset_set_empty_iff)

section \<open>Properties of the pool\<close>

text \<open>
  C4: whatever borrowers, releasers, the reaper and \<open>shutdown\<close> do in whatever order, every
  open pooled connection has exactly one owner: the idle queue, one borrower, one \<open>release\<close>
  in progress, the list of descriptors about to be closed, or the reaper's batch. So no
  connection is handed out twice, none is closed twice or while somebody uses it, and
  \<open>in_use_\<close> is the number of borrowers.
\<close>

theorem pool_ownership:
  assumes "runs pool_step (pool_init o' m) acts s"
  shows "mset (idle_fds (pl s)) + held s + image_mset fst (releasing s) + closing s +
      mset (map slot_fd (pinging s)) = mset_set (open_fds s) \<and>
    in_use_count (pl s) = dialing s + size (held s) + size (releasing s)"
  using owned_inv.ok_runs [OF assms owned_init] by (simp add: owned_ok_def owned_def in_use_count_def)

definition demo_options :: pool_options where
  "demo_options = default_pool_options\<lparr>max_size := 1, enable_health_check := False\<rparr>"

text \<open>The state of a run that borrows one connection and gives it back.\<close>

definition demo_borrowed :: "pool_options \<Rightarrow> pool_state" where
  "demo_borrowed o' = \<lparr>pl = (new_pool o' True)\<lparr>in_use := 1\<rparr>, dialing = 0, held = {#5#},
     releasing = {#}, closing = {#}, pinging = [], open_fds = {5}\<rparr>"

lemma demo_borrow:
  assumes "0 < max_size o'"
  shows "runs pool_step (pool_init o' True) [Borrow, DialOk 5] (demo_borrowed o')"
proof -
  have "pool_step (pool_init o' True) Borrow
      ((pool_init o' True)\<lparr>pl := (new_pool o' True)\<lparr>in_use := 1\<rparr>, dialing := 1\<rparr>)"
    using pool_step.borrow [of "pool_init o' True"] assms by (simp add: pool_init_def after_borrow_def borrow_locked_def)
  moreover have "pool_step ((pool_init o' True)\<lparr>pl := (new_pool o' True)\<lparr>in_use := 1\<rparr>, dialing := 1\<rparr>)
      (DialOk 5) (demo_borrowed o')"
    using pool_step.dial_ok [of "(pool_init o' True)\<lparr>pl := (new_pool o' True)\<lparr>in_use := 1\<rparr>, dialing := 1\<rparr>" 5]
    by (simp add: pool_init_def demo_borrowed_def)
  ultimately show ?thesis by (auto simp: runs_Cons_iff)
qed

theorem pool_ownership_witness:
  "mset (idle_fds (pl (demo_borrowed demo_options))) + {#5#} = mset_set {5} \<and>
   in_use_count (pl (demo_borrowed demo_options)) = 1"
  using pool_ownership [OF demo_borrow [of demo_options]]
  by (simp add: demo_borrowed_def demo_options_def default_pool_options_def)

text \<open>
  C23: with the health check disabled \<open>max_size\<close> bounds the pool in every interleaving: the
  connections in use together with the idle ones never exceed it, and the open descriptors
  exceed it at most by those already on their way to be closed.
\<close>

theorem pool_capacity:
  assumes "runs pool_step (pool_init o' m) acts s" and "\<not> enable_health_check o'" and "0 < max_size o'"
  shows "in_use_count (pl s) + idle_count (pl s) \<le> max_size o' \<and>
    card (open_fds s) \<le> max_size o' + size (closing s)"
  using pool_bounded [OF assms] card_open [OF owned_inv.ok_runs [OF assms(1) owned_init]]
  by (simp add: in_use_count_def idle_count_def)

theorem pool_capacity_witness:
  "in_use_count (pl (demo_borrowed demo_options)) + idle_count (pl (demo_borrowed demo_options)) \<le> 1 \<and>
   card (open_fds (demo_borrowed demo_options)) \<le> 1"
  using pool_capacity [OF demo_borrow [of demo_options]]
  by (simp add: demo_borrowed_def demo_options_def default_pool_options_def)

text \<open>
  C24: if \<open>shutdown\<close> happens while no \<open>release\<close> that decided to keep its connection is
  waiting for the lock and the reaper holds no batch, then in every continuation the idle
  queue stays empty, and once the borrowers have released and the pending closes are done
  no connection is open.
\<close>

theorem pool_shutdown_complete:
  assumes "runs pool_step (pool_init o' m) acts s" and "\<not> shutting_down (pl s)" and "pinging s = []"
    and "\<forall>x \<in># releasing s. snd x"
    and "runs pool_step s (PoolShutdown # acts') t"
  shows "idle (pl t) = [] \<and>
    (held t + image_mset fst (releasing t) + closing t = {#} \<longrightarrow> open_fds t = {})"
proof -
  from assms(5) obtain u where u: "pool_step s PoolShutdown u" "runs pool_step u acts' t"
    by (auto simp: runs_Cons_iff)
  from shutdown_drains [OF owned_inv.ok_runs [OF assms(1) owned_init] assms(2,3,4) u(1)]
  have "drained_ok t" using drained_inv.ok_runs [OF u(2)] by blast
  then show ?thesis using drained_quiet_closed [of t] by (simp add: drained_ok_def)
qed

theorem pool_shutdown_complete_witness:
  "idle (pl ((demo_borrowed demo_options)\<lparr>pl := (new_pool demo_options True)\<lparr>in_use := 1,
     shutting_down := True\<rparr>\<rparr>)) = []"
proof -
  let ?s = "demo_borrowed demo_options"
  let ?p = "(new_pool demo_options True)\<lparr>in_use := 1, shutting_down := True\<rparr>"
  have "pool_step ?s PoolShutdown (?s\<lparr>pl := ?p\<rparr>)"
    using pool_step.pool_shutdown [of ?s "[]" ?p]
    by (simp add: demo_borrowed_def shutdown_locked_def)
  then have "runs pool_step ?s [PoolShutdown] (?s\<lparr>pl := ?p\<rparr>)" by (rule runs_one)
  from pool_shutdown_complete [OF demo_borrow [of demo_options] _ _ _ this] show ?thesis
    by (simp add: demo_borrowed_def demo_options_def default_pool_options_def new_pool_def)
qed

section \<open>Where the pool departs from its documentation\<close>

text \<open>A connection that is idle after shutdown stays idle, and open, for ever.\<close>

definition stranded :: "fd \<Rightarrow> pool_state \<Rightarrow> bool" where
  "stranded f s \<longleftrightarrow> owned_ok s \<and> shutting_down (pl s) \<and> f \<in> set (idle_fds (pl s))"

lemma stranded_step: "stranded f s \<Longrightarrow> pool_step s a t \<Longrightarrow> stranded f t"
proof -
  assume d: "stranded f s" and st: "pool_step s a t"
  then have "owned_ok t" by (auto simp: stranded_def dest: owned_ok_step)
  from st show ?thesis
  proof cases
    case borrow
    show ?thesis
      by (cases s rule: after_borrow_cases) (use borrow d \<open>owned_ok t\<close> in \<open>simp_all add: stranded_def\<close>)
  next
    case (release_locked f c now)
    with d \<open>owned_ok t\<close> show ?thesis by (simp add: stranded_def idle_fds_release)
  next
    case (pool_shutdown fs p)
    with d \<open>owned_ok t\<close> show ?thesis by (auto simp: stranded_def shutdown_locked_def)
  qed (use d \<open>owned_ok t\<close> in \<open>auto simp: stranded_def dial_failed_locked_def idle_fds_def
      reaper_return_locked_def\<close>)
qed

interpretation stranded_inv: machine_invariant pool_step "stranded f" for f
  by unfold_locales (rule stranded_step)

lemma stranded_open: "stranded f s \<Longrightarrow> f \<in> open_fds s"
  using owned_open [of s f] by (auto simp: stranded_def owned_def)

lemma stranded_for_ever:
  assumes "0 < max_size o'"
    and "\<exists>s. runs pool_step (demo_borrowed o') acts s \<and>
      held s = {#} \<and> releasing s = {#} \<and> closing s = {#} \<and> dialing s = 0 \<and> stranded f s"
  shows "\<exists>s. runs pool_step (pool_init o' True) (Borrow # DialOk 5 # acts) s \<and>
     held s = {#} \<and> releasing s = {#} \<and> closing s = {#} \<and> dialing s = 0 \<and>
     {t. \<exists>acts. runs pool_step s acts t} \<subseteq> {t. f \<in> open_fds t}"
proof -
  from assms(2) obtain s where s: "runs pool_step (demo_borrowed o') acts s"
    "held s = {#}" "releasing s = {#}" "closing s = {#}" "dialing s = 0" "stranded f s" by blast
  from runs_append [OF demo_borrow [OF assms(1)] s(1)] s(2-) stranded_open stranded_inv.ok_runs
  show ?thesis by fastforce
qed

lemma release_race:
  "\<exists>s. runs pool_step (demo_borrowed demo_options)
       [Release 5 True, PoolShutdown, ReleaseLocked 5 False 0] s \<and>
     held s = {#} \<and> releasing s = {#} \<and> closing s = {#} \<and> dialing s = 0 \<and> stranded 5 s"
proof -
  let ?s = "demo_borrowed demo_options"
  let ?s1 = "?s\<lparr>held := {#}, releasing := {#(5, False)#}\<rparr>"
  let ?p = "(new_pool demo_options True)\<lparr>in_use := 1, shutting_down := True\<rparr>"
  let ?s2 = "?s1\<lparr>pl := ?p\<rparr>"
  let ?s3 = "?s2\<lparr>pl := release_locked 5 False 0 ?p, releasing := {#}\<rparr>"
  have "pool_step ?s (Release 5 True) ?s1"
    using pool_step.release [of 5 ?s True] by (simp add: demo_borrowed_def close_it_def)
  moreover have "pool_step ?s1 PoolShutdown ?s2"
    using pool_step.pool_shutdown [of ?s1 "[]" ?p] by (simp add: demo_borrowed_def shutdown_locked_def)
  moreover have "pool_step ?s2 (ReleaseLocked 5 False 0) ?s3"
    using pool_step.release_locked [of 5 False ?s2 0] by (simp add: demo_borrowed_def)
  ultimately have r: "runs pool_step ?s [Release 5 True, PoolShutdown, ReleaseLocked 5 False 0] ?s3"
    by (auto simp: runs_Cons_iff)
  have "runs pool_step (pool_init demo_options True) [Borrow, DialOk 5] ?s"
    by (rule demo_borrow) (simp add: demo_options_def default_pool_options_def)
  from owned_inv.ok_runs [OF r owned_inv.ok_runs [OF this owned_init]] r show ?thesis
    by (intro exI [of _ ?s3]) (simp add: demo_borrowed_def stranded_def idle_fds_release)
qed

text \<open>The same for a connection that the reaper is checking when \<open>shutdown\<close> runs.\<close>

definition checked_options :: pool_options where
  "checked_options = default_pool_options\<lparr>max_size := 1, min_idle := 1\<rparr>"

lemma reaper_race:
  "\<exists>s. runs pool_step (demo_borrowed checked_options)
       [Release 5 True, ReleaseLocked 5 False 0, ReaperTake 0, PoolShutdown, ReaperReturn] s \<and>
     held s = {#} \<and> releasing s = {#} \<and> closing s = {#} \<and> dialing s = 0 \<and> stranded 5 s"
proof -
  let ?s = "demo_borrowed checked_options"
  let ?x = "\<lparr>slot_fd = 5, created = 0, last_used = 0\<rparr>"
  let ?p = "(new_pool checked_options True)\<lparr>idle := [?x]\<rparr>"
  let ?q = "(new_pool checked_options True)\<lparr>shutting_down := True\<rparr>"
  let ?s1 = "?s\<lparr>held := {#}, releasing := {#(5, False)#}\<rparr>"
  let ?s2 = "?s\<lparr>held := {#}, pl := ?p\<rparr>"
  let ?s3 = "?s2\<lparr>pl := new_pool checked_options True, pinging := [?x]\<rparr>"
  let ?s4 = "?s3\<lparr>pl := ?q\<rparr>"
  let ?s5 = "?s4\<lparr>pl := reaper_return_locked [?x] ?q, pinging := []\<rparr>"
  note defs = demo_borrowed_def checked_options_def default_pool_options_def new_pool_def
  have "pool_step ?s (Release 5 True) ?s1"
    using pool_step.release [of 5 ?s True] by (simp add: demo_borrowed_def close_it_def)
  moreover have "pool_step ?s1 (ReleaseLocked 5 False 0) ?s2"
    using pool_step.release_locked [of 5 False ?s1 0] by (simp add: defs release_locked_def)
  moreover have "pool_step ?s2 (ReaperTake 0) ?s3"
    using pool_step.reaper_take [of ?s2 0 "[]" "[?x]" "new_pool checked_options True"]
    by (simp add: defs reaper_locked_def expired_def ns_per_ms_def)
  moreover have "pool_step ?s3 PoolShutdown ?s4"
    using pool_step.pool_shutdown [of ?s3 "[]" ?q] by (simp add: defs shutdown_locked_def)
  moreover have "pool_step ?s4 ReaperReturn ?s5"
    using pool_step.reaper_return [of ?s4] by simp
  ultimately have r: "runs pool_step ?s
      [Release 5 True, ReleaseLocked 5 False 0, ReaperTake 0, PoolShutdown, ReaperReturn] ?s5"
    by (auto simp: runs_Cons_iff)
  have "runs pool_step (pool_init checked_options True) [Borrow, DialOk 5] ?s"
    by (rule demo_borrow) (simp add: checked_options_def)
  from owned_inv.ok_runs [OF r owned_inv.ok_runs [OF this owned_init]] r show ?thesis
    by (intro exI [of _ ?s5])
      (simp add: demo_borrowed_def stranded_def reaper_return_locked_def idle_fds_def)
qed

text \<open>
  \<open>parked n s\<close>: all threads are between calls and \<open>n\<close> fresh connections are idle.
\<close>

definition parked :: "pool_options \<Rightarrow> nat \<Rightarrow> pool_state \<Rightarrow> bool" where
  "parked o' n s \<longleftrightarrow> owned_ok s \<and> opts (pl s) = o' \<and> \<not> shutting_down (pl s) \<and> in_use (pl s) = 0 \<and>
     dialing s = 0 \<and> held s = {#} \<and> releasing s = {#} \<and> closing s = {#} \<and> pinging s = [] \<and>
     length (idle (pl s)) = n \<and> (\<forall>x \<in> set (idle (pl s)). created x = 0 \<and> last_used x = 0)"

lemma fresh_fd: "finite A \<Longrightarrow> \<exists>f. 0 \<le> f \<and> f \<notin> (A :: fd set)"
  using infinite_Ici [of "0 :: int"] by (metis atLeast_iff finite_subset subsetI)

lemma reaper_takes_all:
  assumes "parked o' n s" and "enable_health_check o'" and "0 \<le> idle_timeout o'" and "0 \<le> max_lifetime o'"
  shows "reaper_locked 0 (pl s) = ([], idle (pl s), (pl s)\<lparr>idle := []\<rparr>)"
proof -
  have "\<not> expired o' 0 x" if "x \<in> set (idle (pl s))" for x
    using assms that by (simp add: parked_def expired_def ns_per_ms_def)
  then have "filter (expired o' 0) (idle (pl s)) = []"
    "filter (\<lambda>x. \<not> expired o' 0 x) (idle (pl s)) = idle (pl s)"
    by (simp_all add: filter_empty_conv)
  with assms(1,2) show ?thesis by (simp add: reaper_locked_def parked_def)
qed

lemma park_one_more:
  assumes pk: "parked o' n s" and o': "enable_health_check o'" "0 \<le> idle_timeout o'" "0 \<le> max_lifetime o'"
    "0 < max_size o'"
  shows "\<exists>acts t. runs pool_step s acts t \<and> parked o' (Suc n) t"
proof -
  obtain f where f: "0 \<le> f" "f \<notin> open_fds s"
    using pk fresh_fd by (auto simp: parked_def owned_ok_def)
  let ?p1 = "(pl s)\<lparr>idle := []\<rparr>"
  let ?s1 = "s\<lparr>pl := ?p1, pinging := idle (pl s), closing := {#}\<rparr>"
  let ?s2 = "?s1\<lparr>pl := ?p1\<lparr>in_use := 1\<rparr>, dialing := 1\<rparr>"
  let ?s3 = "?s2\<lparr>dialing := 0, held := {#f#}, open_fds := insert f (open_fds s)\<rparr>"
  let ?s4 = "?s3\<lparr>held := {#}, releasing := {#(f, False)#}\<rparr>"
  let ?s5 = "?s4\<lparr>pl := release_locked f False 0 (?p1\<lparr>in_use := 1\<rparr>), releasing := {#}, closing := {#}\<rparr>"
  let ?s6 = "?s5\<lparr>pl := reaper_return_locked (idle (pl s)) (pl ?s5), pinging := []\<rparr>"
  note P = pk [unfolded parked_def]
  have "pool_step s (ReaperTake 0) ?s1"
    using pool_step.reaper_take [OF _ _ reaper_takes_all [OF pk o'(1,2,3)]] P by simp
  moreover have "pool_step ?s1 Borrow ?s2"
    using pool_step.borrow [of ?s1] P o'(4) by (simp add: after_borrow_def borrow_locked_def)
  moreover have "pool_step ?s2 (DialOk f) ?s3"
    using pool_step.dial_ok [of ?s2 f] P f by simp
  moreover have "pool_step ?s3 (Release f True) ?s4"
    using pool_step.release [of f ?s3 True] P by (simp add: close_it_def)
  moreover have "pool_step ?s4 (ReleaseLocked f False 0) ?s5"
    using pool_step.release_locked [of f False ?s4 0] P by simp
  ultimately have r5: "runs pool_step s
      [ReaperTake 0, Borrow, DialOk f, Release f True, ReleaseLocked f False 0] ?s5"
    by (auto simp: runs_Cons_iff)
  have r6: "\<exists>acts. runs pool_step ?s5 acts ?s6"
  proof (cases "idle (pl s)")
    case Nil
    then have "?s6 = ?s5" by (simp add: reaper_return_locked_def)
    then show ?thesis by (metis runs_Nil)
  next
    case (Cons a list)
    with pool_step.reaper_return [of ?s5] have "pool_step ?s5 ReaperReturn ?s6" by simp
    then show ?thesis by (blast intro: runs_one)
  qed
  then obtain acts where "runs pool_step ?s5 acts ?s6" by blast
  from runs_append [OF r5 this] have r: "\<exists>acts. runs pool_step s acts ?s6" by blast
  then have "owned_ok ?s6" using P owned_inv.ok_runs by blast
  then have "parked o' (Suc n) ?s6"
    using P by (auto simp: parked_def release_locked_def reaper_return_locked_def)
  with r show ?thesis by blast
qed

text \<open>
  C36: three promises that the pool does not keep. \<open>release\<close> reads \<open>shutting_down_\<close> before it takes the
  lock. If \<open>shutdown\<close> runs in between, the connection is put into the idle queue of a pool that is
  already shut down: nobody holds it, no close is pending, and no continuation ever closes it, although the
  header promises that a connection released after shutdown is closed. The same happens to a
  connection that the reaper is checking when \<open>shutdown\<close> runs: it is put back and stays open. And with the health check
  enabled, as it is by default, \<open>max_size\<close> is not a bound. The connections the reaper is checking are counted neither as idle nor as in use, so a borrower
  dials a replacement, and the reaper puts its batch back next to it. For every \<open>n\<close> some run
  of a pool with \<open>max_size\<close> 1 ends with \<open>n\<close> idle open connections.
\<close>

theorem pool_promises_broken:
  "(\<exists>s. runs pool_step (pool_init demo_options True)
       [Borrow, DialOk 5, Release 5 True, PoolShutdown, ReleaseLocked 5 False 0] s \<and>
     held s = {#} \<and> releasing s = {#} \<and> closing s = {#} \<and> dialing s = 0 \<and>
     {t. \<exists>acts. runs pool_step s acts t} \<subseteq> {t. 5 \<in> open_fds t}) \<and>
   (\<exists>s. runs pool_step (pool_init checked_options True)
       [Borrow, DialOk 5, Release 5 True, ReleaseLocked 5 False 0, ReaperTake 0, PoolShutdown, ReaperReturn] s \<and>
     held s = {#} \<and> releasing s = {#} \<and> closing s = {#} \<and> dialing s = 0 \<and>
     {t. \<exists>acts. runs pool_step s acts t} \<subseteq> {t. 5 \<in> open_fds t}) \<and>
   (\<exists>acts s. runs pool_step (pool_init checked_options True) acts s \<and>
     max_size (opts (pl s)) = 1 \<and> idle_count (pl s) = n \<and> card (open_fds s) = n)"
proof -
  have "0 < max_size demo_options" and "0 < max_size checked_options"
    by (simp_all add: demo_options_def checked_options_def default_pool_options_def)
  note leaks = stranded_for_ever [OF this(1) release_race] stranded_for_ever [OF this(2) reaper_race]
  have "\<exists>acts s. runs pool_step (pool_init checked_options True) acts s \<and> parked checked_options n s"
  proof (induction n)
    case 0
    have "parked checked_options 0 (pool_init checked_options True)"
      using owned_init [of checked_options True]
      by (simp add: parked_def pool_init_def new_pool_def checked_options_def default_pool_options_def)
    then show ?case by (blast intro: runs_Nil)
  next
    case (Suc n)
    then obtain acts s where "runs pool_step (pool_init checked_options True) acts s"
      "parked checked_options n s" by blast
    moreover from park_one_more [OF this(2)]
    obtain acts' t where "runs pool_step s acts' t" "parked checked_options (Suc n) t"
      by (auto simp: checked_options_def default_pool_options_def)
    ultimately show ?case by (blast intro: runs_append)
  qed
  then obtain acts s where "runs pool_step (pool_init checked_options True) acts s"
    and pk: "parked checked_options n s" by blast
  moreover from pk card_open [of s] have "card (open_fds s) = n" by (simp add: parked_def idle_count_def)
  ultimately have "\<exists>acts s. runs pool_step (pool_init checked_options True) acts s \<and>
      max_size (opts (pl s)) = 1 \<and> idle_count (pl s) = n \<and> card (open_fds s) = n"
    by (intro exI [of _ acts] exI [of _ s]) (simp add: parked_def idle_count_def checked_options_def)
  with leaks show ?thesis by simp
qed

end
