(* ===== verification/Pool_Waiting.thy ===== *)
theory Pool_Waiting
  imports Pool_Concurrency
begin

text \<open>
  The threads of a connection pool (\<open>src/src/backend_pool.cpp\<close>): the borrowers that wait on
  \<open>cv_\<close> for a connection, the notifications of \<open>release\<close>, of a failed dial and of \<open>shutdown\<close>,
  the reaper thread with its batch, and the join in the destructor. Every step is a step of
  the machine of \<open>Pool_Concurrency\<close> or changes only who waits, so the ownership and capacity
  theorems carry over.
\<close>

section \<open>The machine\<close>

text \<open>
  \<open>ReaperPinging k\<close>: the first \<open>k\<close> entries of the batch have answered the ping, the others
  have not been tried.
\<close>

datatype reaper_pos = ReaperWaiting | ReaperPinging nat | ReaperGone

text \<open>
  \<open>looking\<close> counts the callers of \<open>borrow\<close> that are about to take \<open>mu_\<close> for the first time,
  \<open>asleep\<close> those inside \<open>wait_until\<close>, \<open>woken\<close> those that have been taken off \<open>cv_\<close> and are
  about to own \<open>mu_\<close> again; \<open>notifying\<close> counts the calls of \<open>shutdown\<close> between their critical
  section and \<open>notify_all\<close>.
\<close>

record wait_state =
  ps :: pool_state
  looking :: nat
  asleep :: nat
  woken :: nat
  notifying :: nat
  reaper :: reaper_pos

datatype wait_action =
    BorrowCall | Look | LookAgain | WokenExpires | Expires | SpuriousWake
  | Inside pool_action | CallShutdown | NotifyAll
  | BatchTake int | BatchDead slot | BatchAlive slot int | BatchReturn | BatchGone | ReaperExit

definition wait_init :: "pool_options \<Rightarrow> bool \<Rightarrow> wait_state" where
  "wait_init o' m = \<lparr>ps = pool_init o' m, looking = 0, asleep = 0, woken = 0, notifying = 0,
     reaper = ReaperWaiting\<rparr>"

text \<open>One pass of the loop of \<open>borrow\<close>: the borrower leaves the loop or goes to sleep on \<open>cv_\<close>.\<close>

definition look_locked :: "wait_state \<Rightarrow> wait_state" where
  "look_locked s =
     (case fst (borrow_locked (pl (ps s))) of
        BorrowWait \<Rightarrow> s\<lparr>asleep := asleep s + 1\<rparr>
      | _ \<Rightarrow> s\<lparr>ps := after_borrow (ps s)\<rparr>)"

definition cv_notify_one :: "wait_state \<Rightarrow> wait_state" where
  "cv_notify_one s = (if asleep s = 0 then s else s\<lparr>asleep := asleep s - 1, woken := woken s + 1\<rparr>)"

definition cv_notify_all :: "wait_state \<Rightarrow> wait_state" where
  "cv_notify_all s = s\<lparr>asleep := 0, woken := woken s + asleep s\<rparr>"

text \<open>
  The sections of \<open>borrow\<close> after its loop and of \<open>release\<close>: a failed dial and \<open>release\<close>
  notify one waiter before they give up the lock, the others notify nobody.
\<close>

fun caller_action :: "pool_action \<Rightarrow> bool" where
  "caller_action (DialOk f) = True"
| "caller_action DialFail = True"
| "caller_action (Release f ok) = True"
| "caller_action (ReleaseLocked f c now) = True"
| "caller_action (CloseFd f) = True"
| "caller_action _ = False"

fun after_section :: "pool_action \<Rightarrow> wait_state \<Rightarrow> wait_state" where
  "after_section DialFail s = cv_notify_one s"
| "after_section (ReleaseLocked f c now) s = cv_notify_one s"
| "after_section _ s = s"

text \<open>
  \<open>wait_until\<close> returns \<open>timeout\<close> when the deadline has passed, be the waiter notified or not:
  then \<open>borrow\<close> fails without another look (\<open>Expires\<close>, \<open>WokenExpires\<close>). The reaper pings
  its batch in order, and it notifies nobody when it puts the survivors back.
\<close>

inductive wait_step :: "wait_state \<Rightarrow> wait_action \<Rightarrow> wait_state \<Rightarrow> bool" where
  borrow_call: "wait_step s BorrowCall (s\<lparr>looking := looking s + 1\<rparr>)"
| look: "0 < looking s \<Longrightarrow> wait_step s Look (look_locked (s\<lparr>looking := looking s - 1\<rparr>))"
| look_again: "0 < woken s \<Longrightarrow> wait_step s LookAgain (look_locked (s\<lparr>woken := woken s - 1\<rparr>))"
| woken_expires: "0 < woken s \<Longrightarrow> wait_step s WokenExpires (s\<lparr>woken := woken s - 1\<rparr>)"
| expires: "0 < asleep s \<Longrightarrow> wait_step s Expires (s\<lparr>asleep := asleep s - 1\<rparr>)"
| spurious_wake: "0 < asleep s \<Longrightarrow>
    wait_step s SpuriousWake (s\<lparr>asleep := asleep s - 1, woken := woken s + 1\<rparr>)"
| inside: "caller_action a \<Longrightarrow> pool_step (ps s) a p \<Longrightarrow>
    wait_step s (Inside a) (after_section a (s\<lparr>ps := p\<rparr>))"
| call_shutdown: "pool_step (ps s) PoolShutdown p \<Longrightarrow>
    wait_step s CallShutdown (s\<lparr>ps := p,
      notifying := (if shutting_down (pl (ps s)) then notifying s else notifying s + 1)\<rparr>)"
| notify_all: "0 < notifying s \<Longrightarrow>
    wait_step s NotifyAll (cv_notify_all (s\<lparr>notifying := notifying s - 1\<rparr>))"
| batch_take: "reaper s = ReaperWaiting \<Longrightarrow> pool_step (ps s) (ReaperTake now) p \<Longrightarrow>
    wait_step s (BatchTake now) (s\<lparr>ps := p,
      reaper := (if pinging p = [] then ReaperWaiting else ReaperPinging 0)\<rparr>)"
| batch_dead: "reaper s = ReaperPinging (length xs) \<Longrightarrow> pinging (ps s) = xs @ x # ys \<Longrightarrow>
    wait_step s (BatchDead x) (s\<lparr>ps := (ps s)\<lparr>pinging := xs @ ys,
      closing := add_mset (slot_fd x) (closing (ps s))\<rparr>\<rparr>)"
| batch_alive: "reaper s = ReaperPinging (length xs) \<Longrightarrow> pinging (ps s) = xs @ x # ys \<Longrightarrow>
    wait_step s (BatchAlive x now) (s\<lparr>ps := (ps s)\<lparr>pinging := xs @ x\<lparr>last_used := now\<rparr> # ys\<rparr>,
      reaper := ReaperPinging (Suc (length xs))\<rparr>)"
| batch_return: "reaper s = ReaperPinging (length (pinging (ps s))) \<Longrightarrow>
    pool_step (ps s) ReaperReturn p \<Longrightarrow>
    wait_step s BatchReturn (s\<lparr>ps := p, reaper := ReaperWaiting\<rparr>)"
| batch_gone: "reaper s = ReaperPinging 0 \<Longrightarrow> pinging (ps s) = [] \<Longrightarrow>
    wait_step s BatchGone (s\<lparr>reaper := ReaperWaiting\<rparr>)"
| reaper_exit: "reaper s = ReaperWaiting \<Longrightarrow> shutting_down (pl (ps s)) \<Longrightarrow>
    wait_step s ReaperExit (s\<lparr>reaper := ReaperGone\<rparr>)"

inductive_cases wait_stepE: "wait_step s a t"
inductive_simps wait_step_simps:
  "wait_step s BorrowCall t" "wait_step s Look t" "wait_step s LookAgain t"
  "wait_step s WokenExpires t" "wait_step s Expires t" "wait_step s SpuriousWake t"
  "wait_step s (Inside a) t" "wait_step s CallShutdown t" "wait_step s NotifyAll t"
  "wait_step s (BatchTake now) t" "wait_step s (BatchDead x) t" "wait_step s (BatchAlive x now) t"
  "wait_step s BatchReturn t" "wait_step s BatchGone t" "wait_step s ReaperExit t"

text \<open>The destructor returns from \<open>join\<close> when the reaper has left its loop.\<close>

definition destructor_returns :: "wait_state \<Rightarrow> bool" where
  "destructor_returns s \<longleftrightarrow> shutting_down (pl (ps s)) \<and> reaper s = ReaperGone"

section \<open>It is the pool machine\<close>

fun pool_label :: "wait_action \<Rightarrow> pool_action option" where
  "pool_label Look = Some Borrow"
| "pool_label LookAgain = Some Borrow"
| "pool_label (Inside a) = Some a"
| "pool_label CallShutdown = Some PoolShutdown"
| "pool_label (BatchTake now) = Some (ReaperTake now)"
| "pool_label (BatchDead x) = Some (PingDead x)"
| "pool_label (BatchAlive x now) = Some (PingAlive x now)"
| "pool_label BatchReturn = Some ReaperReturn"
| "pool_label _ = None"

lemma look_locked_cases:
  obtains (waits) "\<not> shutting_down (pl (ps s))" "idle (pl (ps s)) = []"
      "max_size (opts (pl (ps s))) \<le> in_use (pl (ps s))" "after_borrow (ps s) = ps s"
      "look_locked s = s\<lparr>asleep := asleep s + 1\<rparr>"
  | (aborts) "shutting_down (pl (ps s))" "after_borrow (ps s) = ps s" "look_locked s = s"
  | (takes) "\<not> shutting_down (pl (ps s))" "in_use (pl (after_borrow (ps s))) = in_use (pl (ps s)) + 1"
      "opts (pl (after_borrow (ps s))) = opts (pl (ps s))"
      "\<not> shutting_down (pl (after_borrow (ps s)))"
      "look_locked s = s\<lparr>ps := after_borrow (ps s)\<rparr>"
  by (cases "pl (ps s)" rule: borrow_locked_cases) (auto simp: look_locked_def after_borrow_def)

lemma ps_look_locked [simp]: "ps (look_locked s) = after_borrow (ps s)"
  by (cases s rule: look_locked_cases) auto

lemma after_section_simps [simp]:
  "ps (after_section a s) = ps s" "looking (after_section a s) = looking s"
  "notifying (after_section a s) = notifying s" "reaper (after_section a s) = reaper s"
  by (cases a; simp add: cv_notify_one_def)+

lemma look_locked_simps [simp]:
  "looking (look_locked s) = looking s" "woken (look_locked s) = woken s"
  "notifying (look_locked s) = notifying s" "reaper (look_locked s) = reaper s"
  by (cases s rule: look_locked_cases; simp)+

lemma cv_notify_all_simps [simp]:
  "ps (cv_notify_all s) = ps s" "asleep (cv_notify_all s) = 0" "reaper (cv_notify_all s) = reaper s"
  "woken (cv_notify_all s) = woken s + asleep s" "notifying (cv_notify_all s) = notifying s"
  by (simp_all add: cv_notify_all_def)

interpretation wait_sim: simulation wait_step pool_step "\<lambda>s p. p = ps s" pool_label
proof (unfold_locales, goal_cases)
  case (1 s x a t)
  from 1(2,1) show ?case
    by cases (auto intro: pool_step.intros)
qed

lemma ps_wait_init [simp]: "ps (wait_init o' m) = pool_init o' m"
  by (simp add: wait_init_def)

lemma wait_runs_pool:
  assumes "runs wait_step (wait_init o' m) acts s"
  shows "runs pool_step (pool_init o' m) (List.map_filter pool_label acts) (ps s)"
  using wait_sim.sim_runs [OF assms refl] by simp

section \<open>No wake-up is lost\<close>

text \<open>
  While a borrower sleeps, every place that is not in use has been announced to a borrower
  that is awake; and once \<open>shutdown\<close> has notified, nobody sleeps.
\<close>

definition waiters_ok :: "wait_state \<Rightarrow> bool" where
  "waiters_ok s \<longleftrightarrow> (0 < asleep s \<and> \<not> shutting_down (pl (ps s)) \<longrightarrow>
     max_size (opts (pl (ps s))) \<le> in_use (pl (ps s)) + woken s)"

definition notified_ok :: "wait_state \<Rightarrow> bool" where
  "notified_ok s \<longleftrightarrow> (shutting_down (pl (ps s)) \<and> notifying s = 0 \<longrightarrow> asleep s = 0)"

lemma pool_step_opts: "pool_step p a q \<Longrightarrow> opts (pl q) = opts (pl p)"
proof (erule pool_stepE, goal_cases)
  case 1
  then show ?case by (cases p rule: after_borrow_cases) simp_all
next
  case (8 now victims to_check p')
  with reaper_locked_parts(5) [OF 8(5)] show ?case by simp
qed (auto simp: dial_failed_locked_def shutdown_locked_def reaper_return_locked_def split: if_splits)

lemma pool_step_down:
  "pool_step p a q \<Longrightarrow> a \<noteq> PoolShutdown \<Longrightarrow> shutting_down (pl q) = shutting_down (pl p)"
proof (erule pool_stepE, goal_cases)
  case 1
  then show ?case by (cases p rule: after_borrow_cases) simp_all
next
  case (8 now victims to_check p')
  with reaper_locked_parts(6) [OF 8(6)] show ?case by simp
qed (auto simp: dial_failed_locked_def shutdown_locked_def reaper_return_locked_def split: if_splits)

text \<open>\<open>in_use_\<close> falls only in the two sections that notify.\<close>

lemma pool_step_in_use:
  assumes "pool_step p a q"
  shows "in_use (pl p) \<le> in_use (pl q) + (case a of DialFail \<Rightarrow> 1 | ReleaseLocked f c now \<Rightarrow> 1 | _ \<Rightarrow> 0)"
  using assms
proof (cases)
  case borrow
  show ?thesis by (cases p rule: after_borrow_cases) (use borrow in simp_all)
next
  case (reaper_take now victims to_check p')
  with reaper_locked_parts(4) [OF reaper_take(5)] show ?thesis by simp
qed (auto simp: dial_failed_locked_def shutdown_locked_def reaper_return_locked_def split: if_splits)

lemma shutdown_pinging: "pool_step p PoolShutdown q \<Longrightarrow> pinging q = pinging p \<and> shutting_down (pl q)"
  by (erule pool_stepE) (auto simp: shutdown_locked_def split: if_splits)

lemma waiters_ok_step:
  assumes "waiters_ok s" and "wait_step s a t" and "a \<noteq> WokenExpires"
  shows "waiters_ok t"
  using assms(2)
proof cases
  case look
  show ?thesis
    by (cases "s\<lparr>looking := looking s - 1\<rparr>" rule: look_locked_cases)
      (use look assms(1) in \<open>auto simp: waiters_ok_def\<close>)
next
  case look_again
  show ?thesis
    by (cases "s\<lparr>woken := woken s - 1\<rparr>" rule: look_locked_cases)
      (use look_again assms(1) in \<open>auto simp: waiters_ok_def\<close>)
next
  case (inside b p)
  note facts = pool_step_opts [OF inside(4)] pool_step_in_use [OF inside(4)] pool_step_down [OF inside(4)]
  from facts inside assms(1) show ?thesis
    by (cases b) (auto simp: waiters_ok_def cv_notify_one_def)
next
  case (call_shutdown p)
  with shutdown_pinging [OF call_shutdown(3)] show ?thesis by (simp add: waiters_ok_def)
next
  case (batch_take now p)
  with pool_step_opts [OF batch_take(4)] pool_step_in_use [OF batch_take(4)]
    pool_step_down [OF batch_take(4)] assms(1) show ?thesis
    by (auto simp: waiters_ok_def)
next
  case (batch_return p)
  with pool_step_opts [OF batch_return(4)] pool_step_in_use [OF batch_return(4)]
    pool_step_down [OF batch_return(4)] assms(1) show ?thesis
    by (auto simp: waiters_ok_def)
qed (use assms(1,3) in \<open>auto simp: waiters_ok_def\<close>)

interpretation waiters_inv: machine_invariant "\<lambda>s a t. wait_step s a t \<and> a \<noteq> WokenExpires" waiters_ok
  by unfold_locales (blast intro: waiters_ok_step)

lemma notified_ok_step:
  assumes "notified_ok s" and "wait_step s a t"
  shows "notified_ok t"
  using assms(2)
proof cases
  case look
  show ?thesis
    by (cases "s\<lparr>looking := looking s - 1\<rparr>" rule: look_locked_cases)
      (use look assms(1) in \<open>auto simp: notified_ok_def\<close>)
next
  case look_again
  show ?thesis
    by (cases "s\<lparr>woken := woken s - 1\<rparr>" rule: look_locked_cases)
      (use look_again assms(1) in \<open>auto simp: notified_ok_def\<close>)
next
  case (inside b p)
  with pool_step_down [OF inside(4)] assms(1) show ?thesis
    by (cases b) (auto simp: notified_ok_def cv_notify_one_def)
next
  case (call_shutdown p)
  with assms(1) show ?thesis by (simp add: notified_ok_def)
next
  case (batch_take now p)
  with pool_step_down [OF batch_take(4)] assms(1) show ?thesis by (simp add: notified_ok_def)
next
  case (batch_return p)
  with pool_step_down [OF batch_return(4)] assms(1) show ?thesis by (auto simp: notified_ok_def)
qed (use assms(1) in \<open>auto simp: notified_ok_def\<close>)

interpretation notified_inv: machine_invariant wait_step notified_ok
  by unfold_locales (rule notified_ok_step)

section \<open>The reaper thread\<close>

definition reaper_ok :: "wait_state \<Rightarrow> bool" where
  "reaper_ok s \<longleftrightarrow> (case reaper s of
       ReaperPinging k \<Rightarrow> k \<le> length (pinging (ps s))
     | _ \<Rightarrow> pinging (ps s) = [])"

text \<open>The steps of the reaper, and how many it can take once the pool is shut down.\<close>

fun reaper_action :: "wait_action \<Rightarrow> bool" where
  "reaper_action (BatchTake now) = True"
| "reaper_action (BatchDead x) = True"
| "reaper_action (BatchAlive x now) = True"
| "reaper_action BatchReturn = True"
| "reaper_action BatchGone = True"
| "reaper_action ReaperExit = True"
| "reaper_action _ = False"

definition reaper_left :: "wait_state \<Rightarrow> nat" where
  "reaper_left s = (case reaper s of
       ReaperWaiting \<Rightarrow> 1
     | ReaperPinging k \<Rightarrow> length (pinging (ps s)) - k + 2
     | ReaperGone \<Rightarrow> 0)"

lemma caller_pinging:
  "caller_action a \<Longrightarrow> pool_step p a q \<Longrightarrow> pinging q = pinging p \<and> shutting_down (pl q) = shutting_down (pl p)"
  using pool_step_down [of p a q] by (cases a) (auto elim: pool_stepE)

lemma pinging_after_borrow [simp]: "pinging (after_borrow p) = pinging p"
  by (cases p rule: after_borrow_cases) simp_all

lemma shutting_down_after_borrow [simp]: "shutting_down (pl (after_borrow p)) = shutting_down (pl p)"
  by (cases p rule: after_borrow_cases) simp_all

lemma return_pinging: "pool_step p ReaperReturn q \<Longrightarrow> pinging q = [] \<and> shutting_down (pl q) = shutting_down (pl p)"
  by (erule pool_stepE) (auto simp: reaper_return_locked_def)

lemma reaper_ok_step:
  assumes "reaper_ok s" and "wait_step s a t"
  shows "reaper_ok t"
  using assms(2)
proof cases
  case (inside b p)
  with caller_pinging [OF inside(3,4)] assms(1) show ?thesis
    by (simp add: reaper_ok_def split: reaper_pos.splits)
next
  case (call_shutdown p)
  with shutdown_pinging [OF call_shutdown(3)] assms(1) show ?thesis
    by (simp add: reaper_ok_def split: reaper_pos.splits)
next
  case (batch_return p)
  with return_pinging [OF batch_return(4)] show ?thesis by (simp add: reaper_ok_def)
qed (use assms(1) in \<open>auto simp: reaper_ok_def split: reaper_pos.splits\<close>)

interpretation reaper_inv: machine_invariant wait_step reaper_ok
  by unfold_locales (rule reaper_ok_step)

lemma reaper_enabled:
  assumes "reaper_ok s" and "shutting_down (pl (ps s))"
  shows "reaper s = ReaperGone \<or> (\<exists>a t. reaper_action a \<and> wait_step s a t)"
proof (cases "reaper s")
  case ReaperWaiting
  then have "wait_step s ReaperExit (s\<lparr>reaper := ReaperGone\<rparr>)" using assms(2) by (rule reaper_exit)
  then show ?thesis by (intro disjI2 exI conjI) simp_all
next
  case (ReaperPinging k)
  with assms(1) have k: "k \<le> length (pinging (ps s))" by (simp add: reaper_ok_def)
  show ?thesis
  proof (cases "k < length (pinging (ps s))")
    case True
    then have "pinging (ps s) = take k (pinging (ps s)) @ pinging (ps s) ! k # drop (Suc k) (pinging (ps s))"
      by (rule id_take_nth_drop)
    from batch_dead [OF _ this] ReaperPinging k show ?thesis
      by (intro disjI2 exI [of _ "BatchDead (pinging (ps s) ! k)"]) (auto simp: min_absorb2)
  next
    case False
    with k have k: "k = length (pinging (ps s))" by simp
    show ?thesis
    proof (cases "pinging (ps s) = []")
      case True
      with k ReaperPinging have "wait_step s BatchGone (s\<lparr>reaper := ReaperWaiting\<rparr>)" by (simp add: batch_gone)
      then show ?thesis by (intro disjI2 exI conjI) simp_all
    next
      case False
      from batch_return [OF _ pool_step.reaper_return [OF False]] k ReaperPinging show ?thesis
        by (intro disjI2 exI [of _ BatchReturn]) auto
    qed
  qed
qed simp

lemma reaper_left_step:
  assumes "reaper_ok s" and "shutting_down (pl (ps s))" and "wait_step s a t"
  shows "shutting_down (pl (ps t)) \<and> reaper_left t + (if reaper_action a then 1 else 0) \<le> reaper_left s"
  using assms(3)
proof cases
  case (inside b p)
  with caller_pinging [OF inside(3,4)] assms(2) show ?thesis
    by (cases "reaper s") (simp_all add: reaper_left_def)
next
  case (call_shutdown p)
  with shutdown_pinging [OF call_shutdown(3)] show ?thesis
    by (cases "reaper s") (simp_all add: reaper_left_def)
next
  case (batch_take now p)
  with assms(2) show ?thesis by (auto elim: pool_stepE)
next
  case (batch_return p)
  with return_pinging [OF batch_return(4)] assms(2) show ?thesis
    by (cases "reaper s") (simp_all add: reaper_left_def)
qed (use assms(1,2) in \<open>auto simp: reaper_left_def reaper_ok_def split: reaper_pos.splits\<close>)

lemma reaper_left_runs:
  assumes "runs wait_step s acts t" and "reaper_ok s" and "shutting_down (pl (ps s))"
  shows "length (filter reaper_action acts) + reaper_left t \<le> reaper_left s"
  using assms
proof (induction rule: runs.induct)
  case (runs_Cons s a t acts u)
  from reaper_left_step [OF runs_Cons.prems runs_Cons.hyps(1)] runs_Cons.IH
    reaper_ok_step [OF runs_Cons.prems(1) runs_Cons.hyps(1)]
  show ?case by (auto split: if_splits)
qed simp

lemma wait_init_ok: "waiters_ok (wait_init o' m)" "notified_ok (wait_init o' m)" "reaper_ok (wait_init o' m)"
  by (simp_all add: waiters_ok_def notified_ok_def reaper_ok_def wait_init_def pool_init_def)

text \<open>Facts that hold for ever: the options, the shutdown flag, and an empty condition variable.\<close>

interpretation pool_opts_inv: machine_invariant pool_step "\<lambda>s. opts (pl s) = o'" for o'
  by unfold_locales (simp add: pool_step_opts)

lemma pool_step_stays_down: "shutting_down (pl p) \<Longrightarrow> pool_step p a q \<Longrightarrow> shutting_down (pl q)"
  using pool_step_down [of p a q] shutdown_pinging [of p q] by blast

lemma stays_down: "shutting_down (pl (ps s)) \<Longrightarrow> wait_step s a t \<Longrightarrow> shutting_down (pl (ps t))"
  by (erule wait_stepE) (auto intro: pool_step_stays_down)

interpretation down_inv: machine_invariant wait_step "\<lambda>s. shutting_down (pl (ps s))"
  by unfold_locales (rule stays_down)

definition nobody_sleeps :: "wait_state \<Rightarrow> bool" where
  "nobody_sleeps s \<longleftrightarrow> shutting_down (pl (ps s)) \<and> notifying s = 0 \<and> asleep s = 0"

lemma nobody_sleeps_step: "nobody_sleeps s \<Longrightarrow> wait_step s a t \<Longrightarrow> nobody_sleeps t"
proof -
  assume n: "nobody_sleeps s" and st: "wait_step s a t"
  then have "shutting_down (pl (ps t))" using stays_down by (auto simp: nobody_sleeps_def)
  moreover from st n have "notifying t = 0"
    by (cases) (auto simp: nobody_sleeps_def)
  moreover have "notified_ok s" using n by (simp add: nobody_sleeps_def notified_ok_def)
  ultimately show ?thesis using notified_ok_step [OF _ st] by (simp add: nobody_sleeps_def notified_ok_def)
qed

interpretation nobody_inv: machine_invariant wait_step nobody_sleeps
  by unfold_locales (rule nobody_sleeps_step)

section \<open>Runs with waiting borrowers\<close>

text \<open>
  Connection 5 is borrowed and \<open>k\<close> borrowers sleep; then it has been released, and \<open>w\<close> of
  them are awake again.
\<close>

definition demo_waiting :: "pool_options \<Rightarrow> nat \<Rightarrow> wait_state" where
  "demo_waiting o' k = \<lparr>ps = demo_borrowed o', looking = 0, asleep = k, woken = 0, notifying = 0,
     reaper = ReaperWaiting\<rparr>"

definition demo_released :: "pool_options \<Rightarrow> nat \<Rightarrow> nat \<Rightarrow> wait_state" where
  "demo_released o' k w = \<lparr>ps = (demo_borrowed o')\<lparr>held := {#},
       pl := release_locked 5 False 0 ((new_pool o' True)\<lparr>in_use := 1\<rparr>)\<rparr>,
     looking = 0, asleep = k, woken = w, notifying = 0, reaper = ReaperWaiting\<rparr>"

lemma demo_first_borrow:
  assumes "max_size o' = 1"
  shows "runs wait_step (wait_init o' True) [BorrowCall, Look, Inside (DialOk 5)] (demo_waiting o' 0)"
proof -
  let ?i = "wait_init o' True"
  let ?p = "(pool_init o' True)\<lparr>pl := (new_pool o' True)\<lparr>in_use := 1\<rparr>, dialing := 1\<rparr>"
  have "wait_step ?i BorrowCall (?i\<lparr>looking := 1\<rparr>)"
    using borrow_call [of ?i] by (simp add: wait_init_def)
  moreover have "wait_step (?i\<lparr>looking := 1\<rparr>) Look (?i\<lparr>ps := ?p\<rparr>)"
    using look [of "?i\<lparr>looking := 1\<rparr>"] assms
    by (simp add: wait_init_def look_locked_def after_borrow_def borrow_locked_def pool_init_def)
  moreover have "wait_step (?i\<lparr>ps := ?p\<rparr>) (Inside (DialOk 5)) (demo_waiting o' 0)"
    using inside [of "DialOk 5" "?i\<lparr>ps := ?p\<rparr>", OF _ pool_step.dial_ok]
    by (simp add: wait_init_def demo_waiting_def demo_borrowed_def pool_init_def)
  ultimately show ?thesis by (auto simp: runs_Cons_iff)
qed

lemma demo_sleep:
  assumes "max_size o' = 1"
  shows "runs wait_step (demo_waiting o' k) [BorrowCall, Look] (demo_waiting o' (k + 1))"
proof -
  let ?s = "demo_waiting o' k"
  have "wait_step ?s BorrowCall (?s\<lparr>looking := 1\<rparr>)"
    using borrow_call [of ?s] by (simp add: demo_waiting_def)
  moreover have "wait_step (?s\<lparr>looking := 1\<rparr>) Look (demo_waiting o' (k + 1))"
    using look [of "?s\<lparr>looking := 1\<rparr>"] assms
    by (simp add: demo_waiting_def demo_borrowed_def look_locked_def borrow_locked_def)
  ultimately show ?thesis by (auto simp: runs_Cons_iff)
qed

lemma demo_release:
  "runs wait_step (demo_waiting o' k) [Inside (Release 5 True), Inside (ReleaseLocked 5 False 0)]
     (demo_released o' (k - 1) (min k 1))"
proof -
  let ?s = "demo_waiting o' k"
  let ?p = "(demo_borrowed o')\<lparr>held := {#}, releasing := {#(5, False)#}\<rparr>"
  have "wait_step ?s (Inside (Release 5 True)) (?s\<lparr>ps := ?p\<rparr>)"
    using inside [of "Release 5 True" ?s, OF _ pool_step.release]
    by (simp add: demo_waiting_def demo_borrowed_def close_it_def)
  moreover have "wait_step (?s\<lparr>ps := ?p\<rparr>) (Inside (ReleaseLocked 5 False 0))
      (demo_released o' (k - 1) (min k 1))"
    using inside [of "ReleaseLocked 5 False 0" "?s\<lparr>ps := ?p\<rparr>", OF _ pool_step.release_locked]
    by (cases k) (simp_all add: demo_waiting_def demo_released_def demo_borrowed_def cv_notify_one_def)
  ultimately show ?thesis by (auto simp: runs_Cons_iff)
qed

lemma demo_one_woken:
  assumes "max_size o' = 1"
  shows "runs wait_step (wait_init o' True) [BorrowCall, Look, Inside (DialOk 5), BorrowCall, Look,
     BorrowCall, Look, Inside (Release 5 True), Inside (ReleaseLocked 5 False 0)] (demo_released o' 1 1)"
  using runs_append [OF runs_append [OF runs_append [OF demo_first_borrow [OF assms]
      demo_sleep [OF assms]] demo_sleep [OF assms]] demo_release]
  by (simp add: numeral_2_eq_2)

lemma demo_swallowed:
  "runs wait_step (demo_released o' 1 1) [WokenExpires] (demo_released o' 1 0)"
  using woken_expires [of "demo_released o' 1 1"] by (simp add: runs_Cons_iff demo_released_def)

text \<open>
  Connection 5 is idle and the reaper checks it; meanwhile connection 6 is dialled and another
  borrower goes to sleep; then the reaper puts connection 5 back.
\<close>

abbreviation slot5 :: slot where
  "slot5 \<equiv> \<lparr>slot_fd = 5, created = 0, last_used = 0\<rparr>"

definition demo_checked :: "fd multiset \<Rightarrow> slot list \<Rightarrow> slot list \<Rightarrow> nat \<Rightarrow> reaper_pos \<Rightarrow> wait_state" where
  "demo_checked h xs batch k r = \<lparr>ps = \<lparr>pl = (new_pool checked_options True)\<lparr>idle := xs,
         in_use := size h\<rparr>, dialing = 0, held = h, releasing = {#}, closing = {#}, pinging = batch,
       open_fds = insert 5 (set_mset h)\<rparr>,
     looking = 0, asleep = k, woken = 0, notifying = 0, reaper = r\<rparr>"

lemma checked_options_simps [simp]:
  "max_size checked_options = 1" "enable_health_check checked_options"
  "opts (new_pool checked_options m) = checked_options"
  by (simp_all add: checked_options_def default_pool_options_def new_pool_def)

lemma idle_before_in_use: "p\<lparr>in_use := n, idle := xs\<rparr> = (p :: pool)\<lparr>idle := xs, in_use := n\<rparr>"
  by (cases p) simp

lemma demo_batch_out:
  "runs wait_step (demo_checked {#} [slot5] [] 0 ReaperWaiting) [BatchTake 0]
     (demo_checked {#} [] [slot5] 0 (ReaperPinging 0))"
proof -
  let ?s = "demo_checked {#} [slot5] [] 0 ReaperWaiting"
  have "pool_step (ps ?s) (ReaperTake 0) (ps (demo_checked {#} [] [slot5] 0 (ReaperPinging 0)))"
    using pool_step.reaper_take [of "ps ?s" 0 "[]" "[slot5]" "(new_pool checked_options True)\<lparr>idle := [], in_use := 0\<rparr>"]
    by (simp add: demo_checked_def reaper_locked_def expired_def checked_options_def default_pool_options_def
        ns_per_ms_def new_pool_def)
  from batch_take [OF _ this] show ?thesis by (simp add: runs_Cons_iff demo_checked_def)
qed

lemma demo_dial_beside:
  "runs wait_step (demo_checked {#} [] [slot5] 0 (ReaperPinging 0)) [BorrowCall, Look, Inside (DialOk 6)]
     (demo_checked {#6#} [] [slot5] 0 (ReaperPinging 0))"
proof -
  let ?s = "demo_checked {#} [] [slot5] 0 (ReaperPinging 0)"
  let ?p = "(ps ?s)\<lparr>pl := (new_pool checked_options True)\<lparr>idle := [], in_use := 1\<rparr>, dialing := 1\<rparr>"
  have "wait_step ?s BorrowCall (?s\<lparr>looking := 1\<rparr>)"
    using borrow_call [of ?s] by (simp add: demo_checked_def)
  moreover have "wait_step (?s\<lparr>looking := 1\<rparr>) Look (?s\<lparr>ps := ?p\<rparr>)"
    using look [of "?s\<lparr>looking := 1\<rparr>"]
    by (simp add: demo_checked_def look_locked_def after_borrow_def borrow_locked_def)
  moreover have "wait_step (?s\<lparr>ps := ?p\<rparr>) (Inside (DialOk 6)) (demo_checked {#6#} [] [slot5] 0 (ReaperPinging 0))"
    using inside [of "DialOk 6" "?s\<lparr>ps := ?p\<rparr>", OF _ pool_step.dial_ok]
    by (simp add: demo_checked_def insert_commute)
  ultimately show ?thesis by (auto simp: runs_Cons_iff)
qed

lemma demo_silent_return:
  "runs wait_step (demo_checked {#6#} [] [slot5] 0 (ReaperPinging 0))
     [BorrowCall, Look, BatchAlive slot5 0, BatchReturn] (demo_checked {#6#} [slot5] [] 1 ReaperWaiting)"
proof -
  let ?s = "demo_checked {#6#} [] [slot5] 0 (ReaperPinging 0)"
  let ?t = "demo_checked {#6#} [] [slot5] 1 (ReaperPinging 0)"
  let ?u = "demo_checked {#6#} [] [slot5] 1 (ReaperPinging 1)"
  have "wait_step ?s BorrowCall (?s\<lparr>looking := 1\<rparr>)"
    using borrow_call [of ?s] by (simp add: demo_checked_def)
  moreover have "wait_step (?s\<lparr>looking := 1\<rparr>) Look ?t"
    using look [of "?s\<lparr>looking := 1\<rparr>"] by (simp add: demo_checked_def look_locked_def borrow_locked_def)
  moreover have "wait_step ?t (BatchAlive slot5 0) ?u"
    using batch_alive [of ?t "[]" slot5 "[]" 0] by (simp add: demo_checked_def)
  moreover have "wait_step ?u BatchReturn (demo_checked {#6#} [slot5] [] 1 ReaperWaiting)"
    using batch_return [OF _ pool_step.reaper_return, of ?u]
    by (simp add: demo_checked_def reaper_return_locked_def idle_before_in_use)
  ultimately show ?thesis by (auto simp: runs_Cons_iff)
qed

lemma demo_released_checked: "demo_released checked_options 0 0 = demo_checked {#} [slot5] [] 0 ReaperWaiting"
  by (simp add: demo_released_def demo_checked_def demo_borrowed_def release_locked_def new_pool_def)

lemma demo_unannounced:
  "runs wait_step (wait_init checked_options True)
     [BorrowCall, Look, Inside (DialOk 5), Inside (Release 5 True), Inside (ReleaseLocked 5 False 0),
      BatchTake 0, BorrowCall, Look, Inside (DialOk 6), BorrowCall, Look, BatchAlive slot5 0, BatchReturn]
     (demo_checked {#6#} [slot5] [] 1 ReaperWaiting)"
  using runs_append [OF runs_append [OF runs_append [OF runs_append [OF demo_first_borrow
      demo_release [of checked_options 0, simplified, unfolded demo_released_checked]] demo_batch_out]
      demo_dial_beside] demo_silent_return]
  by simp

text \<open>Which steps take a borrower off the condition variable.\<close>

lemma asleep_less:
  assumes "wait_step s a t" and "asleep t < asleep s" and "releasing (ps s) = {#}" and "dialing (ps s) = 0"
    and "notifying s = 0"
  shows "a = Expires \<or> a = SpuriousWake"
  using assms(1)
proof cases
  case look
  show ?thesis
    by (cases "s\<lparr>looking := looking s - 1\<rparr>" rule: look_locked_cases) (use look assms(2) in auto)
next
  case look_again
  show ?thesis
    by (cases "s\<lparr>woken := woken s - 1\<rparr>" rule: look_locked_cases) (use look_again assms(2) in auto)
next
  case (inside b p)
  then show ?thesis
    by (cases b) (use assms(2-) in \<open>auto elim: pool_stepE\<close>)
qed (use assms(2-) in auto)

lemma only_leaves_alone:
  assumes "0 < asleep s" and "releasing (ps s) = {#}" and "dialing (ps s) = 0" and "notifying s = 0"
  shows "{a. \<exists>t. wait_step s a t \<and> asleep t < asleep s} = {Expires, SpuriousWake}"
  using assms asleep_less [OF _ _ assms(2-)] expires [OF assms(1)] spurious_wake [OF assms(1)]
  by (fastforce simp: wait_step_simps)

section \<open>Properties of the waiting borrowers and of the destructor\<close>



text \<open>
  C37: two ways in which \<open>borrow\<close> forgets a waiting caller although a connection is idle. First,
  without health checks: the connection is released and one of two sleepers is notified, but
  its deadline has passed when it owns the lock, and it returns \<open>ETIMEDOUT\<close> without looking at
  the queue or passing the notification on. Second, with the health checks that are on by
  default and without any late borrower: the reaper puts back the connection it has checked
  and notifies nobody. In both states a connection is idle, a borrower sleeps, no borrower is
  awake, and the only steps that take the sleeper off the condition variable are its own
  timeout, with which \<open>borrow\<close> fails, and a spurious wake-up.
\<close>

theorem sleepers_forgotten:
  "(\<exists>acts s. runs wait_step (wait_init demo_options True) acts s \<and>
     idle_count (pl (ps s)) = 1 \<and> in_use_count (pl (ps s)) = 0 \<and> asleep s = 1 \<and> looking s = 0 \<and> woken s = 0 \<and>
     {a. \<exists>t. wait_step s a t \<and> asleep t < asleep s} = {Expires, SpuriousWake}) \<and>
   (\<exists>acts s. runs wait_step (wait_init checked_options True) acts s \<and>
     Expires \<notin> set acts \<and> WokenExpires \<notin> set acts \<and>
     idle_count (pl (ps s)) = 1 \<and> asleep s = 1 \<and> looking s = 0 \<and> woken s = 0 \<and>
     {a. \<exists>t. wait_step s a t \<and> asleep t < asleep s} = {Expires, SpuriousWake})"
proof (rule conjI)
  let ?s = "demo_released demo_options 1 0"
  have "{a. \<exists>t. wait_step ?s a t \<and> asleep t < asleep ?s} = {Expires, SpuriousWake}"
    by (rule only_leaves_alone) (simp_all add: demo_released_def demo_borrowed_def)
  moreover have "max_size demo_options = 1" by (simp add: demo_options_def)
  note runs_append [OF demo_one_woken [OF this] demo_swallowed]
  ultimately show "\<exists>acts s. runs wait_step (wait_init demo_options True) acts s \<and>
     idle_count (pl (ps s)) = 1 \<and> in_use_count (pl (ps s)) = 0 \<and> asleep s = 1 \<and> looking s = 0 \<and> woken s = 0 \<and>
     {a. \<exists>t. wait_step s a t \<and> asleep t < asleep s} = {Expires, SpuriousWake}"
    by - (intro exI conjI, assumption,
      simp_all add: demo_released_def idle_count_def in_use_count_def release_locked_def)
next
  let ?s = "demo_checked {#6#} [slot5] [] 1 ReaperWaiting"
  have "{a. \<exists>t. wait_step ?s a t \<and> asleep t < asleep ?s} = {Expires, SpuriousWake}"
    by (rule only_leaves_alone) (simp_all add: demo_checked_def)
  with demo_unannounced show "\<exists>acts s. runs wait_step (wait_init checked_options True) acts s \<and>
     Expires \<notin> set acts \<and> WokenExpires \<notin> set acts \<and>
     idle_count (pl (ps s)) = 1 \<and> asleep s = 1 \<and> looking s = 0 \<and> woken s = 0 \<and>
     {a. \<exists>t. wait_step s a t \<and> asleep t < asleep s} = {Expires, SpuriousWake}"
    by - (intro exI conjI, assumption, simp_all add: demo_checked_def idle_count_def)
qed

text \<open>
  C26: the destructor of a pool returns. Once \<open>shutdown\<close> has run the reaper can take a step
  until it has left its loop, and whatever the other threads do it takes at most
  \<open>reaper_left\<close> more steps: the rest of its batch, putting it back, and leaving. Then \<open>join\<close>
  returns, and stays returned.
\<close>

theorem pool_destructor_returns:
  assumes "runs wait_step (wait_init o' m) acts s" and "shutting_down (pl (ps s))"
    and "runs wait_step s acts' t"
  shows "length (filter reaper_action acts') \<le> reaper_left s \<and>
    (destructor_returns t \<or> (\<exists>a u. reaper_action a \<and> wait_step t a u)) \<and>
    (length (filter reaper_action acts') = reaper_left s \<longrightarrow> destructor_returns t)"
proof -
  have ok: "reaper_ok s" by (rule reaper_inv.ok_runs [OF assms(1) wait_init_ok(3)])
  have t: "reaper_ok t" by (rule reaper_inv.ok_runs [OF assms(3) ok])
  have d: "shutting_down (pl (ps t))" by (rule down_inv.ok_runs [OF assms(3,2)])
  have l: "length (filter reaper_action acts') + reaper_left t \<le> reaper_left s"
    by (rule reaper_left_runs [OF assms(3) ok assms(2)])
  from reaper_enabled [OF t d] d l show ?thesis
    by (auto simp: destructor_returns_def reaper_left_def split: reaper_pos.splits)
qed

theorem pool_destructor_returns_witness:
  "destructor_returns ((wait_init demo_options True)\<lparr>reaper := ReaperGone, notifying := 1,
     ps := (pool_init demo_options True)\<lparr>pl := (new_pool demo_options True)\<lparr>shutting_down := True\<rparr>\<rparr>\<rparr>)"
proof -
  let ?i = "wait_init demo_options True"
  let ?p = "(pool_init demo_options True)\<lparr>pl := (new_pool demo_options True)\<lparr>shutting_down := True\<rparr>\<rparr>"
  let ?s = "?i\<lparr>ps := ?p, notifying := 1\<rparr>"
  have "pool_step (pool_init demo_options True) PoolShutdown ?p"
    using pool_step.pool_shutdown [of "pool_init demo_options True" "[]" "(new_pool demo_options True)\<lparr>shutting_down := True\<rparr>"]
    by (simp add: pool_init_def shutdown_locked_def demo_options_def default_pool_options_def new_pool_def)
  from call_shutdown [of ?i, simplified, OF this] have "runs wait_step ?i [CallShutdown] ?s"
    by (simp add: runs_Cons_iff wait_init_def pool_init_def)
  moreover have "runs wait_step ?s [ReaperExit] (?s\<lparr>reaper := ReaperGone\<rparr>)"
    by (rule runs_one, rule reaper_exit) (simp_all add: wait_init_def)
  ultimately have "destructor_returns (?s\<lparr>reaper := ReaperGone\<rparr>)"
    using pool_destructor_returns [of demo_options True "[CallShutdown]" ?s "[ReaperExit]"]
    by (simp add: reaper_left_def wait_init_def)
  then show ?thesis by (simp add: wait_init_def)
qed

end
