(* ===== verification/Backend_Set.thy ===== *)
theory Backend_Set
  imports Backend_Pool
begin

text \<open>
  \<open>src/src/backend_set.{h,cpp}\<close>: several weighted backends behind one interface. A borrow
  picks the backend with the smallest load per weight under \<open>pick_mu_\<close>, counts itself there
  and then borrows from that backend's pool. The counters are atomic 64-bit words, and the
  comparison multiplies them crosswise in 64 bits.
\<close>

section \<open>State\<close>

record backend_spec =
  spec_host :: string
  spec_port :: u16
  spec_weight :: u64

record handle =
  h_fd :: fd
  pool_index :: nat

record backend_set =
  pools :: "pool list"
  weights :: "u64 list"
  loads :: "u64 list"
  handled :: "u64 list"

definition no_handle :: handle where "no_handle = \<lparr>h_fd = - 1, pool_index = 0\<rparr>"

definition new_backend_set :: "backend_spec list \<Rightarrow> pool_options \<Rightarrow> bool \<Rightarrow> backend_set" where
  "new_backend_set specs shared m =
     \<lparr>pools = map (\<lambda>sp. new_pool (shared\<lparr>host := spec_host sp, port := spec_port sp\<rparr>) m) specs,
      weights = map (\<lambda>sp. if spec_weight sp = 0 then 1 else spec_weight sp) specs,
      loads = replicate (length specs) 0, handled = replicate (length specs) 0\<rparr>"

section \<open>Selection\<close>

text \<open>
  The loop of \<open>pick_lowest_load_locked_\<close>: \<open>xs\<close> are the loads and weights of the candidates
  from index \<open>i\<close> on.
\<close>

fun pick_loop :: "nat \<Rightarrow> (u64 \<times> u64) list \<Rightarrow> nat \<Rightarrow> u64 \<Rightarrow> u64 \<Rightarrow> nat" where
  "pick_loop i [] best best_in_flight best_weight = best"
| "pick_loop i ((cand_in_flight, cand_weight) # xs) best best_in_flight best_weight =
     (if cand_in_flight * best_weight < best_in_flight * cand_weight
      then pick_loop (i + 1) xs i cand_in_flight cand_weight
      else pick_loop (i + 1) xs best best_in_flight best_weight)"

definition pick_lowest_load_locked :: "backend_set \<Rightarrow> nat" where
  "pick_lowest_load_locked s =
     pick_loop 1 (tl (zip (loads s) (weights s))) 0 (loads s ! 0) (weights s ! 0)"

definition bump :: "u64 list \<Rightarrow> nat \<Rightarrow> u64 list" where "bump xs i = xs[i := xs ! i + 1]"

definition unbump :: "u64 list \<Rightarrow> nat \<Rightarrow> u64 list" where "unbump xs i = xs[i := xs ! i - 1]"

text \<open>The section of \<open>borrow\<close> under \<open>pick_mu_\<close>.\<close>

definition pick_locked :: "backend_set \<Rightarrow> nat \<times> backend_set" where
  "pick_locked s =
     (let idx = pick_lowest_load_locked s in (idx, s\<lparr>loads := bump (loads s) idx\<rparr>))"

section \<open>Operations\<close>

text \<open>What \<open>borrow\<close> does with the pool's answer: undo the count, or record the borrow.\<close>

definition settle_borrow :: "nat \<Rightarrow> borrow_result \<Rightarrow> pool \<Rightarrow> backend_set \<Rightarrow> handle \<times> backend_set" where
  "settle_borrow idx res p s =
     (let s1 = s\<lparr>pools := (pools s)[idx := p]\<rparr> in
      if borrow_fd res < 0 then (no_handle, s1\<lparr>loads := unbump (loads s1) idx\<rparr>)
      else (\<lparr>h_fd = borrow_fd res, pool_index = idx\<rparr>, s1\<lparr>handled := bump (handled s1) idx\<rparr>))"

definition set_borrow ::
    "(int \<Rightarrow> pool \<Rightarrow> 'e \<Rightarrow> bool \<times> pool \<times> 'e) \<Rightarrow> 'e os \<Rightarrow> ('a, 'e) netdb \<Rightarrow> backend_set \<Rightarrow>
       'e world \<Rightarrow> (handle \<times> backend_set \<times> 'e world) option" where
  "set_borrow cv os nd s w =
     (if pools s = [] then Some (no_handle, s, w)
      else (case pick_locked s of (idx, s1) \<Rightarrow> do {
        (res, p, w1) \<leftarrow> borrow cv os nd (pools s1 ! idx) w;
        case settle_borrow idx res p s1 of (h, s2) \<Rightarrow> Some (h, s2, w1)
      }))"

definition set_release ::
    "'e os \<Rightarrow> handle \<Rightarrow> bool \<Rightarrow> backend_set \<Rightarrow> 'e world \<Rightarrow> (backend_set \<times> 'e world) option" where
  "set_release os h ok s w =
     (if h_fd h < 0 then Some (s, w)
      else if length (pools s) \<le> pool_index h then Some (s, w)
      else do {
        (p, w1) \<leftarrow> release os (h_fd h) ok (pools s ! pool_index h) w;
        let s1 = s\<lparr>pools := (pools s)[pool_index h := p]\<rparr> in
        Some (s1\<lparr>loads := unbump (loads s1) (pool_index h)\<rparr>, w1)
      })"

fun shutdown_pools :: "'e os \<Rightarrow> pool list \<Rightarrow> 'e world \<Rightarrow> (pool list \<times> 'e world) option" where
  "shutdown_pools os [] w = Some ([], w)"
| "shutdown_pools os (p # ps) w =
     do {
       (p1, w1) \<leftarrow> shutdown os p w;
       (ps1, w2) \<leftarrow> shutdown_pools os ps w1;
       Some (p1 # ps1, w2)
     }"

definition set_shutdown :: "'e os \<Rightarrow> backend_set \<Rightarrow> 'e world \<Rightarrow> (backend_set \<times> 'e world) option" where
  "set_shutdown os s w =
     do { (ps, w1) \<leftarrow> shutdown_pools os (pools s) w; Some (s\<lparr>pools := ps\<rparr>, w1) }"

definition destroy_set :: "'e os \<Rightarrow> backend_set \<Rightarrow> 'e world \<Rightarrow> (backend_set \<times> 'e world) option" where
  "destroy_set os s w = set_shutdown os s w"

definition backend_count :: "backend_set \<Rightarrow> nat" where "backend_count s = length (pools s)"

text \<open>\<open>weight\<close> checks its index and throws \<open>std::out_of_range\<close>; the two counters are read unchecked.\<close>

definition weight_at :: "backend_set \<Rightarrow> nat \<Rightarrow> u64 option" where
  "weight_at s i = (if i < length (weights s) then Some (weights s ! i) else None)"

definition handled_count :: "backend_set \<Rightarrow> nat \<Rightarrow> u64" where "handled_count s i = handled s ! i"

definition in_flight_of :: "backend_set \<Rightarrow> nat \<Rightarrow> u64" where "in_flight_of s i = loads s ! i"

section \<open>Well-formed sets\<close>

definition set_shape :: "backend_set \<Rightarrow> bool" where
  "set_shape s \<longleftrightarrow> length (weights s) = length (pools s) \<and> length (loads s) = length (pools s) \<and>
     length (handled s) = length (pools s)"

definition set_wf :: "backend_set \<Rightarrow> bool" where
  "set_wf s \<longleftrightarrow> length (weights s) = length (pools s) \<and> length (loads s) = length (pools s) \<and>
     length (handled s) = length (pools s) \<and> (\<forall>w \<in> set (weights s). w \<noteq> 0) \<and>
     (\<forall>p \<in> set (pools s). pool_wf p)"

lemma set_wf_shape: "set_wf s \<Longrightarrow> set_shape s"
  by (simp add: set_wf_def set_shape_def)

lemma new_backend_set_wf: "set_wf (new_backend_set specs shared m)"
  by (auto simp: set_wf_def new_backend_set_def new_pool_wf)

lemma length_bump [simp]: "length (bump xs i) = length xs" "length (unbump xs i) = length xs"
  by (simp_all add: bump_def unbump_def)

lemma unbump_bump: "i < length xs \<Longrightarrow> unbump (bump xs i) i = xs"
  by (simp add: bump_def unbump_def)

lemma settle_borrow_simps [simp]:
  "pools (snd (settle_borrow i res p s)) = (pools s)[i := p]"
  "set_shape (snd (settle_borrow i res p s)) \<longleftrightarrow> set_shape s"
  "h_fd (fst (settle_borrow i res p s)) < 0 \<longleftrightarrow> borrow_fd res < 0"
  by (simp_all add: settle_borrow_def no_handle_def set_shape_def Let_def)

lemma settle_borrow_ok:
  "0 \<le> borrow_fd res \<Longrightarrow> fst (settle_borrow i res p s) = \<lparr>h_fd = borrow_fd res, pool_index = i\<rparr>"
  by (simp add: settle_borrow_def Let_def)

lemma pick_locked_simps [simp]:
  "fst (pick_locked s) = pick_lowest_load_locked s" "pools (snd (pick_locked s)) = pools s"
  "set_shape (snd (pick_locked s)) \<longleftrightarrow> set_shape s"
  by (simp_all add: pick_locked_def Let_def set_shape_def)

section \<open>The selection is the smallest load per weight\<close>

text \<open>
  \<open>no_wrap\<close>: the cross products fit 64 bits. \<open>lighter\<close> compares the loads per weight of two
  backends as fractions.
\<close>

definition no_wrap :: "backend_set \<Rightarrow> bool" where
  "no_wrap s \<longleftrightarrow> (\<forall>x \<in> set (loads s). \<forall>w \<in> set (weights s). unat x * unat w < 18446744073709551616)"

definition lighter :: "backend_set \<Rightarrow> nat \<Rightarrow> nat \<Rightarrow> bool" where
  "lighter s i j \<longleftrightarrow>
     unat (loads s ! i) * unat (weights s ! j) < unat (loads s ! j) * unat (weights s ! i)"

lemma unat_mult_u64:
  "unat a * unat b < 18446744073709551616 \<Longrightarrow> unat ((a :: u64) * b) = unat a * unat b"
  by (simp add: unat_word_ariths)

lemma cross_less_iff:
  fixes a b c d :: u64
  assumes "unat a * unat b < 18446744073709551616" and "unat c * unat d < 18446744073709551616"
  shows "a * b < c * d \<longleftrightarrow> unat a * unat b < unat c * unat d"
  using assms by (simp add: word_less_nat_alt unat_mult_u64)

text \<open>Transitivity of the comparison of fractions with positive denominators.\<close>

lemma cross_le_trans:
  fixes a b c x y z :: nat
  assumes "a * y \<le> b * x" and "b * z \<le> c * y" and "0 < y"
  shows "a * z \<le> c * x"
proof -
  have "(a * z) * y \<le> (b * x) * z" using assms(1) by (metis mult.assoc mult.commute mult_le_mono1)
  also have "\<dots> = (b * z) * x" by (simp add: ac_simps)
  also have "\<dots> \<le> (c * y) * x" using assms(2) by (rule mult_le_mono1)
  finally have "(a * z) * y \<le> (c * x) * y" by (simp add: ac_simps)
  with assms(3) show ?thesis by simp
qed

lemma cross_less_le_trans:
  fixes a b c x y z :: nat
  assumes "a * y < b * x" and "b * z \<le> c * y" and "0 < y" and "0 < z"
  shows "a * z < c * x"
proof -
  have "(a * z) * y < (b * x) * z" using assms(1,4) by (metis mult.assoc mult.commute mult_less_mono1)
  also have "\<dots> = (b * z) * x" by (simp add: ac_simps)
  also have "\<dots> \<le> (c * y) * x" using assms(2) by (rule mult_le_mono1)
  finally have "(a * z) * y < (c * x) * y" by (simp add: ac_simps)
  then show ?thesis by simp
qed

lemma lighter_asym: "lighter s i j \<Longrightarrow> \<not> lighter s j i"
  by (simp add: lighter_def)

lemma lighter_trans:
  assumes "lighter s i b" and "\<not> lighter s j b" and "weights s ! b \<noteq> 0" and "weights s ! j \<noteq> 0"
  shows "lighter s i j"
  using cross_less_le_trans [of "unat (loads s ! i)" "unat (weights s ! b)" "unat (loads s ! b)"
      "unat (weights s ! i)" "unat (weights s ! j)" "unat (loads s ! j)"] assms
  by (simp add: lighter_def unat_gt_0)

text \<open>
  \<open>leads s i b\<close>: among the first \<open>i\<close> backends none is lighter than \<open>b\<close>, and \<open>b\<close> is the
  leftmost such.
\<close>

definition leads :: "backend_set \<Rightarrow> nat \<Rightarrow> nat \<Rightarrow> bool" where
  "leads s i b \<longleftrightarrow> b < i \<and> (\<forall>j < i. \<not> lighter s j b) \<and> (\<forall>j < b. lighter s b j)"

lemma leads_next:
  assumes "leads s i b" and "set_wf s" and "i < length (pools s)"
  shows "leads s (Suc i) (if lighter s i b then i else b)"
proof (cases "lighter s i b")
  case True
  have nz: "weights s ! j \<noteq> 0" if "j \<le> i" for j
    using assms(2,3) that nth_mem [of j "weights s"] by (auto simp: set_wf_def)
  have "lighter s i j" if "j < i" for j
    using lighter_trans [OF True] assms(1) nz [of b] nz [of j] that by (auto simp: leads_def)
  then show ?thesis
    using True by (auto simp: leads_def less_Suc_eq dest: lighter_asym)
next
  case False
  with assms(1) show ?thesis by (auto simp: leads_def less_Suc_eq)
qed

lemma pick_loop_leads:
  assumes "set_wf s" and "no_wrap s" and "leads s i b" and "i \<le> length (pools s)"
  shows "leads s (length (pools s)) (pick_loop i (drop i (zip (loads s) (weights s))) b (loads s ! b) (weights s ! b))"
  using assms(3,4)
proof (induction "length (pools s) - i" arbitrary: i b)
  case 0
  then show ?case using assms(1) by (simp add: set_wf_def)
next
  case (Suc k)
  then have i: "i < length (pools s)" and b: "b < i" by (auto simp: leads_def)
  with assms(1) have d: "drop i (zip (loads s) (weights s)) =
      (loads s ! i, weights s ! i) # drop (Suc i) (zip (loads s) (weights s))"
    by (subst Cons_nth_drop_Suc [symmetric]) (simp_all add: set_wf_def)
  have fits: "unat (loads s ! x) * unat (weights s ! y) < 18446744073709551616"
    if "x \<le> i" "y \<le> i" for x y
    using assms(1,2) i that by (simp add: no_wrap_def set_wf_def)
  have "loads s ! i * weights s ! b < loads s ! b * weights s ! i \<longleftrightarrow> lighter s i b"
    using b cross_less_iff [OF fits [of i b] fits [of b i]] by (simp add: lighter_def)
  with Suc(1) [of "Suc i" "if lighter s i b then i else b"] Suc(2) i d
    leads_next [OF Suc(3) assms(1) i] show ?case by (simp split: if_splits)
qed

lemma pick_leads:
  assumes "set_wf s" and "no_wrap s" and "pools s \<noteq> []"
  shows "leads s (length (pools s)) (pick_lowest_load_locked s)"
proof -
  have "leads s 1 0" by (simp add: leads_def lighter_def)
  with pick_loop_leads [OF assms(1,2), of 1 0] assms(3) show ?thesis
    by (simp add: pick_lowest_load_locked_def drop_Suc Suc_le_eq)
qed

text \<open>Without the bound the result is still the index of a backend.\<close>

lemma pick_loop_less: "b < i \<Longrightarrow> pick_loop i xs b f w < i + length xs"
proof (induction i xs b f w rule: pick_loop.induct)
  case (2 i c cw xs b f w)
  then show ?case by (cases "c * w < f * cw") (fastforce simp: less_Suc_eq)+
qed simp

lemma pick_less:
  assumes "set_shape s" and "pools s \<noteq> []"
  shows "pick_lowest_load_locked s < length (pools s)"
proof -
  have "length (tl (zip (loads s) (weights s))) = length (pools s) - 1"
    using assms(1) by (simp add: set_shape_def)
  with pick_loop_less [of 0 1 "tl (zip (loads s) (weights s))" "loads s ! 0" "weights s ! 0"] assms(2)
  show ?thesis by (cases "pools s") (simp_all add: pick_lowest_load_locked_def)
qed

section \<open>The counters under concurrency\<close>

text \<open>
  Borrowers and releasers interleave; the set's own sections are the pick under \<open>pick_mu_\<close>
  and the atomic updates after the pool's answer and in \<open>release\<close>. \<open>asking\<close> holds the index
  of every borrow that waits for its pool, \<open>lent\<close> that of every borrow that got a connection
  and has not given it back.
\<close>

record set_run =
  bset :: backend_set
  asking :: "nat multiset"
  lent :: "nat multiset"

definition outstanding :: "set_run \<Rightarrow> nat multiset" where
  "outstanding r = asking r + lent r"

definition set_run_init :: "backend_set \<Rightarrow> set_run" where
  "set_run_init s = \<lparr>bset = s, asking = {#}, lent = {#}\<rparr>"

datatype set_action = Pick nat | PoolFails nat | PoolGives nat | GiveBack nat

inductive set_step :: "set_run \<Rightarrow> set_action \<Rightarrow> set_run \<Rightarrow> bool" where
  pick: "pools (bset r) \<noteq> [] \<Longrightarrow> pick_locked (bset r) = (i, s) \<Longrightarrow>
    set_step r (Pick i) (r\<lparr>bset := s, asking := add_mset i (asking r)\<rparr>)"
| pool_fails: "i \<in># asking r \<Longrightarrow>
    set_step r (PoolFails i) (r\<lparr>bset := (bset r)\<lparr>loads := unbump (loads (bset r)) i\<rparr>,
      asking := asking r - {#i#}\<rparr>)"
| pool_gives: "i \<in># asking r \<Longrightarrow>
    set_step r (PoolGives i) (r\<lparr>bset := (bset r)\<lparr>handled := bump (handled (bset r)) i\<rparr>,
      asking := asking r - {#i#}, lent := add_mset i (lent r)\<rparr>)"
| give_back: "i \<in># lent r \<Longrightarrow>
    set_step r (GiveBack i) (r\<lparr>bset := (bset r)\<lparr>loads := unbump (loads (bset r)) i\<rparr>,
      lent := lent r - {#i#}\<rparr>)"

definition counted :: "set_run \<Rightarrow> bool" where
  "counted r \<longleftrightarrow> set_wf (bset r) \<and> (\<forall>i \<in># outstanding r. i < length (pools (bset r))) \<and>
     (\<forall>i < length (pools (bset r)). loads (bset r) ! i = of_nat (count (outstanding r) i))"

lemma counted_step: "counted r \<Longrightarrow> set_step r a t \<Longrightarrow> counted t"
proof -
  assume c: "counted r" and st: "set_step r a t"
  from st show "counted t"
  proof cases
    case (pick i s')
    with c pick_less [of "bset r"] set_wf_shape [of "bset r"] show ?thesis
      by (auto simp: counted_def outstanding_def pick_locked_def Let_def set_wf_def bump_def nth_list_update)
  next
    case (pool_fails i)
    then obtain M where "asking r = add_mset i M" by (auto dest!: multi_member_split)
    with pool_fails c show ?thesis
      by (auto simp: counted_def outstanding_def set_wf_def unbump_def nth_list_update)
  next
    case (pool_gives i)
    then obtain M where "asking r = add_mset i M" by (auto dest!: multi_member_split)
    with pool_gives c show ?thesis
      by (auto simp: counted_def outstanding_def set_wf_def bump_def)
  next
    case (give_back i)
    then obtain M where "lent r = add_mset i M" by (auto dest!: multi_member_split)
    with give_back c show ?thesis
      by (auto simp: counted_def outstanding_def set_wf_def unbump_def nth_list_update)
  qed
qed

interpretation counted_inv: machine_invariant set_step counted
  by unfold_locales (rule counted_step)

interpretation set_pools_inv: machine_invariant set_step
  "\<lambda>r. pools (bset r) = ps \<and> weights (bset r) = ws \<and> length (handled (bset r)) = n" for ps ws n
  by unfold_locales (auto elim!: set_step.cases simp: pick_locked_def Let_def bump_def)

text \<open>\<open>handled_\<close> counts the borrows that succeeded.\<close>

lemma bump_nth: "i < length xs \<Longrightarrow> bump xs k ! i = (if k = i then xs ! i + 1 else xs ! i)"
  by (simp add: bump_def)

lemma handled_runs:
  assumes "runs set_step r acts t" and "i < length (handled (bset r))"
  shows "handled (bset t) ! i = handled (bset r) ! i + of_nat (count (mset acts) (PoolGives i))"
  using assms
proof (induction rule: runs.induct)
  case (runs_Cons r a t acts u)
  from runs_Cons.hyps(1) runs_Cons.prems have "length (handled (bset t)) = length (handled (bset r))"
    "handled (bset t) ! i = handled (bset r) ! i + (if a = PoolGives i then 1 else 0)"
    by (auto elim!: set_step.cases simp: pick_locked_def Let_def bump_nth split: if_splits)
  with runs_Cons show ?case by (simp add: ac_simps)
qed simp

section \<open>Weighted fairness\<close>

definition fair_after :: "nat \<Rightarrow> backend_set \<Rightarrow> bool" where
  "fair_after k s \<longleftrightarrow> set_wf s \<and> pools s \<noteq> [] \<and> (\<forall>w \<in> set (weights s). unat w \<le> 4294967296) \<and>
     sum_list (map unat (loads s)) = k \<and>
     (\<forall>i < length (pools s). \<forall>j < length (pools s).
        unat (loads s ! i) * unat (weights s ! j) \<le>
          unat (loads s ! j) * unat (weights s ! i) + unat (weights s ! j))"

fun picks :: "nat \<Rightarrow> backend_set \<Rightarrow> backend_set" where
  "picks 0 s = s"
| "picks (Suc k) s = picks k (snd (pick_locked s))"

lemma member_le_sum_nat: "x \<in> set xs \<Longrightarrow> f x \<le> sum_list (map f xs :: nat list)"
  by (rule member_le_sum_list) auto

lemma unat_u64_add_1: "unat x < 4294967296 \<Longrightarrow> unat ((x :: u64) + 1) = unat x + 1"
  by (simp add: unat_word_ariths)

lemma fair_no_wrap:
  assumes "fair_after k s" and "k < 4294967296"
  shows "no_wrap s"
  unfolding no_wrap_def
proof (intro ballI)
  fix x w assume "x \<in> set (loads s)" "w \<in> set (weights s)"
  then have "unat x \<le> k" "unat w \<le> 4294967296"
    using assms(1) member_le_sum_nat [of x "loads s" unat] by (auto simp: fair_after_def)
  then have "unat x * unat w \<le> k * 4294967296" by (rule mult_le_mono)
  with assms(2) show "unat x * unat w < 18446744073709551616" by linarith
qed

lemma fair_pick:
  assumes f: "fair_after k s" and k: "k < 4294967296"
  shows "fair_after (Suc k) (snd (pick_locked s))"
proof -
  let ?b = "pick_lowest_load_locked s" and ?n = "length (pools s)"
  from f have wf: "set_wf s" "pools s \<noteq> []" by (auto simp: fair_after_def)
  from pick_leads [OF wf(1) fair_no_wrap [OF f k] wf(2)] have b: "?b < ?n"
    and least: "\<And>j. j < ?n \<Longrightarrow> unat (loads s ! ?b) * unat (weights s ! j) \<le> unat (loads s ! j) * unat (weights s ! ?b)"
    by (auto simp: leads_def lighter_def not_less)
  have "loads s ! ?b \<in> set (loads s)" using b wf by (simp add: set_wf_def)
  then have "unat (loads s ! ?b) \<le> k" using f member_le_sum_nat [of _ "loads s" unat]
    by (auto simp: fair_after_def)
  with k have up: "unat (loads s ! ?b + 1) = unat (loads s ! ?b) + 1" by (simp add: unat_u64_add_1)
  have b': "?b < length (loads s)" using b wf(1) by (simp add: set_wf_def)
  have "sum_list (map unat (bump (loads s) ?b)) + unat (loads s ! ?b) = k + (unat (loads s ! ?b) + 1)"
    using sum_list_update_add [of ?b "map unat (loads s)" "unat (loads s ! ?b + 1)"] f b' up
    by (simp add: bump_def map_update fair_after_def)
  then have sum: "sum_list (map unat (bump (loads s) ?b)) = Suc k" by simp
  have "unat (bump (loads s) ?b ! i) * unat (weights s ! j) \<le>
      unat (bump (loads s) ?b ! j) * unat (weights s ! i) + unat (weights s ! j)"
    if "i < ?n" "j < ?n" for i j
  proof -
    have old: "unat (loads s ! i) * unat (weights s ! j) \<le>
        unat (loads s ! j) * unat (weights s ! i) + unat (weights s ! j)"
      using f that by (simp add: fair_after_def)
    show ?thesis
      using old b' least [OF that(2)] up
      by (cases "i = ?b"; cases "j = ?b") (simp_all add: bump_def algebra_simps)
  qed
  with sum f show ?thesis
    by (simp add: fair_after_def pick_locked_def Let_def set_wf_def)
qed

lemma picks_fair: "fair_after k s \<Longrightarrow> k + n \<le> 4294967296 \<Longrightarrow> fair_after (k + n) (picks n s)"
proof (induction n arbitrary: k s)
  case (Suc n)
  from fair_pick [OF Suc.prems(1)] Suc.prems(2) have "fair_after (Suc k) (snd (pick_locked s))" by simp
  from Suc.IH [OF this] Suc.prems(2) show ?case by simp
qed simp

section \<open>Properties of the backend set\<close>

text \<open>
  As long as the cross products fit 64 bits, the backend that \<open>borrow\<close> picks exists, has
  the smallest load per weight of all backends, and is the leftmost one with that load.
\<close>

lemma pick_lowest_load_minimal:
  assumes "set_wf s" and "pools s \<noteq> []" and "no_wrap s" and "pick_lowest_load_locked s = b"
  shows "b < backend_count s \<and>
    (\<forall>j < backend_count s.
       unat (loads s ! b) * unat (weights s ! j) \<le> unat (loads s ! j) * unat (weights s ! b)) \<and>
    (\<forall>j < b. unat (loads s ! b) * unat (weights s ! j) < unat (loads s ! j) * unat (weights s ! b))"
  using pick_leads [OF assms(1,3,2)] assms(4)
  by (auto simp: leads_def lighter_def backend_count_def not_less)

lemma counted_loads:
  assumes "counted r" and "i < length (pools (bset r))" and "size (outstanding r) < 4294967296"
  shows "unat (loads (bset r) ! i) = count (outstanding r) i"
proof -
  have "count (outstanding r) i < 18446744073709551616"
    using assms(3) count_le_size [of "outstanding r" i] by linarith
  with assms(1,2) show ?thesis by (simp add: counted_def unat_of_nat)
qed

lemma counted_no_wrap:
  assumes "counted r" and "size (outstanding r) < 4294967296"
    and "\<forall>w \<in> set (weights (bset r)). unat w \<le> 4294967296"
  shows "no_wrap (bset r)"
proof -
  have "unat (loads (bset r) ! i) * unat (weights (bset r) ! j) < 18446744073709551616"
    if "i < length (pools (bset r))" "j < length (pools (bset r))" for i j
  proof -
    have "unat (loads (bset r) ! i) \<le> 4294967295"
      using counted_loads [OF assms(1) that(1) assms(2)] count_le_size [of "outstanding r" i] assms(2) by simp
    moreover have "unat (weights (bset r) ! j) \<le> 4294967296"
      using assms(1,3) that(2) by (simp add: counted_def set_wf_def)
    ultimately have "unat (loads (bset r) ! i) * unat (weights (bset r) ! j) \<le> 4294967295 * 4294967296"
      by (rule mult_le_mono)
    then show ?thesis by simp
  qed
  with assms(1) show ?thesis by (auto simp: no_wrap_def counted_def set_wf_def in_set_conv_nth)
qed



text \<open>
  Outstanding borrows stay proportional to the weights: a backend with more than its share
  would have to be within one borrow of every other backend's load per weight.
\<close>

lemma picks_proportional:
  assumes "specs \<noteq> []" and "\<forall>sp \<in> set specs. unat (spec_weight sp) \<le> 4294967296"
    and "n \<le> 4294967296" and "picks n (new_backend_set specs shared m) = s"
  shows "sum_list (map unat (loads s)) = n \<and>
    (\<forall>i < length (pools s). \<forall>j < length (pools s).
       (unat (loads s ! i) - 1) * unat (weights s ! j) \<le> unat (loads s ! j) * unat (weights s ! i))"
proof -
  have "fair_after 0 (new_backend_set specs shared m)"
    using assms(1,2) new_backend_set_wf [of specs shared m]
    by (auto simp: fair_after_def new_backend_set_def sum_list_replicate)
  from picks_fair [OF this, of n] assms(3,4) have "fair_after n s" by simp
  then show ?thesis by (auto simp: fair_after_def diff_mult_distrib le_diff_conv)
qed

end
