(* ===== verification/Tls.thy ===== *)
theory Tls
  imports Dial
begin

text \<open>
  \<open>src/src/tls.{h,cpp}\<close>: the server side of TLS. OpenSSL is a parameter, a record of the
  calls the sources make; \<open>pump_ssl\<close>, the handshake, the \<open>Stream\<close> type and the exact reads
  and writes are models of the code. At the end the two contracts of \<open>Messages\<close> are
  discharged for TLS sessions, which gives the message layer over TLS the properties of the
  plain one.
\<close>

section \<open>OpenSSL\<close>

text \<open>
  An \<open>ssl\<close> value identifies one \<open>SSL\<close> object, a new one for every \<open>SSL_new\<close>. An operation
  either succeeds (\<open>SslDone\<close>: positive return), or fails (\<open>SslFail rc0 err\<close>) with what
  \<open>SSL_get_error\<close> says; \<open>rc0\<close> tells whether the return value was 0 rather than negative.
\<close>

type_synonym ssl = int

datatype ssl_error =
    SSL_ERROR_ZERO_RETURN | SSL_ERROR_WANT_READ | SSL_ERROR_WANT_WRITE | SSL_ERROR_SYSCALL
  | SSL_ERROR_SSL

datatype 'r ssl_result = SslDone 'r | SslFail bool ssl_error

record 'e openssl =
  ssl_new :: "'e \<Rightarrow> ssl option \<times> 'e"
  ssl_set_fd :: "ssl \<Rightarrow> fd \<Rightarrow> 'e \<Rightarrow> bool \<times> 'e"
  ssl_get_fd :: "ssl \<Rightarrow> fd"
  ssl_accept :: "ssl \<Rightarrow> 'e \<Rightarrow> unit ssl_result \<times> 'e"
  ssl_read :: "ssl \<Rightarrow> int \<Rightarrow> 'e \<Rightarrow> bytes ssl_result \<times> 'e"
  ssl_write :: "ssl \<Rightarrow> bytes \<Rightarrow> int \<Rightarrow> 'e \<Rightarrow> nat ssl_result \<times> 'e"
  ssl_shutdown :: "ssl \<Rightarrow> 'e \<Rightarrow> 'e"
  ssl_free :: "ssl \<Rightarrow> 'e \<Rightarrow> 'e"

fun tls_read_events :: "fd \<Rightarrow> bytes ssl_result \<Rightarrow> event list" where
  "tls_read_events f (SslDone bs) = [EvTlsRead f bs]"
| "tls_read_events f _ = []"

fun tls_write_events :: "fd \<Rightarrow> bytes \<Rightarrow> nat ssl_result \<Rightarrow> event list" where
  "tls_write_events f bs (SslDone k) = [EvTlsWrite f (take k bs)]"
| "tls_write_events f bs _ = []"

definition sys_ssl_read ::
    "'e openssl \<Rightarrow> ssl \<Rightarrow> int \<Rightarrow> 'e world \<Rightarrow> bytes ssl_result \<times> 'e world" where
  "sys_ssl_read S s n w =
     (case ssl_read S s n (env w) of (r, e) \<Rightarrow>
        (r, emit (tls_read_events (ssl_get_fd S s) r) (w\<lparr>env := e\<rparr>)))"

definition sys_ssl_write ::
    "'e openssl \<Rightarrow> ssl \<Rightarrow> bytes \<Rightarrow> int \<Rightarrow> 'e world \<Rightarrow> nat ssl_result \<times> 'e world" where
  "sys_ssl_write S s bs n w =
     (case ssl_write S s bs n (env w) of (r, e) \<Rightarrow>
        (r, emit (tls_write_events (ssl_get_fd S s) bs r) (w\<lparr>env := e\<rparr>)))"

section \<open>Driving an operation\<close>

partial_function (option) pump_loop ::
    "'e os \<Rightarrow> fd \<Rightarrow> bool \<Rightarrow> int \<Rightarrow> ('e world \<Rightarrow> 'r ssl_result \<times> 'e world) \<Rightarrow> 'e world \<Rightarrow>
       (io_status \<times> 'r option \<times> 'e world) option" where
  "pump_loop os f has_deadline deadline op w =
     (case op w of (r, w1) \<Rightarrow>
        (case r of
           SslDone x \<Rightarrow> Some (kOk, Some x, w1)
         | SslFail rc0 err \<Rightarrow>
             if err = SSL_ERROR_ZERO_RETURN then Some (kPeerClosed, None, w1)
             else if err \<noteq> SSL_ERROR_WANT_READ \<and> err \<noteq> SSL_ERROR_WANT_WRITE then
               (if err = SSL_ERROR_SYSCALL \<and> rc0 then Some (kPeerClosed, None, w1)
                else Some (kIoError, None, w1))
             else (case (if has_deadline then sys_clock os w1 else (0, w1)) of (now, w2) \<Rightarrow>
               if has_deadline \<and> now \<ge> deadline then Some (kTimeout, None, w2)
               else (case sys_poll os f (if err = SSL_ERROR_WANT_READ then POLLIN else POLLOUT)
                   (if has_deadline then (deadline - now) div ns_per_ms else - 1) w2 of (pr, w3) \<Rightarrow>
                 (case pr of
                    PollErr e \<Rightarrow>
                      if e = EINTR then pump_loop os f has_deadline deadline op w3
                      else Some (kIoError, None, w3)
                  | PollTimeout \<Rightarrow>
                      if has_deadline then Some (kTimeout, None, w3)
                      else pump_loop os f has_deadline deadline op w3
                  | PollReady b \<Rightarrow> pump_loop os f has_deadline deadline op w3)))))"

definition pump_ssl ::
    "'e os \<Rightarrow> fd \<Rightarrow> int \<Rightarrow> ('e world \<Rightarrow> 'r ssl_result \<times> 'e world) \<Rightarrow> 'e world \<Rightarrow>
       (io_status \<times> 'r option \<times> 'e world) option" where
  "pump_ssl os f timeout_ms op w =
     (case sys_clock os w of (now, w1) \<Rightarrow>
        pump_loop os f (timeout_ms \<ge> 0)
          (now + (if timeout_ms \<ge> 0 then timeout_ms else 0) * ns_per_ms) op w1)"

section \<open>The handshake\<close>

definition free_and_close ::
    "'e os \<Rightarrow> 'e openssl \<Rightarrow> ssl \<Rightarrow> fd \<Rightarrow> 'e world \<Rightarrow> (ssl option \<times> 'e world) option" where
  "free_and_close os S s f w =
     do { w1 \<leftarrow> safe_close os f (w\<lparr>env := ssl_free S s (env w)\<rparr>); Some (None, w1) }"

text \<open>\<open>ctx\<close> tells whether \<open>ctx_\<close> is non-null.\<close>

definition accept_handshake ::
    "'e os \<Rightarrow> 'e openssl \<Rightarrow> bool \<Rightarrow> fd \<Rightarrow> int \<Rightarrow> 'e world \<Rightarrow> (ssl option \<times> 'e world) option" where
  "accept_handshake os S ctx f timeout_ms w =
     (if \<not> ctx \<or> f < 0 then
        (if f \<ge> 0 then do { w1 \<leftarrow> safe_close os f w; Some (None, w1) } else Some (None, w))
      else (case sys_env (ssl_new S) w of (so, w1) \<Rightarrow>
        (case so of
           None \<Rightarrow> do { w2 \<leftarrow> safe_close os f w1; Some (None, w2) }
         | Some s \<Rightarrow>
             (case set_nonblocking os f True w1 of (nb, w2) \<Rightarrow>
                if \<not> nb then free_and_close os S s f w2
                else (case sys_env (ssl_set_fd S s f) w2 of (okfd, w3) \<Rightarrow>
                  if \<not> okfd then free_and_close os S s f w3
                  else do {
                    (rc, u, w4) \<leftarrow> pump_ssl os f timeout_ms (sys_env (ssl_accept S s)) w3;
                    if rc \<noteq> kOk then free_and_close os S s f w4 else Some (Some s, w4)
                  })))))"

section \<open>Streams\<close>

record stream =
  st_fd :: fd
  st_ssl :: "ssl option"

definition stream_raw :: "fd \<Rightarrow> stream" where "stream_raw f = \<lparr>st_fd = f, st_ssl = None\<rparr>"

definition stream_tls :: "'e openssl \<Rightarrow> ssl option \<Rightarrow> stream" where
  "stream_tls S so = \<lparr>st_fd = (case so of None \<Rightarrow> - 1 | Some s \<Rightarrow> ssl_get_fd S s), st_ssl = so\<rparr>"

definition underlying_fd :: "'e openssl \<Rightarrow> stream \<Rightarrow> fd" where
  "underlying_fd S st = (case st_ssl st of Some s \<Rightarrow> ssl_get_fd S s | None \<Rightarrow> st_fd st)"

definition close_stream ::
    "'e os \<Rightarrow> 'e openssl \<Rightarrow> stream \<Rightarrow> 'e world \<Rightarrow> (stream \<times> 'e world) option" where
  "close_stream os S st w =
     (case st_ssl st of
        Some s \<Rightarrow>
          (let f = ssl_get_fd S s;
               w1 = w\<lparr>env := ssl_free S s (ssl_shutdown S s (env w))\<rparr>
           in do {
             w2 \<leftarrow> (if f \<ge> 0 then safe_close os f w1 else Some w1);
             Some (st\<lparr>st_ssl := None, st_fd := - 1\<rparr>, w2)
           })
      | None \<Rightarrow>
          if st_fd st \<ge> 0 then do { w1 \<leftarrow> safe_close os (st_fd st) w; Some (st\<lparr>st_fd := - 1\<rparr>, w1) }
          else Some (st, w))"

section \<open>Exact reads and writes\<close>

text \<open>The cast of a \<open>std::size_t\<close> to \<open>int\<close>.\<close>

definition int_cast :: "nat \<Rightarrow> int" where "int_cast n = sint (of_nat n :: u32)"

partial_function (option) tls_read_exact ::
    "'e os \<Rightarrow> 'e openssl \<Rightarrow> ssl \<Rightarrow> nat \<Rightarrow> int \<Rightarrow> bool \<Rightarrow> bytes \<Rightarrow> 'e world \<Rightarrow>
       (io_status \<times> bytes \<times> 'e world) option" where
  "tls_read_exact os S s need timeout_ms allow_eof_at_start got w =
     (if length got < need then
        Option.bind (pump_ssl os (ssl_get_fd S s) timeout_ms
            (sys_ssl_read S s (int_cast (need - length got))) w) (\<lambda>(rc, n, w1).
          if rc \<noteq> kOk then
            (if rc = kPeerClosed \<and> got = [] \<and> allow_eof_at_start then Some (kPeerClosed, got, w1)
             else Some (rc, got, w1))
          else tls_read_exact os S s need timeout_ms allow_eof_at_start
            (got @ (case n of Some bs \<Rightarrow> bs | None \<Rightarrow> [])) w1)
      else Some (kOk, got, w))"

partial_function (option) tls_write_exact ::
    "'e os \<Rightarrow> 'e openssl \<Rightarrow> ssl \<Rightarrow> bytes \<Rightarrow> int \<Rightarrow> nat \<Rightarrow> 'e world \<Rightarrow> (io_status \<times> 'e world) option"
    where
  "tls_write_exact os S s buf timeout_ms n_sent w =
     (if n_sent < length buf then
        Option.bind (pump_ssl os (ssl_get_fd S s) timeout_ms
            (sys_ssl_write S s (drop n_sent buf) (int_cast (length buf - n_sent))) w) (\<lambda>(rc, n, w1).
          if rc \<noteq> kOk then Some (rc, w1)
          else tls_write_exact os S s buf timeout_ms
            (n_sent + (case n of Some k \<Rightarrow> k | None \<Rightarrow> 0)) w1)
      else Some (kOk, w))"

section \<open>Messages on a stream\<close>

definition stream_read_message ::
    "'e os \<Rightarrow> 'e openssl \<Rightarrow> endian \<Rightarrow> stream \<Rightarrow> bytes \<Rightarrow> nat \<Rightarrow> int \<Rightarrow> 'e world \<Rightarrow>
       (io_status \<times> bytes \<times> 'e world) option" where
  "stream_read_message os S e st out max_payload timeout_ms w =
     (case st_ssl st of
        None \<Rightarrow> read_message os e (st_fd st) out max_payload timeout_ms w
      | Some s \<Rightarrow>
          do {
            (rc, hdr, w1) \<leftarrow> tls_read_exact os S s 4 timeout_ms True [] w;
            if rc \<noteq> kOk then Some (rc, out, w1)
            else let len = unat (bswap32 (memcpy_u32 e hdr)) in
              if len > max_payload then Some (kProtocolError, out, w1)
              else let out1 = resize out len in
                if len = 0 then Some (kOk, out1, w1)
                else do {
                  (rc2, got, w2) \<leftarrow> tls_read_exact os S s len timeout_ms False [] w1;
                  Some (rc2, overlay got out1, w2)
                }
          })"

definition stream_write_message ::
    "'e os \<Rightarrow> 'e openssl \<Rightarrow> endian \<Rightarrow> stream \<Rightarrow> bytes \<Rightarrow> int \<Rightarrow> 'e world \<Rightarrow>
       (io_status \<times> 'e world) option" where
  "stream_write_message os S e st data timeout_ms w =
     (case st_ssl st of
        None \<Rightarrow> write_message os e (st_fd st) data timeout_ms w
      | Some s \<Rightarrow>
          if length data > 0xFFFFFFFF then Some (kProtocolError, w)
          else let net_len = bswap32 (of_nat (length data)); hdr = memcpy_hdr e net_len in
            do {
              (rc, w1) \<leftarrow> tls_write_exact os S s hdr timeout_ms 0 w;
              if rc \<noteq> kOk then Some (rc, w1)
              else if length data = 0 then Some (kOk, w1)
              else tls_write_exact os S s data timeout_ms 0 w1
            })"

section \<open>What pumping an operation does\<close>

text \<open>An operation whose failures leave no trace in the history.\<close>

definition quiet_fail :: "('e world \<Rightarrow> 'r ssl_result \<times> 'e world) \<Rightarrow> bool" where
  "quiet_fail op \<longleftrightarrow> (\<forall>w a b w'. op w = (SslFail a b, w') \<longrightarrow> did w [] w')"

lemma quiet_failD: "quiet_fail op \<Longrightarrow> op w = (SslFail a b, w') \<Longrightarrow> did w [] w'"
  by (simp add: quiet_fail_def)

text \<open>
  A pumped operation either succeeded in some silently reached world, or failed silently.
\<close>

definition pumped ::
    "('e world \<Rightarrow> 'r ssl_result \<times> 'e world) \<Rightarrow> 'e world \<Rightarrow> io_status \<times> 'r option \<times> 'e world \<Rightarrow> bool" where
  "pumped op w r \<longleftrightarrow> (case r of (st, x, w') \<Rightarrow>
     if st = kOk then \<exists>v y. did w [] v \<and> op v = (SslDone y, w') \<and> x = Some y
     else x = None \<and> st \<noteq> kProtocolError \<and> did w [] w')"

lemma pumped_done: "op w = (SslDone y, w') \<Longrightarrow> pumped op w (kOk, Some y, w')"
  by (auto simp: pumped_def)

lemma pumped_fail: "did w [] w' \<Longrightarrow> st \<noteq> kOk \<Longrightarrow> st \<noteq> kProtocolError \<Longrightarrow> pumped op w (st, None, w')"
  by (simp add: pumped_def)

lemma pumped_silent: "did w [] v \<Longrightarrow> pumped op v r \<Longrightarrow> pumped op w r"
  by (auto simp: pumped_def intro: did_silent split: if_splits)

lemmas pump_loop_induct = pump_loop.raw_induct [rotated, consumes 1, case_names step]
lemmas tls_read_exact_induct = tls_read_exact.raw_induct [rotated, consumes 1, case_names step]
lemmas tls_write_exact_induct = tls_write_exact.raw_induct [rotated, consumes 1, case_names step]

lemma maybe_clock_did: "(if b then sys_clock os w else (0, w)) = (now, w') \<Longrightarrow> did w [] w'"
  by (auto split: if_splits dest: did_clock)

lemma pump_loop_pumped: "pump_loop os f hasd dl op w = Some r \<Longrightarrow> quiet_fail op \<Longrightarrow> pumped op w r"
proof (induction rule: pump_loop_induct)
  case (step g os f hasd dl op w r)
  obtain res w1 where o1: "op w = (res, w1)" by fastforce
  show ?case
  proof (cases res)
    case (SslDone x)
    with step.hyps o1 show ?thesis by (auto intro: pumped_done)
  next
    case (SslFail rc0 err)
    note d1 = quiet_failD [OF step.prems o1 [unfolded SslFail]]
    obtain now w2 where c: "(if hasd then sys_clock os w1 else (0, w1)) = (now, w2)" by fastforce
    note d2 = did_silent [OF d1 maybe_clock_did [OF c]]
    obtain pr w3 where p: "sys_poll os f (if err = SSL_ERROR_WANT_READ then POLLIN else POLLOUT)
        (if hasd then (dl - now) div ns_per_ms else - 1) w2 = (pr, w3)" by fastforce
    note d3 = did_silent [OF d2 did_poll [OF p]]
    have again: "pumped op w r" if "g os f hasd dl op w3 = Some r"
      using pumped_silent [OF d3 step.IH [OF that step.prems]] .
    from step.hyps o1 SslFail c p d1 d2 d3 show ?thesis
      by (auto split: if_splits poll_result.splits intro: pumped_fail again)
  qed
qed

lemma pump_ssl_pumped:
  assumes "pump_ssl os f t op w = Some r" and "quiet_fail op"
  shows "pumped op w r"
proof -
  obtain now w1 where c: "sys_clock os w = (now, w1)" by fastforce
  with assms show ?thesis
    by (auto simp: pump_ssl_def dest!: pump_loop_pumped intro: pumped_silent [OF did_clock [OF c]])
qed

lemma quiet_fail_ops: "quiet_fail (sys_ssl_read S s n)" "quiet_fail (sys_ssl_write S s bs n)"
  "quiet_fail (sys_env (call :: 'e \<Rightarrow> 'r ssl_result \<times> 'e))"
  by (auto simp: quiet_fail_def sys_ssl_read_def sys_ssl_write_def sys_env_def emit_def did_def
      trace_simps split: prod.splits)

lemma did_ssl_read: "sys_ssl_read S s n w = (SslDone bs, w') \<Longrightarrow> did w [EvTlsRead (ssl_get_fd S s) bs] w'"
  by (auto simp: sys_ssl_read_def did_def trace_simps world_simps split: prod.splits)

lemma did_ssl_write:
  "sys_ssl_write S s bs n w = (SslDone k, w') \<Longrightarrow> did w [EvTlsWrite (ssl_get_fd S s) (take k bs)] w'"
  by (auto simp: sys_ssl_write_def did_def trace_simps world_simps split: prod.splits)

section \<open>Documented behaviour of OpenSSL\<close>

text \<open>
  \<open>ssl_bounded\<close>: a positive return of \<open>SSL_read\<close> or \<open>SSL_write\<close> is a number of bytes
  between 1 and the number asked for. \<open>ssl_live\<close>: operations ask to be retried only
  finitely often, counted by the same budget as the interrupts. \<open>ssl_binds\<close>:
  \<open>SSL_get_fd\<close> returns what \<open>SSL_set_fd\<close> set.
\<close>

definition ssl_bounded :: "'e openssl \<Rightarrow> bool" where
  "ssl_bounded S \<longleftrightarrow>
     (\<forall>s n e bs. fst (ssl_read S s n e) = SslDone bs \<longrightarrow> bs \<noteq> [] \<and> int (length bs) \<le> n) \<and>
     (\<forall>s bs n e k. fst (ssl_write S s bs n e) = SslDone k \<longrightarrow> 0 < k \<and> int k \<le> n)"

fun want_cost :: "'r ssl_result \<Rightarrow> nat" where
  "want_cost (SslFail rc0 err) = (if err = SSL_ERROR_WANT_READ \<or> err = SSL_ERROR_WANT_WRITE then 1 else 0)"
| "want_cost _ = 0"

definition ssl_live :: "'e openssl \<Rightarrow> ('e \<Rightarrow> nat) \<Rightarrow> bool" where
  "ssl_live S budget \<longleftrightarrow>
     (\<forall>e. budget (snd (ssl_new S e)) \<le> budget e) \<and>
     (\<forall>s f e. budget (snd (ssl_set_fd S s f e)) \<le> budget e) \<and>
     (\<forall>s e. budget (snd (ssl_accept S s e)) + want_cost (fst (ssl_accept S s e)) \<le> budget e) \<and>
     (\<forall>s n e. budget (snd (ssl_read S s n e)) + want_cost (fst (ssl_read S s n e)) \<le> budget e) \<and>
     (\<forall>s bs n e. budget (snd (ssl_write S s bs n e)) + want_cost (fst (ssl_write S s bs n e)) \<le> budget e) \<and>
     (\<forall>s e. budget (ssl_shutdown S s e) \<le> budget e) \<and> (\<forall>s e. budget (ssl_free S s e) \<le> budget e)"

definition ssl_binds :: "'e openssl \<Rightarrow> bool" where
  "ssl_binds S \<longleftrightarrow> (\<forall>s f e. fst (ssl_set_fd S s f e) \<longrightarrow> ssl_get_fd S s = f)"

lemma ssl_boundedD:
  assumes "ssl_bounded S"
  shows "sys_ssl_read S s n w = (SslDone bs, w') \<Longrightarrow> bs \<noteq> [] \<and> int (length bs) \<le> n"
    and "sys_ssl_write S s buf n w = (SslDone k, w') \<Longrightarrow> 0 < k \<and> int k \<le> n"
proof -
  from assms have "fst (ssl_read S s n (env w)) = SslDone bs \<longrightarrow> bs \<noteq> [] \<and> int (length bs) \<le> n"
    by (simp add: ssl_bounded_def)
  then show "sys_ssl_read S s n w = (SslDone bs, w') \<Longrightarrow> bs \<noteq> [] \<and> int (length bs) \<le> n"
    by (auto simp: sys_ssl_read_def split: prod.splits)
  from assms have "fst (ssl_write S s buf n (env w)) = SslDone k \<longrightarrow> 0 < k \<and> int k \<le> n"
    by (simp add: ssl_bounded_def)
  then show "sys_ssl_write S s buf n w = (SslDone k, w') \<Longrightarrow> 0 < k \<and> int k \<le> n"
    by (auto simp: sys_ssl_write_def split: prod.splits)
qed

lemma int_cast_le: "int_cast n \<le> int n"
proof -
  have "take_bit 32 (uint (x :: u32)) = uint x" for x
    using unsigned_less [of x] by (simp add: take_bit_int_eq_self_iff)
  then have "sint (of_nat n :: u32) \<le> uint (of_nat n :: u32)"
    by (simp add: sint_uint signed_take_bit_eq_take_bit_minus)
  also have "\<dots> \<le> int n" by (simp add: unsigned_of_nat take_bit_nat_less_eq_self)
  finally show ?thesis by (simp add: int_cast_def)
qed

section \<open>Exact reads and writes over TLS\<close>

lemma tls_read_exact_result:
  "tls_read_exact os S s need t aeof got w = Some r \<Longrightarrow>
     read_result (EvTlsRead (ssl_get_fd S s)) need got w r"
proof (induction rule: tls_read_exact_induct)
  case (step g os S s need t aeof got w r)
  show ?case
  proof (cases "length got < need")
    case False
    with step.hyps show ?thesis by (auto intro: read_result_stop)
  next
    case True
    with step.hyps obtain rc n w1
      where p: "pump_ssl os (ssl_get_fd S s) t (sys_ssl_read S s (int_cast (need - length got))) w
        = Some (rc, n, w1)" by (auto elim!: bind_SomeE)
    note P = pump_ssl_pumped [OF p quiet_fail_ops(1)]
    show ?thesis
    proof (cases "rc = kOk")
      case False
      with P True step.hyps p show ?thesis
        by (auto simp: pumped_def split: if_splits intro!: read_result_stop)
    next
      case rc: True
      with P obtain v bs where v: "did w [] v" "n = Some bs"
        "sys_ssl_read S s (int_cast (need - length got)) v = (SslDone bs, w1)"
        by (auto simp: pumped_def)
      from rc True step.hyps p v(2) have "g os S s need t aeof (got @ bs) w1 = Some r" by simp
      from read_result_data [OF did_silent [OF v(1) did_ssl_read [OF v(3)]] step.IH [OF this]]
      show ?thesis .
    qed
  qed
qed

lemma tls_read_exact_bounded:
  "tls_read_exact os S s need t aeof got w = Some r \<Longrightarrow> ssl_bounded S \<Longrightarrow> length got \<le> need \<Longrightarrow>
     length (fst (snd r)) \<le> need"
proof (induction rule: tls_read_exact_induct)
  case (step g os S s need t aeof got w r)
  show ?case
  proof (cases "length got < need")
    case False
    with step.hyps step.prems show ?thesis by auto
  next
    case True
    with step.hyps obtain rc n w1
      where p: "pump_ssl os (ssl_get_fd S s) t (sys_ssl_read S s (int_cast (need - length got))) w
        = Some (rc, n, w1)" by (auto elim!: bind_SomeE)
    note P = pump_ssl_pumped [OF p quiet_fail_ops(1)]
    show ?thesis
    proof (cases "rc = kOk")
      case False
      with True step.hyps step.prems p show ?thesis by (auto split: if_splits)
    next
      case rc: True
      with P obtain v bs where v: "n = Some bs"
        "sys_ssl_read S s (int_cast (need - length got)) v = (SslDone bs, w1)"
        by (auto simp: pumped_def)
      have "int (length bs) \<le> int (need - length got)"
        using ssl_boundedD(1) [OF step.prems(1) v(2)] int_cast_le [of "need - length got"] by linarith
      moreover from rc True step.hyps p v(1) have "g os S s need t aeof (got @ bs) w1 = Some r" by simp
      ultimately show ?thesis using step.IH [OF _ step.prems(1)] True by simp
    qed
  qed
qed

lemma tls_write_exact_result:
  "tls_write_exact os S s buf t k w = Some r \<Longrightarrow>
     write_result (EvTlsWrite (ssl_get_fd S s)) buf k w r"
proof (induction rule: tls_write_exact_induct)
  case (step g os S s buf t k w r)
  show ?case
  proof (cases "k < length buf")
    case False
    with step.hyps show ?thesis by (auto intro: write_result_stop)
  next
    case True
    with step.hyps obtain rc n w1 where p: "pump_ssl os (ssl_get_fd S s) t
        (sys_ssl_write S s (drop k buf) (int_cast (length buf - k))) w = Some (rc, n, w1)"
      by (auto elim!: bind_SomeE)
    note P = pump_ssl_pumped [OF p quiet_fail_ops(2)]
    show ?thesis
    proof (cases "rc = kOk")
      case False
      with P True step.hyps p show ?thesis
        by (auto simp: pumped_def intro!: write_result_stop)
    next
      case rc: True
      with P obtain v m where v: "did w [] v" "n = Some m"
        "sys_ssl_write S s (drop k buf) (int_cast (length buf - k)) v = (SslDone m, w1)"
        by (auto simp: pumped_def)
      from rc True step.hyps p v(2) have "g os S s buf t (k + m) w1 = Some r" by simp
      from write_result_data [OF did_silent [OF v(1) did_ssl_write [OF v(3)]] step.IH [OF this]]
      show ?thesis .
    qed
  qed
qed

section \<open>The TLS loops return\<close>

lemma ssl_liveD:
  assumes "ssl_live S budget"
  shows "sys_ssl_read S s n w = (rr, w') \<Longrightarrow> budget (env w') + want_cost rr \<le> budget (env w)"
    and "sys_ssl_write S s bs n w = (wr, w') \<Longrightarrow> budget (env w') + want_cost wr \<le> budget (env w)"
    and "sys_env (ssl_accept S s) w = (ar, w') \<Longrightarrow> budget (env w') + want_cost ar \<le> budget (env w)"
proof -
  note laws = assms [unfolded ssl_live_def]
  from laws have "budget (snd (ssl_read S s n (env w))) + want_cost (fst (ssl_read S s n (env w)))
      \<le> budget (env w)" by simp
  then show "sys_ssl_read S s n w = (rr, w') \<Longrightarrow> budget (env w') + want_cost rr \<le> budget (env w)"
    by (auto simp: sys_ssl_read_def world_simps split: prod.splits)
  from laws have "budget (snd (ssl_write S s bs n (env w))) + want_cost (fst (ssl_write S s bs n (env w)))
      \<le> budget (env w)" by simp
  then show "sys_ssl_write S s bs n w = (wr, w') \<Longrightarrow> budget (env w') + want_cost wr \<le> budget (env w)"
    by (auto simp: sys_ssl_write_def world_simps split: prod.splits)
  from laws have "budget (snd (ssl_accept S s (env w))) + want_cost (fst (ssl_accept S s (env w)))
      \<le> budget (env w)" by simp
  then show "sys_env (ssl_accept S s) w = (ar, w') \<Longrightarrow> budget (env w') + want_cost ar \<le> budget (env w)"
    by (auto simp: sys_env_def split: prod.splits)
qed

lemma pump_loop_returns:
  assumes fin: "finite_interrupts os budget"
    and op: "\<And>w r w'. op w = (r, w') \<Longrightarrow> budget (env w') + want_cost r \<le> budget (env w)"
  shows "returns budget w (pump_loop os f hasd dl op w) (\<lambda>r. snd (snd r))"
proof (induction "budget (env w)" arbitrary: w rule: less_induct)
  case less
  obtain res w1 where o1: "op w = (res, w1)" by fastforce
  note b1 = op [OF o1]
  show ?case
  proof (cases res)
    case (SslDone x)
    with o1 b1 show ?thesis by (simp add: pump_loop.simps [of os] returns_Some)
  next
    case (SslFail rc0 err)
    show ?thesis
    proof (cases "err = SSL_ERROR_WANT_READ \<or> err = SSL_ERROR_WANT_WRITE")
      case False
      with o1 SslFail b1 show ?thesis by (auto simp: pump_loop.simps [of os] returns_Some)
    next
      case True
      with b1 SslFail have b1: "budget (env w1) < budget (env w)" by auto
      obtain now w2 where c: "(if hasd then sys_clock os w1 else (0, w1)) = (now, w2)" by fastforce
      then have b2: "budget (env w2) \<le> budget (env w1)"
        by (auto split: if_splits dest: finite_interruptsD(1) [OF fin])
      obtain pr w3 where p: "sys_poll os f (if err = SSL_ERROR_WANT_READ then POLLIN else POLLOUT)
          (if hasd then (dl - now) div ns_per_ms else - 1) w2 = (pr, w3)" by fastforce
      from finite_interruptsD(2) [OF fin p] b1 b2 have b3: "budget (env w3) < budget (env w)" by simp
      from returns_le [OF less [OF b3]] b3
      have again: "returns budget w (pump_loop os f hasd dl op w3) (\<lambda>r. snd (snd r))" by simp
      have "err \<noteq> SSL_ERROR_ZERO_RETURN" "\<not> (err \<noteq> SSL_ERROR_WANT_READ \<and> err \<noteq> SSL_ERROR_WANT_WRITE)"
        "budget (env w2) \<le> budget (env w)" "budget (env w3) \<le> budget (env w)"
        using True b1 b2 b3 by auto
      then show ?thesis
        by (subst pump_loop.simps)
          (simp only: o1 SslFail c p split_conv ssl_result.case if_False again returns_Some snd_conv
            split: poll_result.split if_split; simp add: returns_Some again)
    qed
  qed
qed

lemma pump_ssl_returns:
  assumes "finite_interrupts os budget"
    and "\<And>w r w'. op w = (r, w') \<Longrightarrow> budget (env w') + want_cost r \<le> budget (env w)"
  shows "returns budget w (pump_ssl os f t op w) (\<lambda>r. snd (snd r))"
proof -
  obtain now w1 where c: "sys_clock os w = (now, w1)" by fastforce
  show ?thesis
    using returns_le [OF pump_loop_returns [OF assms] finite_interruptsD(1) [OF assms(1) c]]
    by (simp add: pump_ssl_def c)
qed

lemma tls_read_exact_returns:
  assumes fin: "finite_interrupts os budget" and sl: "ssl_live S budget" and sb: "ssl_bounded S"
  shows "returns budget w (tls_read_exact os S s need t aeof got w) (\<lambda>r. snd (snd r))"
proof (induction "need - length got" arbitrary: got w rule: less_induct)
  case less
  show ?case
  proof (cases "length got < need")
    case False
    then show ?thesis by (simp add: tls_read_exact.simps [of os] returns_Some)
  next
    case True
    let ?op = "sys_ssl_read S s (int_cast (need - length got))"
    from pump_ssl_returns [where op = ?op and w = w and f = "ssl_get_fd S s" and t = t,
        OF fin ssl_liveD(1) [OF sl]]
    obtain r where "pump_ssl os (ssl_get_fd S s) t ?op w = Some r"
      "budget (env (snd (snd r))) \<le> budget (env w)" by (rule returnsE)
    then obtain rc n w1 where p: "pump_ssl os (ssl_get_fd S s) t ?op w = Some (rc, n, w1)"
      and b: "budget (env w1) \<le> budget (env w)" by (cases r) simp
    show ?thesis
    proof (cases "rc = kOk")
      case False
      with True p b show ?thesis by (subst tls_read_exact.simps) (simp add: returns_Some)
    next
      case rc: True
      with pump_ssl_pumped [OF p quiet_fail_ops(1)] obtain v bs where v: "n = Some bs"
        "?op v = (SslDone bs, w1)" by (auto simp: pumped_def)
      then have "need - length (got @ bs) < need - length got"
        using ssl_boundedD(1) [OF sb v(2)] True by (cases bs) auto
      from returns_le [OF less [OF this] b] rc True p v(1) show ?thesis
        by (subst tls_read_exact.simps) simp
    qed
  qed
qed

lemma tls_write_exact_returns:
  assumes fin: "finite_interrupts os budget" and sl: "ssl_live S budget" and sb: "ssl_bounded S"
  shows "returns budget w (tls_write_exact os S s buf t k w) snd"
proof (induction "length buf - k" arbitrary: k w rule: less_induct)
  case less
  show ?case
  proof (cases "k < length buf")
    case False
    then show ?thesis by (simp add: tls_write_exact.simps [of os] returns_Some)
  next
    case True
    let ?op = "sys_ssl_write S s (drop k buf) (int_cast (length buf - k))"
    from pump_ssl_returns [where op = ?op and w = w and f = "ssl_get_fd S s" and t = t,
        OF fin ssl_liveD(2) [OF sl]]
    obtain r where "pump_ssl os (ssl_get_fd S s) t ?op w = Some r"
      "budget (env (snd (snd r))) \<le> budget (env w)" by (rule returnsE)
    then obtain rc n w1 where p: "pump_ssl os (ssl_get_fd S s) t ?op w = Some (rc, n, w1)"
      and b: "budget (env w1) \<le> budget (env w)" by (cases r) simp
    show ?thesis
    proof (cases "rc = kOk")
      case False
      with True p b show ?thesis by (subst tls_write_exact.simps) (simp add: returns_Some)
    next
      case rc: True
      with pump_ssl_pumped [OF p quiet_fail_ops(2)] obtain v m where v: "n = Some m"
        "?op v = (SslDone m, w1)" by (auto simp: pumped_def)
      then have "length buf - (k + m) < length buf - k"
        using ssl_boundedD(2) [OF sb v(2)] True by linarith
      from returns_le [OF less [OF this] b] rc True p v(1) show ?thesis
        by (subst tls_write_exact.simps) simp
    qed
  qed
qed

section \<open>The contracts of the message layer, over TLS\<close>

interpretation tls_rd: exact_reader
    "\<lambda>n a w. tls_read_exact os S s n t a [] w" "EvTlsRead (ssl_get_fd S s)" "ssl_bounded S"
    "\<lambda>budget. finite_interrupts os budget \<and> ssl_live S budget \<and> ssl_bounded S"
  for os S s t
proof
  show "tls_read_exact os S s n t a [] w = Some r \<Longrightarrow>
      read_result (EvTlsRead (ssl_get_fd S s)) n [] w r" for n a w r
    by (rule tls_read_exact_result)
  show "ssl_bounded S \<Longrightarrow> tls_read_exact os S s n t a [] w = Some r \<Longrightarrow> length (fst (snd r)) \<le> n"
    for n a w r
    by (erule tls_read_exact_bounded) simp_all
  show "finite_interrupts os budget \<and> ssl_live S budget \<and> ssl_bounded S \<Longrightarrow>
      returns budget w (tls_read_exact os S s n t a [] w) (\<lambda>r. snd (snd r))" for budget w n a
    by (simp add: tls_read_exact_returns)
qed

interpretation tls_wr: exact_writer
    "\<lambda>buf w. tls_write_exact os S s buf t 0 w" "EvTlsWrite (ssl_get_fd S s)"
    "\<lambda>budget. finite_interrupts os budget \<and> ssl_live S budget \<and> ssl_bounded S"
  for os S s t
  by unfold_locales (auto intro: tls_write_exact_result tls_write_exact_returns)

lemma stream_read_framed:
  "st_ssl st = Some s \<Longrightarrow> stream_read_message os S e st out mx t w =
     read_framed (\<lambda>hdr. unat (bswap32 (memcpy_u32 e hdr)))
       (\<lambda>n a w. tls_read_exact os S s n t a [] w) out mx w"
  unfolding stream_read_message_def read_framed_def Let_def by simp

lemma stream_write_framed:
  "st_ssl st = Some s \<Longrightarrow> stream_write_message os S e st data t w =
     write_framed (\<lambda>n. memcpy_hdr e (bswap32 (of_nat n)))
       (\<lambda>buf w. tls_write_exact os S s buf t 0 w) data w"
  unfolding stream_write_message_def write_framed_def Let_def by simp

text \<open>On a little-endian host the hand-written swap of \<open>tls.cpp\<close> is \<open>ntohl\<close>.\<close>

lemma stream_read_outcome:
  assumes "st_ssl st = Some s" and "ssl_bounded S"
    and "stream_read_message os S Little st out mx t w = Some (r, out', w')"
  shows "\<exists>bs. transferred (EvTlsRead (ssl_get_fd S s)) w bs w' \<and> frame_outcome Little mx out bs r out'"
proof (rule tls_rd.read_framed_outcome [OF assms(2) _ assms(3) [unfolded stream_read_framed [OF assms(1)]]])
  show "length h = 4 \<Longrightarrow> unat (bswap32 (memcpy_u32 Little h)) = be_value h" for h
    using ntohl_memcpy [of h Little] by simp
qed

lemma stream_write_written:
  assumes "st_ssl st = Some s" and "stream_write_message os S Little st data t w = Some (r, w')"
  shows "message_written (EvTlsWrite (ssl_get_fd S s)) data w r w'"
proof (rule tls_wr.write_framed_written [OF _ assms(2) [unfolded stream_write_framed [OF assms(1)]]])
  show "n < 4294967296 \<Longrightarrow> memcpy_hdr Little (bswap32 (of_nat n)) = be_bytes n" for n
    using memcpy_htonl [of n Little] by (simp add: htonl_def)
qed

lemma stream_read_returns:
  assumes "finite_interrupts os budget" and "ssl_live S budget" and "ssl_bounded S" and "recv_bounded os"
  shows "returns budget w (stream_read_message os S e st out mx t w) (\<lambda>r. snd (snd r))"
proof (cases "st_ssl st")
  case None
  with read_message_returns [OF assms(1,4)] show ?thesis by (simp add: stream_read_message_def)
next
  case (Some s)
  show ?thesis
    unfolding stream_read_framed [OF Some] by (rule tls_rd.read_framed_returns) (simp add: assms)
qed

lemma stream_write_returns:
  assumes "finite_interrupts os budget" and "ssl_live S budget" and "ssl_bounded S"
  shows "returns budget w (stream_write_message os S e st data t w) snd"
proof (cases "st_ssl st")
  case None
  with write_message_returns [OF assms(1)] show ?thesis by (simp add: stream_write_message_def)
next
  case (Some s)
  show ?thesis
    unfolding stream_write_framed [OF Some] by (rule tls_wr.write_framed_returns) (simp add: assms)
qed

section \<open>Who closes the client's descriptor\<close>

lemma free_and_close_did:
  "free_and_close os S s f w = Some (r, w') \<Longrightarrow> 0 \<le> f \<Longrightarrow> r = None \<and> did w [EvClose f] w'"
  by (auto simp: free_and_close_def did_def elim!: bind_SomeE dest!: safe_close_did)

lemma accept_handshake_did:
  assumes "accept_handshake os S ctx f t w = Some (r, w')" and "0 \<le> f"
  shows "did w (if r = None then [EvClose f] else []) w'"
    and "r = Some s \<Longrightarrow> ssl_binds S \<Longrightarrow> ssl_get_fd S s = f"
proof -
  obtain so w1 where n: "sys_env (ssl_new S) w = (so, w1)" by fastforce
  note d1 = did_sys_env [OF n]
  consider (no_ctx) "\<not> ctx" | (no_ssl) "ctx" "so = None" | (ssl) x where "ctx" "so = Some x" by auto
  then have "did w (if r = None then [EvClose f] else []) w' \<and>
    (r = Some s \<longrightarrow> ssl_binds S \<longrightarrow> ssl_get_fd S s = f)"
  proof cases
    case no_ctx
    with assms show ?thesis
      by (auto simp: accept_handshake_def elim!: bind_SomeE dest!: safe_close_did)
  next
    case no_ssl
    with assms n d1 show ?thesis
      by (auto simp: accept_handshake_def elim!: bind_SomeE dest!: safe_close_did intro: did_silent)
  next
    case (ssl x)
    obtain nb w2 where nb: "set_nonblocking os f True w1 = (nb, w2)" by fastforce
    note d2 = did_silent [OF d1 set_nonblocking_did [OF nb]]
    obtain okfd w3 where sf: "sys_env (ssl_set_fd S x f) w2 = (okfd, w3)" by fastforce
    note d3 = did_silent [OF d2 did_sys_env [OF sf]]
    have bind: "okfd \<Longrightarrow> ssl_binds S \<Longrightarrow> ssl_get_fd S x = f"
      using sf unfolding ssl_binds_def sys_env_def by (auto split: prod.splits) (metis fst_conv)
    show ?thesis
    proof (cases "nb \<and> okfd")
      case False
      with assms ssl n nb sf d2 d3 show ?thesis
        by (auto simp: accept_handshake_def dest!: free_and_close_did intro: did_silent split: if_splits)
    next
      case True
      with assms ssl n nb sf obtain rc u w4
        where p: "pump_ssl os f t (sys_env (ssl_accept S x)) w3 = Some (rc, u, w4)"
        and rest: "(if rc \<noteq> kOk then free_and_close os S x f w4 else Some (Some x, w4)) = Some (r, w')"
        by (auto simp: accept_handshake_def elim!: bind_SomeE)
      have "did w3 [] w4"
        using pump_ssl_pumped [OF p quiet_fail_ops(3)]
        by (auto simp: pumped_def split: if_splits dest!: did_sys_env intro: did_silent)
      note d4 = did_silent [OF d3 this]
      from rest True bind assms(2) d4 show ?thesis
        by (auto split: if_splits dest!: free_and_close_did intro: did_silent)
    qed
  qed
  then show "did w (if r = None then [EvClose f] else []) w'"
    and "r = Some s \<Longrightarrow> ssl_binds S \<Longrightarrow> ssl_get_fd S s = f" by blast+
qed

lemma close_stream_cases:
  assumes "close_stream os S st w = Some (st', w')"
  shows "st_ssl st' = None \<and> st_fd st' < 0 \<and>
    (\<exists>v. did w [] v \<and> safe_close os (underlying_fd S st) v = Some w')"
proof (cases "st_ssl st")
  case None
  with assms show ?thesis
    by (auto simp: close_stream_def underlying_fd_def safe_close_def elim!: bind_SomeE
        intro!: exI [of _ w] split: if_splits)
next
  case (Some s)
  let ?v = "w\<lparr>env := ssl_free S s (ssl_shutdown S s (env w))\<rparr>"
  from Some assms have "safe_close os (ssl_get_fd S s) ?v = Some w' \<and> st_ssl st' = None \<and> st_fd st' < 0"
    by (auto simp: close_stream_def Let_def safe_close_def elim!: bind_SomeE split: if_splits)
  then show ?thesis using Some by (auto simp: underlying_fd_def intro!: exI [of _ ?v])
qed

lemma close_stream_did:
  assumes "close_stream os S st w = Some (st', w')"
  shows "did w (if underlying_fd S st < 0 then [] else [EvClose (underlying_fd S st)]) w'"
  using close_stream_cases [OF assms] did_silent safe_close_did by blast

lemma close_stream_again:
  assumes "close_stream os S st w = Some (st', w')"
  shows "close_stream os S st' v = Some (st', v)"
  using close_stream_cases [OF assms] by (simp add: close_stream_def)

lemma close_stream_returns:
  assumes "finite_interrupts os budget" and "ssl_live S budget"
  shows "returns budget w (close_stream os S st w) snd"
proof -
  have b: "budget (ssl_free S s (ssl_shutdown S s (env w))) \<le> budget (env w)" for s
    using assms(2) by (simp add: ssl_live_def) (meson order_trans)
  show ?thesis
    using b
    by (auto simp: close_stream_def Let_def returns_Some split: option.splits
        intro!: close_then_returns [OF assms(1)])
qed

lemma accept_handshake_returns:
  assumes "finite_interrupts os budget" and "ssl_live S budget"
  shows "returns budget w (accept_handshake os S ctx f t w) snd"
proof -
  have free: "returns budget v (free_and_close os S s f w1) snd"
    if "budget (env w1) \<le> budget (env v)" for v w1 s
  proof -
    have "budget (ssl_free S s (env w1)) \<le> budget (env v)"
      using assms(2) that by (simp add: ssl_live_def) (meson order_trans)
    then show ?thesis
      by (auto simp: free_and_close_def returns_Some intro!: close_then_returns [OF assms(1)])
  qed
  obtain so w1 where n: "sys_env (ssl_new S) w = (so, w1)" by fastforce
  have b1: "budget (env w1) \<le> budget (env w)"
    using sys_env_budget [OF n, of budget] assms(2) by (simp add: ssl_live_def)
  obtain nb w2 where nb: "set_nonblocking os f True w1 = (nb, w2)" by fastforce
  have b2: "budget (env w2) \<le> budget (env w)"
    using set_nonblocking_budget [OF assms(1), of f True w1] nb b1 by simp
  have sf: "budget (env (snd (sys_env (ssl_set_fd S s f) w2))) \<le> budget (env w)" for s
    using sys_env_budget [of "ssl_set_fd S s f" w2 _ _ budget] assms(2) b2
    by (cases "sys_env (ssl_set_fd S s f) w2") (fastforce simp: ssl_live_def)
  have pump: "returns budget w (Option.bind (pump_ssl os f t (sys_env (ssl_accept S s)) w3)
      (\<lambda>(rc, u, w4). if rc \<noteq> kOk then free_and_close os S s f w4 else Some (Some s, w4))) snd"
    if "budget (env w3) \<le> budget (env w)" for s w3
    by (rule returns_le [OF _ that], rule returns_bind
        [OF pump_ssl_returns [OF assms(1) ssl_liveD(3) [OF assms(2)]]])
      (auto intro!: free returns_Some)
  show ?thesis
    using b1 b2 sf n nb
    by (auto simp: accept_handshake_def returns_Some split: option.splits prod.splits
        intro!: close_then_returns [OF assms(1)] free pump) (metis snd_conv)+
qed

section \<open>The server context\<close>

text \<open>
  \<open>TlsContext::init_server\<close>. What the OpenSSL calls on the context return is a parameter;
  the context keeps the settings the code makes. On an error after \<open>SSL_CTX_new\<close> the
  half-configured context stays in \<open>ctx_\<close>.
\<close>

record tls_options =
  cert_path :: string
  key_path :: string
  client_ca_path :: string
  require_client_cert :: bool

datatype verify_mode = SSL_VERIFY_NONE | SSL_VERIFY_PEER bool

record tls_ctx =
  min_proto :: string
  modes :: "string list"
  chain_file :: "string option"
  private_key_file :: "string option"
  verify_locations :: "string option"
  client_ca_list :: bool
  verify :: "verify_mode option"

record ctx_calls =
  call_new :: bool
  call_chain_file :: "string \<Rightarrow> bool"
  call_key_file :: "string \<Rightarrow> bool"
  call_check_key :: bool
  call_load_verify :: "string \<Rightarrow> bool"
  call_load_ca :: "string \<Rightarrow> bool"

definition new_ctx :: tls_ctx where
  "new_ctx = \<lparr>min_proto = ''TLS1.2'', modes = [''AUTO_RETRY'', ''ENABLE_PARTIAL_WRITE''],
     chain_file = None, private_key_file = None, verify_locations = None, client_ca_list = False,
     verify = None\<rparr>"

definition init_server :: "ctx_calls \<Rightarrow> tls_options \<Rightarrow> bool \<times> tls_ctx option" where
  "init_server c o' =
     (if cert_path o' = [] \<or> key_path o' = [] then (False, None)
      else if \<not> call_new c then (False, None)
      else let x0 = new_ctx in
        if \<not> call_chain_file c (cert_path o') then (False, Some x0)
        else let x1 = x0\<lparr>chain_file := Some (cert_path o')\<rparr> in
          if \<not> call_key_file c (key_path o') then (False, Some x1)
          else let x2 = x1\<lparr>private_key_file := Some (key_path o')\<rparr> in
            if \<not> call_check_key c then (False, Some x2)
            else if client_ca_path o' \<noteq> [] then
              (if \<not> call_load_verify c (client_ca_path o') then (False, Some x2)
               else let x3 = x2\<lparr>verify_locations := Some (client_ca_path o')\<rparr>;
                        x4 = (if call_load_ca c (client_ca_path o') then x3\<lparr>client_ca_list := True\<rparr> else x3)
                    in (True, Some (x4\<lparr>verify := Some (SSL_VERIFY_PEER (require_client_cert o'))\<rparr>)))
            else (True, Some (x2\<lparr>verify := Some SSL_VERIFY_NONE\<rparr>)))"

text \<open>
  The library's set-up runs once in a process (\<open>std::call_once\<close>): from whether it has run to the calls made now.
  The destructor of the context frees it, if there is one: the context after it, and whether \<open>SSL_CTX_free\<close> is called.
\<close>

definition tls_global_init :: "bool \<Rightarrow> string list \<times> bool" where
  "tls_global_init init_done =
     ((if init_done then [] else [''SSL_load_error_strings'', ''OpenSSL_add_ssl_algorithms'']), True)"

definition destroy_ctx :: "tls_ctx option \<Rightarrow> tls_ctx option \<times> bool" where
  "destroy_ctx ctx = (case ctx of Some x \<Rightarrow> (None, True) | None \<Rightarrow> (None, False))"

text \<open>
  The errors that OpenSSL has queued on the thread, as the lines the code logs for them, and the queue left.
  \<open>err_string\<close> is \<open>ERR_error_string_n\<close>, whose buffer has 256 bytes.
\<close>

fun log_openssl_error :: "(u64 \<Rightarrow> string) \<Rightarrow> string \<Rightarrow> u64 list \<Rightarrow> string list \<times> u64 list" where
  "log_openssl_error err_string p [] = ([], [])"
| "log_openssl_error err_string p (e # queue) =
     (if e = 0 then ([], queue)
      else case log_openssl_error err_string p queue of (ls, rest) \<Rightarrow> ((p @ '': '' @ take 255 (err_string e)) # ls, rest))"

lemma log_openssl_error_drains:
  "0 \<notin> set queue \<Longrightarrow> log_openssl_error err_string p queue = (map (\<lambda>e. p @ '': '' @ take 255 (err_string e)) queue, [])"
  by (induction queue) auto

text \<open>Every context that \<open>init_server\<close> makes, configured or not, is freed, and once.\<close>

lemma destroy_init_server:
  "snd (destroy_ctx (snd (init_server c o'))) \<longleftrightarrow> cert_path o' \<noteq> [] \<and> key_path o' \<noteq> [] \<and> call_new c"
  "destroy_ctx (fst (destroy_ctx x)) = (None, False)"
  by (auto simp: destroy_ctx_def init_server_def Let_def split: option.splits if_splits)

section \<open>An echoing TLS session\<close>

text \<open>The echo world seen through TLS: the session of descriptor 7 is the session 7.\<close>

definition echo_ssl :: "inboxes openssl" where
  "echo_ssl = \<lparr>ssl_new = (\<lambda>e. (Some 7, e)), ssl_set_fd = (\<lambda>s f e. (s = f, e)), ssl_get_fd = (\<lambda>s. s),
     ssl_accept = (\<lambda>s e. (SslDone (), e)),
     ssl_read = (\<lambda>s n e. if e s = [] then (SslFail True SSL_ERROR_ZERO_RETURN, e)
       else if n \<le> 0 then (SslFail False SSL_ERROR_SSL, e)
       else (SslDone (take (nat n) (e s)), e(s := drop (nat n) (e s)))),
     ssl_write = (\<lambda>s bs n e. if n \<le> 0 then (SslFail False SSL_ERROR_SSL, e)
       else (SslDone (nat n), e(s := e s @ take (nat n) bs))),
     ssl_shutdown = (\<lambda>s e. e), ssl_free = (\<lambda>s e. e)\<rparr>"

lemma echo_ssl_laws [simp]:
  "ssl_bounded echo_ssl" "ssl_live echo_ssl (\<lambda>_. 0)" "ssl_binds echo_ssl"
  by (auto simp: ssl_bounded_def ssl_live_def ssl_binds_def echo_ssl_def split: if_splits)

lemma echo_ssl_calls [simp]:
  "ssl_get_fd echo_ssl s = s" "sys_env (ssl_new echo_ssl) w = (Some 7, w)"
  "sys_env (ssl_set_fd echo_ssl s f) w = (s = f, w)" "sys_env (ssl_accept echo_ssl s) w = (SslDone (), w)"
  "ssl_free echo_ssl s e = e" "ssl_shutdown echo_ssl s e = e"
  by (simp_all add: echo_ssl_def sys_env_def)

lemma echo_pump: "op w = (SslDone x, w') \<Longrightarrow> pump_ssl echo_os f t op w = Some (kOk, Some x, w')"
  by (simp add: pump_ssl_def pump_loop.simps [of echo_os])

section \<open>Properties of the TLS layer\<close>


lemma echo_tls_read_eof:
  "0 < n \<Longrightarrow> env w 7 = [] \<Longrightarrow> tls_read_exact echo_os echo_ssl 7 n t a [] w = Some (kPeerClosed, [], w)"
  by (subst tls_read_exact.simps)
    (simp add: pump_ssl_def pump_loop.simps [of echo_os] sys_ssl_read_def echo_ssl_def emit_def)


text \<open>
  The byte swap that \<open>tls.cpp\<close> writes out agrees with the \<open>htonl\<close> of the plain path for
  every length exactly on little-endian hosts. On a big-endian host the two overloads of
  \<open>write_message\<close> speak different protocols.
\<close>

lemma tls_header_portable_iff:
  "(\<lambda>n. memcpy_hdr e (bswap32 n)) = (\<lambda>n. memcpy_hdr e (htonl e n)) \<longleftrightarrow> e = Little"
proof (cases e)
  case Little
  then show ?thesis by (simp add: htonl_def)
next
  case Big
  have "memcpy_hdr Big (bswap32 1) \<noteq> memcpy_hdr Big (htonl Big 1)"
    by (simp add: bswap32_def htonl_def u32_byte_def)
  with Big show ?thesis by (metis endian.distinct(1))
qed

text \<open>
  When \<open>init_server\<close> succeeds, the context has the certificate and the key that were asked for,
  speaks at least TLS 1.2, and verifies clients exactly when a CA bundle was given; a client
  without certificate is rejected exactly when, in addition, \<open>require_client_cert\<close> is set.
\<close>

lemma init_server_configures:
  assumes "init_server c o' = (True, x)"
  shows "\<exists>ctx. x = Some ctx \<and> min_proto ctx = ''TLS1.2'' \<and> chain_file ctx = Some (cert_path o') \<and>
    private_key_file ctx = Some (key_path o') \<and> cert_path o' \<noteq> [] \<and> key_path o' \<noteq> [] \<and>
    verify ctx = Some (if client_ca_path o' = [] then SSL_VERIFY_NONE
      else SSL_VERIFY_PEER (require_client_cert o')) \<and>
    (verify_locations ctx = (if client_ca_path o' = [] then None else Some (client_ca_path o')))"
proof -
  from assms have ok: "cert_path o' \<noteq> []" "key_path o' \<noteq> []" "call_new c" "call_chain_file c (cert_path o')"
    "call_key_file c (key_path o')" "call_check_key c"
    "client_ca_path o' = [] \<or> call_load_verify c (client_ca_path o')"
    by (auto simp: init_server_def Let_def split: if_split_asm)
  from assms show ?thesis
    by (cases "client_ca_path o' = []") (use ok in \<open>auto simp: init_server_def new_ctx_def Let_def\<close>)
qed

definition demo_calls :: ctx_calls where
  "demo_calls = \<lparr>call_new = True, call_chain_file = (\<lambda>_. True), call_key_file = (\<lambda>_. True),
     call_check_key = True, call_load_verify = (\<lambda>_. True), call_load_ca = (\<lambda>_. False)\<rparr>"

end
