(* ===== verification/Handler.thy ===== *)
theory Handler
  imports Backend_Set Tls
begin

text \<open>
  \<open>src/src/handler.{h,cpp}\<close>: one request from the accepted descriptor to its close. The
  sources contain the same control flow four times, for a plain or a TLS client and for a
  \<open>BackendPool\<close> or a \<open>BackendSet\<close>; the four definitions \<open>pool_plain\<close>, \<open>pool_tls\<close>,
  \<open>set_plain\<close>, \<open>set_tls\<close> are the four branches as they are written, and each is shown to
  be an instance of \<open>relay\<close>. What a relayed request does is proved once, in the locale
  \<open>relay_ops\<close>, which states what the handler needs of its client and of its backend.
\<close>

section \<open>Options and the common steps\<close>

text \<open>\<open>server_tls\<close>: None is the null pointer, \<open>Some c\<close> a context whose \<open>ctx_\<close> is set iff \<open>c\<close>.\<close>

record handler_options =
  max_payload :: nat
  client_io_timeout_ms :: int
  backend_io_timeout_ms :: int
  server_tls :: "bool option"
  tls_handshake_timeout_ms :: int

definition default_handler_options :: handler_options where
  "default_handler_options = \<lparr>max_payload = 16 * 1024 * 1024, client_io_timeout_ms = 5000,
     backend_io_timeout_ms = 5000, server_tls = None, tls_handshake_timeout_ms = 5000\<rparr>"

definition c_str :: "string \<Rightarrow> bytes" where "c_str s = map of_char s"

text \<open>The error replies are best effort: their status is ignored.\<close>

definition reply_error_plain ::
    "'e os \<Rightarrow> endian \<Rightarrow> fd \<Rightarrow> string \<Rightarrow> int \<Rightarrow> 'e world \<Rightarrow> 'e world option" where
  "reply_error_plain os e f msg timeout_ms w =
     do { (st, w1) \<leftarrow> write_message os e f (c_str msg) timeout_ms w; Some w1 }"

definition reply_error_tls ::
    "'e os \<Rightarrow> 'e openssl \<Rightarrow> endian \<Rightarrow> ssl \<Rightarrow> string \<Rightarrow> int \<Rightarrow> 'e world \<Rightarrow> 'e world option" where
  "reply_error_tls os S e s msg timeout_ms w =
     do { (st, w1) \<leftarrow> stream_write_message os S e (stream_tls S (Some s)) (c_str msg) timeout_ms w;
          Some w1 }"

text \<open>The end of every path: count the outcome, close the client, leave \<open>in_flight\<close>.\<close>

definition finish_plain :: "'e os \<Rightarrow> fd \<Rightarrow> metric_op \<Rightarrow> 'e world \<Rightarrow> 'e world option" where
  "finish_plain os f op w =
     do { w1 \<leftarrow> safe_close os f (metric op w); Some (metric Dec_in_flight w1) }"

definition finish_tls ::
    "'e os \<Rightarrow> 'e openssl \<Rightarrow> stream \<Rightarrow> metric_op \<Rightarrow> 'e world \<Rightarrow> 'e world option" where
  "finish_tls os S client op w =
     do { (st, w1) \<leftarrow> close_stream os S client (metric op w); Some (metric Dec_in_flight w1) }"

section \<open>The four branches\<close>

definition pool_plain ::
    "(int \<Rightarrow> pool \<Rightarrow> 'e \<Rightarrow> bool \<times> pool \<times> 'e) \<Rightarrow> 'e os \<Rightarrow> ('a, 'e) netdb \<Rightarrow> endian \<Rightarrow>
       handler_options \<Rightarrow> fd \<Rightarrow> pool \<Rightarrow> 'e world \<Rightarrow> (pool \<times> 'e world) option" where
  "pool_plain cv os nd e h f b w =
     do {
       (r, req, w1) \<leftarrow> read_message os e f [] (max_payload h) (client_io_timeout_ms h) w;
       if r \<noteq> kOk then do { w2 \<leftarrow> finish_plain os f Inc_errored w1; Some (b, w2) }
       else do {
         (res, b1, w2) \<leftarrow> borrow cv os nd b w1;
         if borrow_fd res < 0 then do {
           w3 \<leftarrow> reply_error_plain os e f ''ERR backend unavailable'' (client_io_timeout_ms h) w2;
           w4 \<leftarrow> finish_plain os f Inc_errored w3;
           Some (b1, w4)
         }
         else do {
           (wr, w3) \<leftarrow> write_message os e (borrow_fd res) req (backend_io_timeout_ms h) w2;
           if wr \<noteq> kOk then do {
             w4 \<leftarrow> reply_error_plain os e f ''ERR backend write'' (client_io_timeout_ms h) w3;
             (b2, w5) \<leftarrow> release os (borrow_fd res) False b1 w4;
             w6 \<leftarrow> finish_plain os f Inc_errored w5;
             Some (b2, w6)
           }
           else do {
             (rr, resp, w4) \<leftarrow> read_message os e (borrow_fd res) [] (max_payload h) (backend_io_timeout_ms h) w3;
             if rr \<noteq> kOk then do {
               w5 \<leftarrow> reply_error_plain os e f ''ERR backend read'' (client_io_timeout_ms h) w4;
               (b2, w6) \<leftarrow> release os (borrow_fd res) False b1 w5;
               w7 \<leftarrow> finish_plain os f Inc_errored w6;
               Some (b2, w7)
             }
             else do {
               (cw, w5) \<leftarrow> write_message os e f resp (client_io_timeout_ms h) w4;
               (b2, w6) \<leftarrow> release os (borrow_fd res) True b1 w5;
               if cw \<noteq> kOk then do { w7 \<leftarrow> finish_plain os f Inc_errored w6; Some (b2, w7) }
               else do { w7 \<leftarrow> finish_plain os f Inc_completed w6; Some (b2, w7) }
             }
           }
         }
       }
     }"

definition pool_tls ::
    "(int \<Rightarrow> pool \<Rightarrow> 'e \<Rightarrow> bool \<times> pool \<times> 'e) \<Rightarrow> 'e os \<Rightarrow> ('a, 'e) netdb \<Rightarrow> 'e openssl \<Rightarrow> endian \<Rightarrow>
       handler_options \<Rightarrow> ssl \<Rightarrow> pool \<Rightarrow> 'e world \<Rightarrow> (pool \<times> 'e world) option" where
  "pool_tls cv os nd S e h s b w =
     (let client = stream_tls S (Some s) in
     do {
       (r, req, w1) \<leftarrow> stream_read_message os S e client [] (max_payload h) (client_io_timeout_ms h) w;
       if r \<noteq> kOk then do { w2 \<leftarrow> finish_tls os S client Inc_errored w1; Some (b, w2) }
       else do {
         (res, b1, w2) \<leftarrow> borrow cv os nd b w1;
         if borrow_fd res < 0 then do {
           w3 \<leftarrow> reply_error_tls os S e s ''ERR backend unavailable'' (client_io_timeout_ms h) w2;
           w4 \<leftarrow> finish_tls os S client Inc_errored w3;
           Some (b1, w4)
         }
         else do {
           (wr, w3) \<leftarrow> write_message os e (borrow_fd res) req (backend_io_timeout_ms h) w2;
           if wr \<noteq> kOk then do {
             w4 \<leftarrow> reply_error_tls os S e s ''ERR backend write'' (client_io_timeout_ms h) w3;
             (b2, w5) \<leftarrow> release os (borrow_fd res) False b1 w4;
             w6 \<leftarrow> finish_tls os S client Inc_errored w5;
             Some (b2, w6)
           }
           else do {
             (rr, resp, w4) \<leftarrow> read_message os e (borrow_fd res) [] (max_payload h) (backend_io_timeout_ms h) w3;
             if rr \<noteq> kOk then do {
               w5 \<leftarrow> reply_error_tls os S e s ''ERR backend read'' (client_io_timeout_ms h) w4;
               (b2, w6) \<leftarrow> release os (borrow_fd res) False b1 w5;
               w7 \<leftarrow> finish_tls os S client Inc_errored w6;
               Some (b2, w7)
             }
             else do {
               (cw, w5) \<leftarrow> stream_write_message os S e client resp (client_io_timeout_ms h) w4;
               (b2, w6) \<leftarrow> release os (borrow_fd res) True b1 w5;
               if cw \<noteq> kOk then do { w7 \<leftarrow> finish_tls os S client Inc_errored w6; Some (b2, w7) }
               else do { w7 \<leftarrow> finish_tls os S client Inc_completed w6; Some (b2, w7) }
             }
           }
         }
       }
     })"

definition set_plain ::
    "(int \<Rightarrow> pool \<Rightarrow> 'e \<Rightarrow> bool \<times> pool \<times> 'e) \<Rightarrow> 'e os \<Rightarrow> ('a, 'e) netdb \<Rightarrow> endian \<Rightarrow>
       handler_options \<Rightarrow> fd \<Rightarrow> backend_set \<Rightarrow> 'e world \<Rightarrow> (backend_set \<times> 'e world) option" where
  "set_plain cv os nd e h f b w =
     do {
       (r, req, w1) \<leftarrow> read_message os e f [] (max_payload h) (client_io_timeout_ms h) w;
       if r \<noteq> kOk then do { w2 \<leftarrow> finish_plain os f Inc_errored w1; Some (b, w2) }
       else do {
         (handle, b1, w2) \<leftarrow> set_borrow cv os nd b w1;
         if h_fd handle < 0 then do {
           w3 \<leftarrow> reply_error_plain os e f ''ERR backend unavailable'' (client_io_timeout_ms h) w2;
           w4 \<leftarrow> finish_plain os f Inc_errored w3;
           Some (b1, w4)
         }
         else do {
           (wr, w3) \<leftarrow> write_message os e (h_fd handle) req (backend_io_timeout_ms h) w2;
           if wr \<noteq> kOk then do {
             w4 \<leftarrow> reply_error_plain os e f ''ERR backend write'' (client_io_timeout_ms h) w3;
             (b2, w5) \<leftarrow> set_release os handle False b1 w4;
             w6 \<leftarrow> finish_plain os f Inc_errored w5;
             Some (b2, w6)
           }
           else do {
             (rr, resp, w4) \<leftarrow> read_message os e (h_fd handle) [] (max_payload h) (backend_io_timeout_ms h) w3;
             if rr \<noteq> kOk then do {
               w5 \<leftarrow> reply_error_plain os e f ''ERR backend read'' (client_io_timeout_ms h) w4;
               (b2, w6) \<leftarrow> set_release os handle False b1 w5;
               w7 \<leftarrow> finish_plain os f Inc_errored w6;
               Some (b2, w7)
             }
             else do {
               (cw, w5) \<leftarrow> write_message os e f resp (client_io_timeout_ms h) w4;
               (b2, w6) \<leftarrow> set_release os handle True b1 w5;
               if cw \<noteq> kOk then do { w7 \<leftarrow> finish_plain os f Inc_errored w6; Some (b2, w7) }
               else do { w7 \<leftarrow> finish_plain os f Inc_completed w6; Some (b2, w7) }
             }
           }
         }
       }
     }"

definition set_tls ::
    "(int \<Rightarrow> pool \<Rightarrow> 'e \<Rightarrow> bool \<times> pool \<times> 'e) \<Rightarrow> 'e os \<Rightarrow> ('a, 'e) netdb \<Rightarrow> 'e openssl \<Rightarrow> endian \<Rightarrow>
       handler_options \<Rightarrow> ssl \<Rightarrow> backend_set \<Rightarrow> 'e world \<Rightarrow> (backend_set \<times> 'e world) option" where
  "set_tls cv os nd S e h s b w =
     (let client = stream_tls S (Some s) in
     do {
       (r, req, w1) \<leftarrow> stream_read_message os S e client [] (max_payload h) (client_io_timeout_ms h) w;
       if r \<noteq> kOk then do { w2 \<leftarrow> finish_tls os S client Inc_errored w1; Some (b, w2) }
       else do {
         (handle, b1, w2) \<leftarrow> set_borrow cv os nd b w1;
         if h_fd handle < 0 then do {
           w3 \<leftarrow> reply_error_tls os S e s ''ERR backend unavailable'' (client_io_timeout_ms h) w2;
           w4 \<leftarrow> finish_tls os S client Inc_errored w3;
           Some (b1, w4)
         }
         else do {
           (wr, w3) \<leftarrow> write_message os e (h_fd handle) req (backend_io_timeout_ms h) w2;
           if wr \<noteq> kOk then do {
             w4 \<leftarrow> reply_error_tls os S e s ''ERR backend write'' (client_io_timeout_ms h) w3;
             (b2, w5) \<leftarrow> set_release os handle False b1 w4;
             w6 \<leftarrow> finish_tls os S client Inc_errored w5;
             Some (b2, w6)
           }
           else do {
             (rr, resp, w4) \<leftarrow> read_message os e (h_fd handle) [] (max_payload h) (backend_io_timeout_ms h) w3;
             if rr \<noteq> kOk then do {
               w5 \<leftarrow> reply_error_tls os S e s ''ERR backend read'' (client_io_timeout_ms h) w4;
               (b2, w6) \<leftarrow> set_release os handle False b1 w5;
               w7 \<leftarrow> finish_tls os S client Inc_errored w6;
               Some (b2, w7)
             }
             else do {
               (cw, w5) \<leftarrow> stream_write_message os S e client resp (client_io_timeout_ms h) w4;
               (b2, w6) \<leftarrow> set_release os handle True b1 w5;
               if cw \<noteq> kOk then do { w7 \<leftarrow> finish_tls os S client Inc_errored w6; Some (b2, w7) }
               else do { w7 \<leftarrow> finish_tls os S client Inc_completed w6; Some (b2, w7) }
             }
           }
         }
       }
     })"

section \<open>The two overloads\<close>

definition handle_one_pool ::
    "(int \<Rightarrow> pool \<Rightarrow> 'e \<Rightarrow> bool \<times> pool \<times> 'e) \<Rightarrow> 'e os \<Rightarrow> ('a, 'e) netdb \<Rightarrow> 'e openssl \<Rightarrow> endian \<Rightarrow>
       handler_options \<Rightarrow> fd \<Rightarrow> pool \<Rightarrow> 'e world \<Rightarrow> (pool \<times> 'e world) option" where
  "handle_one_pool cv os nd S e h f b w0 =
     (let w = metric Inc_in_flight w0 in
      case server_tls h of
        None \<Rightarrow> pool_plain cv os nd e h f b w
      | Some ctx \<Rightarrow> do {
          (so, w1) \<leftarrow> accept_handshake os S ctx f (tls_handshake_timeout_ms h) w;
          case so of
            None \<Rightarrow> Some (b, metric Dec_in_flight (metric Inc_errored w1))
          | Some s \<Rightarrow> pool_tls cv os nd S e h s b w1
        })"

definition handle_one_set ::
    "(int \<Rightarrow> pool \<Rightarrow> 'e \<Rightarrow> bool \<times> pool \<times> 'e) \<Rightarrow> 'e os \<Rightarrow> ('a, 'e) netdb \<Rightarrow> 'e openssl \<Rightarrow> endian \<Rightarrow>
       handler_options \<Rightarrow> fd \<Rightarrow> backend_set \<Rightarrow> 'e world \<Rightarrow> (backend_set \<times> 'e world) option" where
  "handle_one_set cv os nd S e h f b w0 =
     (let w = metric Inc_in_flight w0 in
      case server_tls h of
        None \<Rightarrow> set_plain cv os nd e h f b w
      | Some ctx \<Rightarrow> do {
          (so, w1) \<leftarrow> accept_handshake os S ctx f (tls_handshake_timeout_ms h) w;
          case so of
            None \<Rightarrow> Some (b, metric Dec_in_flight (metric Inc_errored w1))
          | Some s \<Rightarrow> set_tls cv os nd S e h s b w1
        })"

section \<open>The shared control flow\<close>

definition relay_served ::
    "'e os \<Rightarrow> endian \<Rightarrow> handler_options \<Rightarrow>
     (bytes \<Rightarrow> 'e world \<Rightarrow> (io_status \<times> 'e world) option) \<Rightarrow> (string \<Rightarrow> 'e world \<Rightarrow> 'e world option) \<Rightarrow>
     (metric_op \<Rightarrow> 'e world \<Rightarrow> 'e world option) \<Rightarrow>
     (bool \<Rightarrow> 'b \<Rightarrow> 'e world \<Rightarrow> ('b \<times> 'e world) option) \<Rightarrow>
     fd \<Rightarrow> bytes \<Rightarrow> 'b \<Rightarrow> 'e world \<Rightarrow> ('b \<times> 'e world) option"
    where
  "relay_served os e h cwr cerr fin rel bf req b1 w2 =
     do {
       (wr, w3) \<leftarrow> write_message os e bf req (backend_io_timeout_ms h) w2;
       if wr \<noteq> kOk then do {
         w4 \<leftarrow> cerr ''ERR backend write'' w3;
         (b2, w5) \<leftarrow> rel False b1 w4;
         w6 \<leftarrow> fin Inc_errored w5;
         Some (b2, w6)
       }
       else do {
         (rr, resp, w4) \<leftarrow> read_message os e bf [] (max_payload h) (backend_io_timeout_ms h) w3;
         if rr \<noteq> kOk then do {
           w5 \<leftarrow> cerr ''ERR backend read'' w4;
           (b2, w6) \<leftarrow> rel False b1 w5;
           w7 \<leftarrow> fin Inc_errored w6;
           Some (b2, w7)
         }
         else do {
           (cw, w5) \<leftarrow> cwr resp w4;
           (b2, w6) \<leftarrow> rel True b1 w5;
           if cw \<noteq> kOk then do { w7 \<leftarrow> fin Inc_errored w6; Some (b2, w7) }
           else do { w7 \<leftarrow> fin Inc_completed w6; Some (b2, w7) }
         }
       }
     }"

definition relay ::
    "'e os \<Rightarrow> endian \<Rightarrow> handler_options \<Rightarrow> ('e world \<Rightarrow> (io_status \<times> bytes \<times> 'e world) option) \<Rightarrow>
     (bytes \<Rightarrow> 'e world \<Rightarrow> (io_status \<times> 'e world) option) \<Rightarrow> (string \<Rightarrow> 'e world \<Rightarrow> 'e world option) \<Rightarrow>
     (metric_op \<Rightarrow> 'e world \<Rightarrow> 'e world option) \<Rightarrow>
     ('b \<Rightarrow> 'e world \<Rightarrow> ('h \<times> 'b \<times> 'e world) option) \<Rightarrow> ('h \<Rightarrow> fd) \<Rightarrow>
     ('h \<Rightarrow> bool \<Rightarrow> 'b \<Rightarrow> 'e world \<Rightarrow> ('b \<times> 'e world) option) \<Rightarrow> 'b \<Rightarrow> 'e world \<Rightarrow> ('b \<times> 'e world) option"
    where
  "relay os e h crd cwr cerr fin bor hfd rel b w =
     do {
       (r, req, w1) \<leftarrow> crd w;
       if r \<noteq> kOk then do { w2 \<leftarrow> fin Inc_errored w1; Some (b, w2) }
       else do {
         (hd, b1, w2) \<leftarrow> bor b w1;
         if hfd hd < 0 then do {
           w3 \<leftarrow> cerr ''ERR backend unavailable'' w2;
           w4 \<leftarrow> fin Inc_errored w3;
           Some (b1, w4)
         }
         else relay_served os e h cwr cerr fin (rel hd) (hfd hd) req b1 w2
       }
     }"

lemma pool_plain_relay:
  "pool_plain cv os nd e h f = relay os e h
     (\<lambda>w. read_message os e f [] (max_payload h) (client_io_timeout_ms h) w)
     (\<lambda>d w. write_message os e f d (client_io_timeout_ms h) w)
     (\<lambda>m w. reply_error_plain os e f m (client_io_timeout_ms h) w)
     (finish_plain os f) (borrow cv os nd) borrow_fd (\<lambda>r ok b w. release os (borrow_fd r) ok b w)"
  by (intro ext) (simp only: pool_plain_def relay_def relay_served_def)

lemma set_plain_relay:
  "set_plain cv os nd e h f = relay os e h
     (\<lambda>w. read_message os e f [] (max_payload h) (client_io_timeout_ms h) w)
     (\<lambda>d w. write_message os e f d (client_io_timeout_ms h) w)
     (\<lambda>m w. reply_error_plain os e f m (client_io_timeout_ms h) w)
     (finish_plain os f) (set_borrow cv os nd) h_fd (set_release os)"
  by (intro ext) (simp only: set_plain_def relay_def relay_served_def)

lemma pool_tls_relay:
  "pool_tls cv os nd S e h s = relay os e h
     (\<lambda>w. stream_read_message os S e (stream_tls S (Some s)) [] (max_payload h) (client_io_timeout_ms h) w)
     (\<lambda>d w. stream_write_message os S e (stream_tls S (Some s)) d (client_io_timeout_ms h) w)
     (\<lambda>m w. reply_error_tls os S e s m (client_io_timeout_ms h) w)
     (finish_tls os S (stream_tls S (Some s)))
     (borrow cv os nd) borrow_fd (\<lambda>r ok b w. release os (borrow_fd r) ok b w)"
  by (intro ext) (simp only: pool_tls_def relay_def relay_served_def Let_def)

lemma set_tls_relay:
  "set_tls cv os nd S e h s = relay os e h
     (\<lambda>w. stream_read_message os S e (stream_tls S (Some s)) [] (max_payload h) (client_io_timeout_ms h) w)
     (\<lambda>d w. stream_write_message os S e (stream_tls S (Some s)) d (client_io_timeout_ms h) w)
     (\<lambda>m w. reply_error_tls os S e s m (client_io_timeout_ms h) w)
     (finish_tls os S (stream_tls S (Some s))) (set_borrow cv os nd) h_fd (set_release os)"
  by (intro ext) (simp only: set_tls_def relay_def relay_served_def Let_def)

section \<open>What a relayed request does\<close>

text \<open>
  The parts of an exchange: the chunks read from the client, what the borrow did, the chunks
  sent to and read from the backend connection, the chunks written to the client, what the
  release did, and the final counter. Every path of the handler is a history of this form
  with some parts empty.
\<close>

record exchange =
  c_in :: "bytes list"
  bor_ev :: "event list"
  b_fd :: fd
  b_out :: "bytes list"
  b_in :: "bytes list"
  c_out :: "bytes list"
  rel_ev :: "event list"
  final :: metric_op

definition exchange_trace :: "(bytes \<Rightarrow> event) \<Rightarrow> (bytes \<Rightarrow> event) \<Rightarrow> fd \<Rightarrow> exchange \<Rightarrow> event list" where
  "exchange_trace Cr Cw f x =
     map Cr (c_in x) @ bor_ev x @ map (EvSend (b_fd x)) (b_out x) @ map (EvRecv (b_fd x)) (b_in x) @
     map Cw (c_out x) @ rel_ev x @ [EvMetric (final x), EvClose f, EvMetric Dec_in_flight]"

definition error_replies :: "bytes set" where
  "error_replies = c_str ` {''ERR backend unavailable'', ''ERR backend write'', ''ERR backend read''}"

text \<open>Events that open and close descriptors and count pool operations, and nothing else.\<close>

definition pool_events :: "event list \<Rightarrow> bool" where
  "pool_events evs \<longleftrightarrow> (\<forall>f. received f evs = [] \<and> sent f evs = [] \<and> tls_read f evs = [] \<and> tls_written f evs = []) \<and>
     set (metric_ops evs) \<subseteq> {Inc_pool_borrow, Inc_pool_create}"

definition completed_ok :: "nat \<Rightarrow> exchange \<Rightarrow> bool" where
  "completed_ok mx x \<longleftrightarrow> final x = Inc_completed \<and>
     (\<exists>req resp. frame_fits mx req \<and> frame_fits mx resp \<and> concat (c_in x) = frame req \<and>
        concat (b_out x) = frame req \<and> concat (b_in x) = frame resp \<and> concat (c_out x) = frame resp)"

definition errored_ok :: "nat \<Rightarrow> exchange \<Rightarrow> bool" where
  "errored_ok mx x \<longleftrightarrow> final x = Inc_errored \<and> prefix (concat (b_out x)) (concat (c_in x)) \<and>
     (\<exists>y. prefix (concat (c_out x)) (frame y) \<and>
        (y \<in> error_replies \<or> concat (b_in x) = frame y \<and> concat (c_out x) \<noteq> frame y))"

definition exchange_ok :: "nat \<Rightarrow> exchange \<Rightarrow> bool" where
  "exchange_ok mx x \<longleftrightarrow> pool_events (bor_ev x) \<and> (rel_ev x = [] \<or> rel_ev x = [EvClose (b_fd x)]) \<and>
     (completed_ok mx x \<or> errored_ok mx x)"

lemma pool_events_Nil [simp]: "pool_events []"
  by (simp add: pool_events_def trace_simps)

lemma c_str_short: "length m < 100 \<Longrightarrow> \<not> length (c_str m) > 0xFFFFFFFF"
  by (simp add: c_str_def)

section \<open>The contract of a client\<close>

text \<open>
  \<open>crd\<close> reads the request, \<open>cwr\<close> writes a reply, \<open>cerr\<close> an error reply, \<open>fin\<close> ends the
  request. \<open>Cr\<close> and \<open>Cw\<close> are the transfer events of the client's side.
\<close>

locale client =
  fixes crd :: "'e world \<Rightarrow> (io_status \<times> bytes \<times> 'e world) option"
    and cwr :: "bytes \<Rightarrow> 'e world \<Rightarrow> (io_status \<times> 'e world) option"
    and cerr :: "string \<Rightarrow> 'e world \<Rightarrow> 'e world option"
    and fin :: "metric_op \<Rightarrow> 'e world \<Rightarrow> 'e world option"
    and f :: fd and Cr :: "bytes \<Rightarrow> event" and Cw :: "bytes \<Rightarrow> event"
    and mx :: nat and good :: bool and c_live :: "('e \<Rightarrow> nat) \<Rightarrow> bool"
  assumes crd_frame: "good \<Longrightarrow> crd w = Some (st, out, w') \<Longrightarrow>
      \<exists>bs. transferred Cr w bs w' \<and> (st = kOk \<longrightarrow> bs = frame out \<and> frame_fits mx out)"
    and cwr_written: "good \<Longrightarrow> cwr d w = Some (st, w') \<Longrightarrow> message_written Cw d w st w'"
    and cerr_written: "good \<Longrightarrow> cerr m w = Some w' \<Longrightarrow> \<exists>st. message_written Cw (c_str m) w st w'"
    and fin_did: "good \<Longrightarrow> fin op w = Some w' \<Longrightarrow>
      did w [EvMetric op, EvClose f, EvMetric Dec_in_flight] w'"
    and crd_returns: "c_live budget \<Longrightarrow> returns budget w (crd w) (\<lambda>r. snd (snd r))"
    and cwr_returns: "c_live budget \<Longrightarrow> returns budget w (cwr d w) snd"
    and cerr_returns: "c_live budget \<Longrightarrow> returns budget w (cerr m w) id"
    and fin_returns: "c_live budget \<Longrightarrow> returns budget w (fin op w) id"
begin

lemma crd_chunks:
  assumes good and "crd w = Some (st, out, w')"
  obtains cs where "did w (map Cr cs) w'" and "st = kOk \<Longrightarrow> concat cs = frame out \<and> frame_fits mx out"
proof -
  obtain bs where "transferred Cr w bs w'" "st = kOk \<longrightarrow> bs = frame out \<and> frame_fits mx out"
    using crd_frame [OF assms] by blast
  with that show ?thesis by (elim transferredE) blast
qed

lemma cerr_chunks:
  assumes good and "cerr m w = Some w'" and "length m < 100"
  obtains cs where "did w (map Cw cs) w'" and "prefix (concat cs) (frame (c_str m))"
proof -
  obtain st where "message_written Cw (c_str m) w st w'" using cerr_written [OF assms(1,2)] by blast
  then obtain bs rest where "transferred Cw w bs w'" "frame (c_str m) = bs @ rest"
    using c_str_short [OF assms(3)] by (auto simp: message_written_def)
  with that show ?thesis by (elim transferredE) auto
qed

lemma cwr_chunks:
  assumes good and "cwr d w = Some (st, w')" and "length d < 4294967296"
  obtains cs where "did w (map Cw cs) w'" and "prefix (concat cs) (frame d)"
    and "st = kOk \<longleftrightarrow> concat cs = frame d"
proof -
  from cwr_written [OF assms(1,2)] assms(3) obtain bs rest where "transferred Cw w bs w'"
    "frame d = bs @ rest" "st = kOk \<longleftrightarrow> rest = []"
    by (auto simp: message_written_def)
  with that show ?thesis by (elim transferredE) auto
qed

end

section \<open>The contract of a backend\<close>

text \<open>
  \<open>bor\<close> borrows, \<open>rel\<close> returns; \<open>idle_of\<close> are the idle connections, \<open>held_by\<close> relates a
  handle to the backend it can be returned to, \<open>solo\<close> says that no other thread changes the
  backend during the borrow.
\<close>

locale backend =
  fixes bor :: "'b \<Rightarrow> 'e world \<Rightarrow> ('h \<times> 'b \<times> 'e world) option"
    and hfd :: "'h \<Rightarrow> fd"
    and rel :: "'h \<Rightarrow> bool \<Rightarrow> 'b \<Rightarrow> 'e world \<Rightarrow> ('b \<times> 'e world) option"
    and wf :: "'b \<Rightarrow> bool" and held_by :: "'h \<Rightarrow> 'b \<Rightarrow> bool" and idle_of :: "'b \<Rightarrow> fd multiset"
    and solo :: bool and b_live :: "('e \<Rightarrow> nat) \<Rightarrow> bool"
  assumes bor_events: "wf b \<Longrightarrow> bor b w = Some (x, b', w') \<Longrightarrow>
      wf b' \<and> (0 \<le> hfd x \<longrightarrow> held_by x b') \<and> (\<exists>evs. did w evs w' \<and> pool_events evs \<and>
        (solo \<longrightarrow> (\<forall>g \<in># idle_of b. 0 \<le> g) \<longrightarrow> idle_of b + mset (opens evs) =
           idle_of b' + mset (closes evs) + (if hfd x < 0 then {#} else {#hfd x#})))"
    and rel_events: "wf b \<Longrightarrow> held_by x b \<Longrightarrow> 0 \<le> hfd x \<Longrightarrow> rel x ok b w = Some (b', w') \<Longrightarrow>
      \<exists>evs. did w evs w' \<and> (evs = [] \<and> ok \<or> evs = [EvClose (hfd x)]) \<and>
        idle_of b + {#hfd x#} = idle_of b' + mset (closes evs)"
    and bor_returns: "b_live budget \<Longrightarrow> returns budget w (bor b w) (\<lambda>r. snd (snd r))"
    and rel_returns: "b_live budget \<Longrightarrow> returns budget w (rel x ok b w) snd"

section \<open>Relaying, from the two contracts\<close>

text \<open>
  The connections idle before the exchange or opened by it are, after it, idle or closed,
  provided nobody else touched the backend.
\<close>

definition conserved :: "bool \<Rightarrow> fd multiset \<Rightarrow> fd multiset \<Rightarrow> exchange \<Rightarrow> bool" where
  "conserved solo I I' x \<longleftrightarrow> (solo \<longrightarrow> (\<forall>g \<in># I. 0 \<le> g) \<longrightarrow>
     I + mset (opens (bor_ev x)) = I' + mset (closes (bor_ev x)) + mset (closes (rel_ev x)))"

text \<open>
  The part of an exchange after the borrow: \<open>bo\<close>, \<open>bi\<close>, \<open>co\<close> are the chunks to the backend,
  from the backend and to the client, \<open>re\<close> is what the release did.
\<close>

definition served :: "nat \<Rightarrow> bytes \<Rightarrow> bytes list \<Rightarrow> bytes list \<Rightarrow> bytes list \<Rightarrow> metric_op \<Rightarrow> bool" where
  "served mx req bo bi co fi \<longleftrightarrow>
     fi = Inc_completed \<and> concat bo = frame req \<and>
       (\<exists>resp. frame_fits mx resp \<and> concat bi = frame resp \<and> concat co = frame resp) \<or>
     fi = Inc_errored \<and> prefix (concat bo) (frame req) \<and>
       (\<exists>y. prefix (concat co) (frame y) \<and>
          (y \<in> error_replies \<or> concat bi = frame y \<and> concat co \<noteq> frame y))"

locale relay_ops = client crd cwr cerr fin f Cr Cw mx good c_live +
    backend bor hfd rel wf held_by idle_of solo b_live
  for crd :: "'e world \<Rightarrow> (io_status \<times> bytes \<times> 'e world) option" and cwr cerr fin f Cr Cw mx good c_live
    and bor :: "'b \<Rightarrow> 'e world \<Rightarrow> ('h \<times> 'b \<times> 'e world) option" and hfd rel wf held_by idle_of solo b_live +
  fixes os :: "'e os" and e :: endian and h :: handler_options
  assumes mx_h: "mx = max_payload h"
    and good_os: "good \<Longrightarrow> recv_bounded os"
    and live_os: "c_live budget \<Longrightarrow> finite_interrupts os budget \<and> recv_bounded os"
begin

lemma backend_write_chunks:
  assumes "write_message os e bf d t w = Some (st, w')" and "length d < 4294967296"
  obtains cs where "did w (map (EvSend bf) cs) w'" and "prefix (concat cs) (frame d)"
    and "st = kOk \<longleftrightarrow> concat cs = frame d"
proof -
  from write_message_written [OF assms(1)] assms(2) obtain bs rest where "transferred (EvSend bf) w bs w'"
    "frame d = bs @ rest" "st = kOk \<longleftrightarrow> rest = []"
    by (auto simp: message_written_def)
  with that show ?thesis by (elim transferredE) auto
qed

lemma backend_read_chunks:
  assumes good and "read_message os e bf [] (max_payload h) t w = Some (st, out, w')"
  obtains cs where "did w (map (EvRecv bf) cs) w'"
    and "st = kOk \<Longrightarrow> concat cs = frame out \<and> frame_fits mx out"
proof -
  obtain bs where t: "transferred (EvRecv bf) w bs w'" and "frame_outcome e (max_payload h) [] bs st out"
    using read_message_outcome [OF good_os [OF assms(1)] assms(2)] by blast
  then have "st = kOk \<Longrightarrow> bs = frame out \<and> frame_fits mx out" by (simp add: frame_outcome_ok mx_h)
  with t that show ?thesis by (elim transferredE) blast
qed

text \<open>The error paths after the borrow: reply, release with \<open>ok = false\<close>, finish.\<close>

lemma give_up:
  assumes good and "wf b" and "held_by x b" and "0 \<le> hfd x" and "m \<in> {''ERR backend write'', ''ERR backend read''}"
    and run: "do { w4 \<leftarrow> cerr m w; (b2, w5) \<leftarrow> rel x False b w4; w6 \<leftarrow> fin Inc_errored w5; Some (b2, w6) }
      = Some (b', w')"
  obtains co re where "did w (map Cw co @ re @ [EvMetric Inc_errored, EvClose f, EvMetric Dec_in_flight]) w'"
    and "prefix (concat co) (frame (c_str m))" and "c_str m \<in> error_replies" and "re = [EvClose (hfd x)]"
    and "idle_of b + {#hfd x#} = idle_of b' + mset (closes re)"
proof -
  from run obtain w4 w5 where c: "cerr m w = Some w4" and r: "rel x False b w4 = Some (b', w5)"
    and fi: "fin Inc_errored w5 = Some w'" by (auto elim!: bind_SomeE)
  have "length m < 100" using assms(5) by auto
  with cerr_chunks [OF assms(1) c] obtain co where co: "did w (map Cw co) w4"
    "prefix (concat co) (frame (c_str m))" by blast
  from rel_events [OF assms(2,3,4) r] obtain re where re: "did w4 re w5" "re = [EvClose (hfd x)]"
    "idle_of b + {#hfd x#} = idle_of b' + mset (closes re)" by blast
  have "did w (map Cw co @ re @ [EvMetric Inc_errored, EvClose f, EvMetric Dec_in_flight]) w'"
    using did_trans [OF co(1) did_trans [OF re(1) fin_did [OF assms(1) fi]]] .
  moreover have "c_str m \<in> error_replies" using assms(5) by (auto simp: error_replies_def)
  ultimately show ?thesis using that co(2) re(2,3) by blast
qed

lemma relay_served_events:
  assumes good and "wf b" and "held_by x b" and "0 \<le> hfd x" and "frame_fits mx req"
    and run: "relay_served os e h cwr cerr fin (rel x) (hfd x) req b w = Some (b', w')"
  shows "\<exists>bo bi co re fi. did w (map (EvSend (hfd x)) bo @ map (EvRecv (hfd x)) bi @ map Cw co @ re @
      [EvMetric fi, EvClose f, EvMetric Dec_in_flight]) w' \<and>
    (re = [] \<or> re = [EvClose (hfd x)]) \<and> served mx req bo bi co fi \<and>
    idle_of b + {#hfd x#} = idle_of b' + mset (closes re)"
proof -
  from run obtain wr w3 where wm: "write_message os e (hfd x) req (backend_io_timeout_ms h) w = Some (wr, w3)"
    by (auto simp: relay_served_def elim!: bind_SomeE)
  from assms(5) have req: "length req < 4294967296" by (simp add: frame_fits_def)
  obtain bo where bo: "did w (map (EvSend (hfd x)) bo) w3" "prefix (concat bo) (frame req)"
    "wr = kOk \<longleftrightarrow> concat bo = frame req" by (rule backend_write_chunks [OF wm req])
  show ?thesis
  proof (cases "wr = kOk")
    case False
    with run wm obtain co re where
      "did w3 (map Cw co @ re @ [EvMetric Inc_errored, EvClose f, EvMetric Dec_in_flight]) w'"
      "prefix (concat co) (frame (c_str ''ERR backend write''))" "c_str ''ERR backend write'' \<in> error_replies"
      "re = [EvClose (hfd x)]" "idle_of b + {#hfd x#} = idle_of b' + mset (closes re)"
      by (elim give_up [OF assms(1-4), of "''ERR backend write''" w3 b' w', rotated 2])
        (auto simp: relay_served_def)
    with did_trans [OF bo(1) this(1)] bo(2) show ?thesis
      by (intro exI [of _ bo] exI [of _ "[]"] exI [of _ co] exI [of _ re] exI [of _ Inc_errored])
        (auto simp: served_def)
  next
    case True
    with run wm obtain rr resp w4
      where rm: "read_message os e (hfd x) [] (max_payload h) (backend_io_timeout_ms h) w3 = Some (rr, resp, w4)"
      by (auto simp: relay_served_def elim!: bind_SomeE)
    obtain bi where bi: "did w3 (map (EvRecv (hfd x)) bi) w4"
      "rr = kOk \<Longrightarrow> concat bi = frame resp \<and> frame_fits mx resp"
      using backend_read_chunks [OF assms(1) rm] by blast
    note d4 = did_trans [OF bo(1) bi(1)]
    show ?thesis
    proof (cases "rr = kOk")
      case False
      with run wm True rm obtain co re where
        "did w4 (map Cw co @ re @ [EvMetric Inc_errored, EvClose f, EvMetric Dec_in_flight]) w'"
        "prefix (concat co) (frame (c_str ''ERR backend read''))" "c_str ''ERR backend read'' \<in> error_replies"
        "re = [EvClose (hfd x)]" "idle_of b + {#hfd x#} = idle_of b' + mset (closes re)"
        by (elim give_up [OF assms(1-4), of "''ERR backend read''" w4 b' w', rotated 2])
          (auto simp: relay_served_def)
      with did_trans [OF d4 this(1)] bo(2) show ?thesis
        by (intro exI [of _ bo] exI [of _ bi] exI [of _ co] exI [of _ re] exI [of _ Inc_errored])
          (auto simp: served_def)
    next
      case ok: True
      with run wm True rm obtain cw w5 w6 where cm: "cwr resp w4 = Some (cw, w5)"
        and r: "rel x True b w5 = Some (b', w6)"
        and fi: "fin (if cw = kOk then Inc_completed else Inc_errored) w6 = Some w'"
        by (auto simp: relay_served_def elim!: bind_SomeE split: if_splits)
      from bi(2) [OF ok] have resp: "length resp < 4294967296" by (simp add: frame_fits_def)
      obtain co where co: "did w4 (map Cw co) w5" "prefix (concat co) (frame resp)"
        "cw = kOk \<longleftrightarrow> concat co = frame resp" by (rule cwr_chunks [OF assms(1) cm resp])
      from rel_events [OF assms(2,3,4) r] obtain re where re: "did w5 re w6"
        "re = [] \<or> re = [EvClose (hfd x)]" "idle_of b + {#hfd x#} = idle_of b' + mset (closes re)" by blast
      note did_trans [OF d4 did_trans [OF co(1) did_trans [OF re(1) fin_did [OF assms(1) fi]]]]
      with co(2,3) re(2,3) bi(2) [OF ok] bo(2,3) True show ?thesis
        by (intro exI [of _ bo] exI [of _ bi] exI [of _ co] exI [of _ re]
            exI [of _ "if cw = kOk then Inc_completed else Inc_errored"]) (auto simp: served_def)
    qed
  qed
qed

lemma relay_exchange:
  assumes good and "wf b" and run: "relay os e h crd cwr cerr fin bor hfd rel b w = Some (b', w')"
  shows "\<exists>x. did w (exchange_trace Cr Cw f x) w' \<and> exchange_ok mx x \<and>
    conserved solo (idle_of b) (idle_of b') x"
proof -
  from run obtain r req w1 where cm: "crd w = Some (r, req, w1)"
    by (auto simp: relay_def elim!: bind_SomeE)
  obtain ci where ci: "did w (map Cr ci) w1" "r = kOk \<Longrightarrow> concat ci = frame req \<and> frame_fits mx req"
    using crd_chunks [OF assms(1) cm] by blast
  let ?x0 = "\<lparr>c_in = ci, bor_ev = [], b_fd = 0, b_out = [], b_in = [], c_out = [], rel_ev = [],
    final = Inc_errored\<rparr>"
  have err: "c_str ''ERR backend unavailable'' \<in> error_replies" by (simp add: error_replies_def)
  show ?thesis
  proof (cases "r = kOk")
    case False
    with run cm have "b' = b" and "fin Inc_errored w1 = Some w'"
      by (auto simp: relay_def elim!: bind_SomeE)
    with did_trans [OF ci(1) fin_did [OF assms(1)]] err show ?thesis
      by (intro exI [of _ ?x0])
        (auto simp: exchange_trace_def exchange_ok_def errored_ok_def conserved_def trace_simps)
  next
    case True
    with run cm obtain hd b1 w2 where bm: "bor b w1 = Some (hd, b1, w2)"
      by (auto simp: relay_def elim!: bind_SomeE)
    from bor_events [OF assms(2) bm] obtain be where wf1: "wf b1" and held: "0 \<le> hfd hd \<longrightarrow> held_by hd b1"
      and be: "did w1 be w2" "pool_events be" "solo \<longrightarrow> (\<forall>g \<in># idle_of b. 0 \<le> g) \<longrightarrow>
        idle_of b + mset (opens be) = idle_of b1 + mset (closes be) + (if hfd hd < 0 then {#} else {#hfd hd#})"
      by blast
    note d2 = did_trans [OF ci(1) be(1)]
    show ?thesis
    proof (cases "hfd hd < 0")
      case neg: True
      with run cm True bm obtain w3 where ce: "cerr ''ERR backend unavailable'' w2 = Some w3"
        and fi: "fin Inc_errored w3 = Some w'" and "b' = b1"
        by (auto simp: relay_def elim!: bind_SomeE)
      obtain co where co: "did w2 (map Cw co) w3" "prefix (concat co) (frame (c_str ''ERR backend unavailable''))"
        by (rule cerr_chunks [OF assms(1) ce]) simp
      with did_trans [OF d2 did_trans [OF co(1) fin_did [OF assms(1) fi]]] err be(2,3) neg \<open>b' = b1\<close>
      show ?thesis
        by (intro exI [of _ "?x0\<lparr>bor_ev := be, c_out := co\<rparr>"])
          (auto simp: exchange_trace_def exchange_ok_def errored_ok_def conserved_def trace_simps)
    next
      case False
      with run cm True bm have "relay_served os e h cwr cerr fin (rel hd) (hfd hd) req b1 w2 = Some (b', w')"
        by (simp add: relay_def)
      moreover have "held_by hd b1" "0 \<le> hfd hd" "frame_fits mx req"
        using held False ci(2) [OF True] by auto
      ultimately
      obtain bo bi co re fi where sv: "did w2 (map (EvSend (hfd hd)) bo @ map (EvRecv (hfd hd)) bi @ map Cw co @
          re @ [EvMetric fi, EvClose f, EvMetric Dec_in_flight]) w'"
        "re = [] \<or> re = [EvClose (hfd hd)]" "served mx req bo bi co fi"
        "idle_of b1 + {#hfd hd#} = idle_of b' + mset (closes re)"
        using relay_served_events [OF assms(1) wf1] by blast
      let ?x = "\<lparr>c_in = ci, bor_ev = be, b_fd = hfd hd, b_out = bo, b_in = bi, c_out = co, rel_ev = re,
        final = fi\<rparr>"
      have "completed_ok mx ?x \<or> errored_ok mx ?x"
        using sv(3) ci(2) [OF True] by (auto simp: served_def completed_ok_def errored_ok_def)
      moreover have "conserved solo (idle_of b) (idle_of b') ?x"
        using be(3) sv(4) False by (simp add: conserved_def)
      moreover have "did w (exchange_trace Cr Cw f ?x) w'"
        using did_trans [OF d2 sv(1)] by (simp add: exchange_trace_def)
      ultimately show ?thesis using be(2) sv(2) by (intro exI [of _ ?x]) (simp add: exchange_ok_def)
    qed
  qed
qed

lemma rel_fin_returns:
  assumes "c_live budget" and "b_live budget"
  shows "returns budget w (do { (b2, w5) \<leftarrow> rel x ok b w; w6 \<leftarrow> fin op w5; Some (b2, w6) }) snd"
  by (rule returns_bind [OF rel_returns [OF assms(2)]])
    (auto intro!: returns_bind [OF fin_returns [OF assms(1)]] returns_Some)

lemma relay_returns:
  assumes l: "c_live budget" "b_live budget"
  shows "returns budget w (relay os e h crd cwr cerr fin bor hfd rel b w) snd"
proof -
  note os = live_os [OF l(1), THEN conjunct1] live_os [OF l(1), THEN conjunct2]
  have f1: "returns budget v (do { w2 \<leftarrow> fin op v; Some (b, w2) }) snd" for op b v
    by (rule returns_bind [OF fin_returns [OF l(1)]]) (auto intro: returns_Some)
  have f2: "returns budget v (do { w3 \<leftarrow> cerr m v; w4 \<leftarrow> fin op w3; Some (b, w4) }) snd" for op b m v
    by (rule returns_bind [OF cerr_returns [OF l(1)]]) (use f1 in simp)
  have f3: "returns budget v (do { w4 \<leftarrow> cerr m v; (b2, w5) \<leftarrow> rel x False b w4; w6 \<leftarrow> fin op w5;
      Some (b2, w6) }) snd" for op b m x v
    by (rule returns_bind [OF cerr_returns [OF l(1)]]) (use rel_fin_returns [OF l] in simp)
  have f4: "returns budget v (do { (cw, w5) \<leftarrow> cwr resp v; (b2, w6) \<leftarrow> rel x True b w5;
      if cw \<noteq> kOk then do { w7 \<leftarrow> fin Inc_errored w6; Some (b2, w7) }
      else do { w7 \<leftarrow> fin Inc_completed w6; Some (b2, w7) } }) snd" for resp x b v
    by (rule returns_bind [OF cwr_returns [OF l(1)]])
      (auto intro!: returns_bind [OF rel_returns [OF l(2)]] f1)
  have sv: "returns budget v (relay_served os e h cwr cerr fin (rel x) bf req b v) snd" for x bf req b v
    unfolding relay_served_def
    by (rule returns_bind [OF write_message_returns [OF os(1)]])
      (auto intro!: returns_bind [OF read_message_returns [OF os]] f3 f4)
  show ?thesis
    unfolding relay_def
    by (rule returns_bind [OF crd_returns [OF l(1)]])
      (auto intro!: f1 f2 sv returns_bind [OF bor_returns [OF l(2)]])
qed

end

end
