(* ===== verification/Handler_Instances.thy ===== *)
theory Handler_Instances
  imports Handler
begin

text \<open>
  The contracts of \<open>Handler\<close> discharged: a plain descriptor and a TLS session are clients, a
  \<open>BackendPool\<close> and a \<open>BackendSet\<close> are backends, and each of the four branches of
  \<open>handle_one\<close> is a relay between one of the first and one of the second.
\<close>

section \<open>Who keeps the contracts\<close>

lemma reply_error_plain_written:
  "reply_error_plain os e f m t w = Some w' \<Longrightarrow> \<exists>st. message_written (EvSend f) (c_str m) w st w'"
  by (auto simp: reply_error_plain_def elim!: bind_SomeE dest: write_message_written)

lemma finish_plain_did:
  assumes "finish_plain os f op w = Some w'" and "0 \<le> f"
  shows "did w [EvMetric op, EvClose f, EvMetric Dec_in_flight] w'"
proof -
  from assms obtain w1 where "safe_close os f (metric op w) = Some w1" "w' = metric Dec_in_flight w1"
    by (auto simp: finish_plain_def elim!: bind_SomeE)
  with did_trans [OF did_metric did_trans [OF safe_close_did did_metric]] assms(2) show ?thesis
    by fastforce
qed

lemma finish_tls_did:
  assumes "finish_tls os S st op w = Some w'" and "0 \<le> underlying_fd S st"
  shows "did w [EvMetric op, EvClose (underlying_fd S st), EvMetric Dec_in_flight] w'"
proof -
  from assms obtain st' w1 where "close_stream os S st (metric op w) = Some (st', w1)"
    "w' = metric Dec_in_flight w1" by (auto simp: finish_tls_def elim!: bind_SomeE)
  with did_trans [OF did_metric did_trans [OF close_stream_did did_metric]] assms(2) show ?thesis
    by fastforce
qed

lemma env_metric [simp]: "env (metric op w) = env w"
  by (simp add: world_simps)

interpretation plain_client: client
    "\<lambda>w. read_message os e f [] (max_payload h) (client_io_timeout_ms h) w"
    "\<lambda>d w. write_message os e f d (client_io_timeout_ms h) w"
    "\<lambda>m w. reply_error_plain os e f m (client_io_timeout_ms h) w"
    "finish_plain os f" f "EvRecv f" "EvSend f" "max_payload h" "recv_bounded os \<and> 0 \<le> f"
    "\<lambda>budget. finite_interrupts os budget \<and> recv_bounded os"
  for os e f h
proof (unfold_locales, goal_cases)
  case (1 w st out w')
  then show ?case using read_message_outcome [of os e f "[]"] by (fastforce simp: frame_outcome_ok)
next
  case (2 d w st w')
  then show ?case by (simp add: write_message_written)
next
  case (3 m w w')
  then show ?case by (simp add: reply_error_plain_written)
next
  case (4 op w w')
  then show ?case by (simp add: finish_plain_did)
next
  case (5 budget w)
  then show ?case by (simp add: read_message_returns)
next
  case (6 budget w d)
  then show ?case by (simp add: write_message_returns)
next
  case (7 budget w m)
  then show ?case
    by (auto simp: reply_error_plain_def intro!: returns_bind [OF write_message_returns] returns_Some)
next
  case (8 budget w op)
  then have fin: "finite_interrupts os budget" by simp
  have "returns budget (metric op w) (finish_plain os f op w) id"
    unfolding finish_plain_def
    by (rule returns_bind [OF safe_close_returns [OF fin]]) (auto intro: returns_Some)
  from returns_le [OF this, of w] show ?case by simp
qed

text \<open>A TLS client: a session bound to the descriptor \<open>f\<close>, on a little-endian host.\<close>

interpretation tls_client: client
    "\<lambda>w. stream_read_message os S e (stream_tls S (Some s)) [] (max_payload h) (client_io_timeout_ms h) w"
    "\<lambda>d w. stream_write_message os S e (stream_tls S (Some s)) d (client_io_timeout_ms h) w"
    "\<lambda>m w. reply_error_tls os S e s m (client_io_timeout_ms h) w"
    "finish_tls os S (stream_tls S (Some s))" "ssl_get_fd S s" "EvTlsRead (ssl_get_fd S s)"
    "EvTlsWrite (ssl_get_fd S s)" "max_payload h"
    "recv_bounded os \<and> ssl_bounded S \<and> e = Little \<and> 0 \<le> ssl_get_fd S s"
    "\<lambda>budget. finite_interrupts os budget \<and> recv_bounded os \<and> ssl_live S budget \<and> ssl_bounded S"
  for os S e s h
proof (unfold_locales, goal_cases)
  case (1 w st out w')
  then show ?case using stream_read_outcome [of "stream_tls S (Some s)" s S os "[]"]
    by (fastforce simp: stream_tls_def frame_outcome_ok)
next
  case (2 d w st w')
  then show ?case using stream_write_written [of "stream_tls S (Some s)" s] by (simp add: stream_tls_def)
next
  case (3 m w w')
  then obtain st where "stream_write_message os S Little (stream_tls S (Some s)) (c_str m)
      (client_io_timeout_ms h) w = Some (st, w')"
    by (auto simp: reply_error_tls_def elim!: bind_SomeE)
  from stream_write_written [OF _ this] show ?case by (auto simp: stream_tls_def)
next
  case (4 op w w')
  then show ?case using finish_tls_did [of os S "stream_tls S (Some s)"]
    by (simp add: stream_tls_def underlying_fd_def)
next
  case (5 budget w)
  then show ?case by (simp add: stream_read_returns)
next
  case (6 budget w d)
  then show ?case by (simp add: stream_write_returns)
next
  case (7 budget w m)
  then show ?case
    by (auto simp: reply_error_tls_def intro!: returns_bind [OF stream_write_returns] returns_Some)
next
  case (8 budget w op)
  then have l: "finite_interrupts os budget" "ssl_live S budget" by simp_all
  have "returns budget (metric op w) (finish_tls os S (stream_tls S (Some s)) op w) id"
    unfolding finish_tls_def
    by (rule returns_bind [OF close_stream_returns [OF l]]) (auto intro: returns_Some)
  from returns_le [OF this, of w] show ?case by simp
qed

lemma borrow_pool_events:
  assumes "borrow cv os nd p w = Some (res, p', w')"
  shows "\<exists>evs. did w evs w' \<and> pool_events evs \<and>
    (alone cv \<longrightarrow> (\<forall>g \<in># mset (idle_fds p). 0 \<le> g) \<longrightarrow> mset (idle_fds p) + mset (opens evs) =
      mset (idle_fds p') + mset (closes evs) + (if borrow_fd res < 0 then {#} else {#borrow_fd res#}))"
proof -
  obtain m evs where evs: "did w evs w'" "borrow_events m res evs" by (rule borrow_events_did [OF assms])
  have "mset (idle_fds p) + mset (opens evs) = mset (idle_fds p') + mset (closes evs) +
      (if borrow_fd res < 0 then {#} else {#borrow_fd res#})"
    if a: "alone cv" and nn: "\<forall>g \<in># mset (idle_fds p). 0 \<le> g"
  proof -
    obtain evs' where evs': "did w evs' w'" "mset (idle_fds p) + mset (opens evs') =
        mset (idle_fds p') + mset (closes evs') + handed_out res"
      by (rule borrow_conserves [OF assms a])
    have "handed_out res = (if borrow_fd res < 0 then {#} else {#borrow_fd res#})"
      using borrow_effect [OF assms a] nn
      by (cases res) (auto simp: borrow_effect_def idle_fds_def)
    with evs' did_unique [OF evs(1) evs'(1)] show ?thesis by simp
  qed
  with evs borrow_events_quiet [OF evs(2)] show ?thesis
    by (intro exI [of _ evs]) (simp add: pool_events_def)
qed

interpretation pool_backend: backend
    "borrow cv os nd" borrow_fd "\<lambda>r ok b w. release os (borrow_fd r) ok b w" "\<lambda>_. True" "\<lambda>_ _. True"
    "\<lambda>p. mset (idle_fds p)" "alone cv"
    "\<lambda>budget. finite_interrupts os budget \<and> netdb_quiet nd budget \<and> cv_live cv budget"
  for cv os nd
proof (unfold_locales, goal_cases)
  case (1 b w x b' w')
  from borrow_pool_events [OF 1(2)] show ?case by blast
next
  case (2 b x ok w b' w')
  obtain now where "b' = release_locked (borrow_fd x) (close_it ok b) now b"
    "did w (if close_it ok b then [EvClose (borrow_fd x)] else []) w'"
    using release_effect [OF 2(4,3)] by blast
  then show ?case
    by (intro exI [of _ "if close_it ok b then [EvClose (borrow_fd x)] else []"])
      (auto simp: idle_fds_release trace_simps close_it_def)
next
  case (3 budget w b)
  then show ?case by (simp add: borrow_returns)
next
  case (4 budget w x ok b)
  then show ?case by (simp add: release_returns)
qed

section \<open>The backend set as a backend\<close>

definition set_idle :: "backend_set \<Rightarrow> fd multiset" where
  "set_idle s = sum_list (map (\<lambda>p. mset (idle_fds p)) (pools s))"

lemma set_idle_update:
  "i < length (pools s) \<Longrightarrow> sum_list (map (\<lambda>p. mset (idle_fds p)) ((pools s)[i := p])) +
     mset (idle_fds (pools s ! i)) = set_idle s + mset (idle_fds p)"
  using sum_list_update_add [of i "map (\<lambda>p. mset (idle_fds p)) (pools s)" "mset (idle_fds p)"]
  by (simp add: set_idle_def map_update)

lemma set_idle_pool: "i < length (pools s) \<Longrightarrow> g \<in># mset (idle_fds (pools s ! i)) \<Longrightarrow> g \<in># set_idle s"
  by (auto simp: set_idle_def in_set_conv_nth) (metis nth_mem)

text \<open>What a change of one pool means for the whole set.\<close>

lemma shift_eq:
  fixes T T' a a' u v :: "fd multiset"
  assumes "T' + a = T + a'" and "a + u = a' + v"
  shows "T + u = T' + v"
proof -
  have "(T + u) + a' = (T + a') + u" by (simp add: ac_simps)
  also have "\<dots> = (T' + a) + u" using assms(1) by simp
  also have "\<dots> = T' + (a + u)" by (simp add: ac_simps)
  also have "\<dots> = (T' + v) + a'" using assms(2) by (simp add: ac_simps)
  finally show ?thesis by simp
qed

lemma set_borrow_pool:
  assumes "set_shape s" and "set_borrow cv os nd s w = Some (x, s', w')" and "pools s \<noteq> []"
  obtains res p where "borrow cv os nd (pools s ! pick_lowest_load_locked s) w = Some (res, p, w')"
    and "pools s' = (pools s)[pick_lowest_load_locked s := p]" and "set_shape s'"
    and "h_fd x < 0 \<longleftrightarrow> borrow_fd res < 0"
    and "0 \<le> h_fd x \<Longrightarrow> h_fd x = borrow_fd res \<and> pool_index x = pick_lowest_load_locked s"
proof -
  obtain i s1 where pk: "pick_locked s = (i, s1)" by fastforce
  with pick_locked_simps [of s] have i: "pick_lowest_load_locked s = i" and s1: "pools s1 = pools s"
    "set_shape s1" using assms(1) by simp_all
  from assms(2,3) pk s1 obtain res p where b: "borrow cv os nd (pools s ! i) w = Some (res, p, w')"
    and k: "settle_borrow i res p s1 = (x, s')"
    by (auto simp: set_borrow_def elim!: bind_SomeE split: prod.splits)
  show ?thesis
    by (rule that [of res p]) (use b k i s1 settle_borrow_simps [of i res p s1]
      settle_borrow_ok [of res i p s1] in auto)
qed

lemma set_borrow_events:
  assumes "set_shape s" and "set_borrow cv os nd s w = Some (x, s', w')"
  shows "set_shape s' \<and> (0 \<le> h_fd x \<longrightarrow> pool_index x < length (pools s')) \<and>
    (\<exists>evs. did w evs w' \<and> pool_events evs \<and> (alone cv \<longrightarrow> (\<forall>g \<in># set_idle s. 0 \<le> g) \<longrightarrow>
      set_idle s + mset (opens evs) = set_idle s' + mset (closes evs) + (if h_fd x < 0 then {#} else {#h_fd x#})))"
proof (cases "pools s = []")
  case True
  with assms have "x = no_handle" "s' = s" "w' = w" by (simp_all add: set_borrow_def)
  with assms(1) show ?thesis by (auto simp: no_handle_def trace_simps intro!: exI [of _ "[]"])
next
  case False
  let ?i = "pick_lowest_load_locked s"
  from False have i: "?i < length (pools s)" by (rule pick_less [OF assms(1)])
  obtain res p where b: "borrow cv os nd (pools s ! ?i) w = Some (res, p, w')"
    and s': "pools s' = (pools s)[?i := p]" "set_shape s'"
    and x: "h_fd x < 0 \<longleftrightarrow> borrow_fd res < 0" "0 \<le> h_fd x \<Longrightarrow> h_fd x = borrow_fd res \<and> pool_index x = ?i"
    by (rule set_borrow_pool [OF assms False]) blast
  from borrow_pool_events [OF b] obtain evs where evs: "did w evs w'" "pool_events evs"
    "alone cv \<longrightarrow> (\<forall>g \<in># mset (idle_fds (pools s ! ?i)). 0 \<le> g) \<longrightarrow>
      mset (idle_fds (pools s ! ?i)) + mset (opens evs) = mset (idle_fds p) + mset (closes evs) +
        (if borrow_fd res < 0 then {#} else {#borrow_fd res#})" by blast
  have "set_idle s + mset (opens evs) = set_idle s' + mset (closes evs) +
      (if h_fd x < 0 then {#} else {#h_fd x#})"
    if "alone cv" "\<forall>g \<in># set_idle s. 0 \<le> g"
  proof -
    have "\<forall>g \<in># mset (idle_fds (pools s ! ?i)). 0 \<le> g" using that(2) set_idle_pool [OF i] by blast
    with evs(3) that(1) have "mset (idle_fds (pools s ! ?i)) + mset (opens evs) =
        mset (idle_fds p) + mset (closes evs) + (if borrow_fd res < 0 then {#} else {#borrow_fd res#})"
      by blast
    moreover have "(if borrow_fd res < 0 then {#} else {#borrow_fd res#}) =
        (if h_fd x < 0 then {#} else {#h_fd x#})" using x by auto
    ultimately have "mset (idle_fds (pools s ! ?i)) + mset (opens evs) =
        mset (idle_fds p) + (mset (closes evs) + (if h_fd x < 0 then {#} else {#h_fd x#}))"
      by (simp only: add.assoc)
    moreover have "set_idle s' + mset (idle_fds (pools s ! ?i)) = set_idle s + mset (idle_fds p)"
      using set_idle_update [OF i, of p] by (simp only: set_idle_def s'(1))
    ultimately have "set_idle s + mset (opens evs) =
        set_idle s' + (mset (closes evs) + (if h_fd x < 0 then {#} else {#h_fd x#}))"
      by (rule shift_eq [rotated])
    then show ?thesis by (simp only: add.assoc)
  qed
  moreover have "0 \<le> h_fd x \<longrightarrow> pool_index x < length (pools s')" using x(2) i s'(1) by simp
  ultimately show ?thesis using evs(1,2) s'(2) by (intro conjI exI [of _ evs]) simp_all
qed

lemma set_release_events:
  assumes "pool_index x < length (pools s)" and "0 \<le> h_fd x" and "set_release os x ok s w = Some (s', w')"
  shows "\<exists>evs. did w evs w' \<and> (evs = [] \<and> ok \<or> evs = [EvClose (h_fd x)]) \<and>
    set_idle s + {#h_fd x#} = set_idle s' + mset (closes evs)"
proof -
  from assms obtain p where r: "release os (h_fd x) ok (pools s ! pool_index x) w = Some (p, w')"
    and s': "pools s' = (pools s)[pool_index x := p]"
    by (auto simp: set_release_def Let_def elim!: bind_SomeE)
  let ?b = "pools s ! pool_index x"
  let ?evs = "if close_it ok ?b then [EvClose (h_fd x)] else []"
  obtain now where p: "p = release_locked (h_fd x) (close_it ok ?b) now ?b" and d: "did w ?evs w'"
    by (rule release_effect [OF r assms(2)])
  have "mset (idle_fds ?b) + {#h_fd x#} = mset (idle_fds p) + mset (closes ?evs)"
    by (simp add: p idle_fds_release trace_simps)
  moreover have "set_idle s' + mset (idle_fds ?b) = set_idle s + mset (idle_fds p)"
    using set_idle_update [OF assms(1), of p] by (simp only: set_idle_def s')
  ultimately have "set_idle s + {#h_fd x#} = set_idle s' + mset (closes ?evs)"
    by (rule shift_eq [rotated])
  with d show ?thesis by (intro exI [of _ ?evs]) (auto simp: close_it_def)
qed

interpretation set_backend: backend
    "set_borrow cv os nd" h_fd "set_release os" set_shape "\<lambda>x s. pool_index x < length (pools s)"
    set_idle "alone cv"
    "\<lambda>budget. finite_interrupts os budget \<and> netdb_quiet nd budget \<and> cv_live cv budget"
  for cv os nd
proof (unfold_locales, goal_cases)
  case (1 s w x s' w')
  from set_borrow_events [OF 1] show ?case .
next
  case (2 s x ok w s' w')
  from set_release_events [OF 2(2,3,4)] show ?case .
next
  case (3 budget w s)
  then show ?case
    by (auto simp: set_borrow_def intro!: returns_Some returns_bind [OF borrow_returns] split: prod.split)
next
  case (4 budget w x ok s)
  then show ?case
    by (auto simp: set_release_def Let_def intro!: returns_Some returns_bind [OF release_returns])
qed

section \<open>The four branches relay\<close>

interpretation pool_plain_ops: relay_ops
    "\<lambda>w. read_message os e f [] (max_payload h) (client_io_timeout_ms h) w"
    "\<lambda>d w. write_message os e f d (client_io_timeout_ms h) w"
    "\<lambda>m w. reply_error_plain os e f m (client_io_timeout_ms h) w"
    "finish_plain os f" f "EvRecv f" "EvSend f" "max_payload h" "recv_bounded os \<and> 0 \<le> f"
    "\<lambda>budget. finite_interrupts os budget \<and> recv_bounded os"
    "borrow cv os nd" borrow_fd "\<lambda>r ok b w. release os (borrow_fd r) ok b w" "\<lambda>_. True" "\<lambda>_ _. True"
    "\<lambda>p. mset (idle_fds p)" "alone cv"
    "\<lambda>budget. finite_interrupts os budget \<and> netdb_quiet nd budget \<and> cv_live cv budget" os e h
  for cv os nd e f h
  by unfold_locales simp_all

interpretation set_plain_ops: relay_ops
    "\<lambda>w. read_message os e f [] (max_payload h) (client_io_timeout_ms h) w"
    "\<lambda>d w. write_message os e f d (client_io_timeout_ms h) w"
    "\<lambda>m w. reply_error_plain os e f m (client_io_timeout_ms h) w"
    "finish_plain os f" f "EvRecv f" "EvSend f" "max_payload h" "recv_bounded os \<and> 0 \<le> f"
    "\<lambda>budget. finite_interrupts os budget \<and> recv_bounded os"
    "set_borrow cv os nd" h_fd "set_release os" set_shape "\<lambda>x s. pool_index x < length (pools s)"
    set_idle "alone cv"
    "\<lambda>budget. finite_interrupts os budget \<and> netdb_quiet nd budget \<and> cv_live cv budget" os e h
  for cv os nd e f h
  by unfold_locales simp_all

interpretation pool_tls_ops: relay_ops
    "\<lambda>w. stream_read_message os S e (stream_tls S (Some s)) [] (max_payload h) (client_io_timeout_ms h) w"
    "\<lambda>d w. stream_write_message os S e (stream_tls S (Some s)) d (client_io_timeout_ms h) w"
    "\<lambda>m w. reply_error_tls os S e s m (client_io_timeout_ms h) w"
    "finish_tls os S (stream_tls S (Some s))" "ssl_get_fd S s" "EvTlsRead (ssl_get_fd S s)"
    "EvTlsWrite (ssl_get_fd S s)" "max_payload h"
    "recv_bounded os \<and> ssl_bounded S \<and> e = Little \<and> 0 \<le> ssl_get_fd S s"
    "\<lambda>budget. finite_interrupts os budget \<and> recv_bounded os \<and> ssl_live S budget \<and> ssl_bounded S"
    "borrow cv os nd" borrow_fd "\<lambda>r ok b w. release os (borrow_fd r) ok b w" "\<lambda>_. True" "\<lambda>_ _. True"
    "\<lambda>p. mset (idle_fds p)" "alone cv"
    "\<lambda>budget. finite_interrupts os budget \<and> netdb_quiet nd budget \<and> cv_live cv budget" os e h
  for cv os nd S e s h
  by unfold_locales simp_all

interpretation set_tls_ops: relay_ops
    "\<lambda>w. stream_read_message os S e (stream_tls S (Some s)) [] (max_payload h) (client_io_timeout_ms h) w"
    "\<lambda>d w. stream_write_message os S e (stream_tls S (Some s)) d (client_io_timeout_ms h) w"
    "\<lambda>m w. reply_error_tls os S e s m (client_io_timeout_ms h) w"
    "finish_tls os S (stream_tls S (Some s))" "ssl_get_fd S s" "EvTlsRead (ssl_get_fd S s)"
    "EvTlsWrite (ssl_get_fd S s)" "max_payload h"
    "recv_bounded os \<and> ssl_bounded S \<and> e = Little \<and> 0 \<le> ssl_get_fd S s"
    "\<lambda>budget. finite_interrupts os budget \<and> recv_bounded os \<and> ssl_live S budget \<and> ssl_bounded S"
    "set_borrow cv os nd" h_fd "set_release os" set_shape "\<lambda>x s. pool_index x < length (pools s)"
    set_idle "alone cv"
    "\<lambda>budget. finite_interrupts os budget \<and> netdb_quiet nd budget \<and> cv_live cv budget" os e h
  for cv os nd S e s h
  by unfold_locales simp_all

end
