(* ===== verification/Handler_Properties.thy ===== *)
theory Handler_Properties
  imports Handler_Instances
begin

text \<open>
  What one call of \<open>handle_one\<close> does, for both overloads and both kinds of client: the
  counters, the descriptors, the bytes on the wire, and that it returns.
\<close>

section \<open>The whole call\<close>

text \<open>
  What the handler relies on: \<open>recv\<close> respects its buffer and the accepted descriptor is
  valid; with TLS, OpenSSL keeps its documented bounds and the host is little-endian.
\<close>

definition host_ok :: "'e os \<Rightarrow> 'e openssl \<Rightarrow> endian \<Rightarrow> handler_options \<Rightarrow> fd \<Rightarrow> bool" where
  "host_ok os S e h f \<longleftrightarrow> recv_bounded os \<and> 0 \<le> f \<and>
     (server_tls h \<noteq> None \<longrightarrow> ssl_bounded S \<and> ssl_binds S \<and> e = Little)"

definition client_reads :: "handler_options \<Rightarrow> fd \<Rightarrow> bytes \<Rightarrow> event" where
  "client_reads h f = (if server_tls h = None then EvRecv f else EvTlsRead f)"

definition client_writes :: "handler_options \<Rightarrow> fd \<Rightarrow> bytes \<Rightarrow> event" where
  "client_writes h f = (if server_tls h = None then EvSend f else EvTlsWrite f)"

text \<open>
  \<open>call_did\<close>: the call consisted of a failed handshake, or of one exchange; \<open>I\<close> and \<open>I'\<close> are
  the idle connections before and after it.
\<close>

definition call_did ::
    "handler_options \<Rightarrow> fd \<Rightarrow> bool \<Rightarrow> fd multiset \<Rightarrow> fd multiset \<Rightarrow> 'e world \<Rightarrow> 'e world \<Rightarrow> bool" where
  "call_did h f solo I I' w w' \<longleftrightarrow>
     (server_tls h \<noteq> None \<and> I' = I \<and>
        did w [EvMetric Inc_in_flight, EvClose f, EvMetric Inc_errored, EvMetric Dec_in_flight] w') \<or>
     (\<exists>x. did w (EvMetric Inc_in_flight # exchange_trace (client_reads h f) (client_writes h f) f x) w' \<and>
        exchange_ok (max_payload h) x \<and>
        conserved solo I I' x)"

lemma did_metric_first: "did (metric op w) evs w' \<Longrightarrow> did w (EvMetric op # evs) w'"
  using did_trans [OF did_metric] by fastforce

lemma did_two_metrics: "did w evs v \<Longrightarrow> did w (evs @ [EvMetric a, EvMetric b]) (metric b (metric a v))"
  using did_trans [OF did_trans [OF _ did_metric] did_metric] by fastforce

lemma handshake_failed:
  assumes "accept_handshake os S ctx f t (metric Inc_in_flight w) = Some (None, w1)" and "0 \<le> f"
  shows "did w [EvMetric Inc_in_flight, EvClose f, EvMetric Inc_errored, EvMetric Dec_in_flight]
    (metric Dec_in_flight (metric Inc_errored w1))"
  using did_metric_first [OF did_two_metrics [OF accept_handshake_did(1) [OF assms]]] by simp

lemma handle_one_pool_did:
  assumes ok: "host_ok os S e h f" and run: "handle_one_pool cv os nd S e h f b w = Some (b', w')"
  shows "call_did h f (alone cv) (mset (idle_fds b)) (mset (idle_fds b')) w w'"
proof (cases "server_tls h")
  case None
  with run have r: "pool_plain cv os nd e h f b (metric Inc_in_flight w) = Some (b', w')"
    by (simp add: handle_one_pool_def)
  from pool_plain_ops.relay_exchange [OF _ TrueI r [unfolded pool_plain_relay]] ok
  obtain x where "did (metric Inc_in_flight w) (exchange_trace (EvRecv f) (EvSend f) f x) w'"
    "exchange_ok (max_payload h) x" "conserved (alone cv) (mset (idle_fds b)) (mset (idle_fds b')) x"
    by (auto simp: host_ok_def)
  with None show ?thesis
    by (auto simp: call_did_def client_reads_def client_writes_def
        dest!: did_metric_first)
next
  case (Some ctx)
  with run obtain so w1
    where hs: "accept_handshake os S ctx f (tls_handshake_timeout_ms h) (metric Inc_in_flight w) = Some (so, w1)"
      and k: "(case so of None \<Rightarrow> Some (b, metric Dec_in_flight (metric Inc_errored w1))
        | Some s \<Rightarrow> pool_tls cv os nd S e h s b w1) = Some (b', w')"
    by (auto simp: handle_one_pool_def elim!: bind_SomeE)
  from ok have f: "0 \<le> f" by (simp add: host_ok_def)
  show ?thesis
  proof (cases so)
    case None
    with k handshake_failed [OF hs [unfolded None] f] Some show ?thesis by (simp add: call_did_def)
  next
    case ssl: (Some s)
    note hd = accept_handshake_did [OF hs f]
    have sf: "ssl_get_fd S s = f" using hd(2) [OF ssl] ok Some by (simp add: host_ok_def)
    from k ssl have r: "pool_tls cv os nd S e h s b w1 = Some (b', w')" by simp
    from pool_tls_ops.relay_exchange [OF _ TrueI r [unfolded pool_tls_relay]] ok Some sf
    obtain x where "did w1 (exchange_trace (EvTlsRead f) (EvTlsWrite f) f x) w'"
      "exchange_ok (max_payload h) x" "conserved (alone cv) (mset (idle_fds b)) (mset (idle_fds b')) x"
      by (auto simp: host_ok_def)
    with did_silent [OF hd(1) [unfolded ssl, simplified]] Some show ?thesis
      by (auto simp: call_did_def client_reads_def client_writes_def
          dest!: did_metric_first)
  qed
qed

lemma handle_one_set_did:
  assumes ok: "host_ok os S e h f" and sh: "set_shape b" and run: "handle_one_set cv os nd S e h f b w = Some (b', w')"
  shows "call_did h f (alone cv) (set_idle b) (set_idle b') w w'"
proof (cases "server_tls h")
  case None
  with run have r: "set_plain cv os nd e h f b (metric Inc_in_flight w) = Some (b', w')"
    by (simp add: handle_one_set_def)
  from set_plain_ops.relay_exchange [OF _ sh r [unfolded set_plain_relay]] ok
  obtain x where "did (metric Inc_in_flight w) (exchange_trace (EvRecv f) (EvSend f) f x) w'"
    "exchange_ok (max_payload h) x" "conserved (alone cv) (set_idle b) (set_idle b') x"
    by (auto simp: host_ok_def)
  with None show ?thesis
    by (auto simp: call_did_def client_reads_def client_writes_def
        dest!: did_metric_first)
next
  case (Some ctx)
  with run obtain so w1
    where hs: "accept_handshake os S ctx f (tls_handshake_timeout_ms h) (metric Inc_in_flight w) = Some (so, w1)"
      and k: "(case so of None \<Rightarrow> Some (b, metric Dec_in_flight (metric Inc_errored w1))
        | Some s \<Rightarrow> set_tls cv os nd S e h s b w1) = Some (b', w')"
    by (auto simp: handle_one_set_def elim!: bind_SomeE)
  from ok have f: "0 \<le> f" by (simp add: host_ok_def)
  show ?thesis
  proof (cases so)
    case None
    with k handshake_failed [OF hs [unfolded None] f] Some show ?thesis by (simp add: call_did_def)
  next
    case ssl: (Some s)
    note hd = accept_handshake_did [OF hs f]
    have sf: "ssl_get_fd S s = f" using hd(2) [OF ssl] ok Some by (simp add: host_ok_def)
    from k ssl have r: "set_tls cv os nd S e h s b w1 = Some (b', w')" by simp
    from set_tls_ops.relay_exchange [OF _ sh r [unfolded set_tls_relay]] ok Some sf
    obtain x where "did w1 (exchange_trace (EvTlsRead f) (EvTlsWrite f) f x) w'"
      "exchange_ok (max_payload h) x" "conserved (alone cv) (set_idle b) (set_idle b') x"
      by (auto simp: host_ok_def)
    with did_silent [OF hd(1) [unfolded ssl, simplified]] Some show ?thesis
      by (auto simp: call_did_def client_reads_def client_writes_def
          dest!: did_metric_first)
  qed
qed

section \<open>Both overloads return\<close>

lemma bind_handshake_returns:
  assumes "finite_interrupts os budget" and "ssl_live S budget"
    and "\<And>s v. returns budget v (k s v) snd"
  shows "returns budget w (do { (so, w1) \<leftarrow> accept_handshake os S ctx f t (metric op w);
      case so of None \<Rightarrow> Some (b, metric Dec_in_flight (metric Inc_errored w1)) | Some s \<Rightarrow> k s w1 }) snd"
proof (rule returns_le [OF returns_bind [OF accept_handshake_returns [OF assms(1,2)]]], clarify)
  show "returns budget (snd (so, w1)) (case so of None \<Rightarrow> Some (b, metric Dec_in_flight (metric Inc_errored w1))
      | Some s \<Rightarrow> k s w1) snd" for so w1
    using assms(3) by (cases so) (simp_all add: returns_Some)
qed simp

lemma handle_one_set_returns:
  assumes "finite_interrupts os budget" and "recv_bounded os" and "netdb_quiet nd budget" and "cv_live cv budget"
    and "server_tls h \<noteq> None \<Longrightarrow> ssl_live S budget \<and> ssl_bounded S"
  shows "returns budget w (handle_one_set cv os nd S e h f b w) snd"
proof (cases "server_tls h")
  case None
  have "returns budget v (set_plain cv os nd e h f b v) snd" for v
    unfolding set_plain_relay by (rule set_plain_ops.relay_returns) (simp_all add: assms)
  from returns_le [OF this [of "metric Inc_in_flight w"], of w] None show ?thesis
    by (simp add: handle_one_set_def)
next
  case (Some ctx)
  with assms(5) have S: "ssl_live S budget" "ssl_bounded S" by simp_all
  have "returns budget v (set_tls cv os nd S e h s b v) snd" for s v
    unfolding set_tls_relay by (rule set_tls_ops.relay_returns) (simp_all add: assms S)
  from bind_handshake_returns [OF assms(1) S(1) this] Some show ?thesis
    by (simp add: handle_one_set_def Let_def)
qed

section \<open>A request in the echo world\<close>

text \<open>Nobody else uses the pool; a borrower that would wait times out.\<close>

definition quiet_cv :: "int \<Rightarrow> pool \<Rightarrow> 'e \<Rightarrow> bool \<times> pool \<times> 'e" where
  "quiet_cv dl p e = (True, p, e)"

lemma quiet_cv_laws [simp]: "alone quiet_cv" "cv_live quiet_cv (\<lambda>_. 0)"
  by (simp_all add: alone_def cv_live_def quiet_cv_def)

definition echo_backends :: backend_set where
  "echo_backends = new_backend_set [\<lparr>spec_host = ''b'', spec_port = 9, spec_weight = 1\<rparr>]
     default_pool_options True"

lemma echo_backends_shape [simp]: "set_shape echo_backends" "set_idle echo_backends = {#}"
  by (simp_all add: echo_backends_def new_backend_set_def set_shape_def set_idle_def idle_fds_def)

definition echo_request :: "inboxes world" where
  "echo_request = start ((\<lambda>_. [])(3 := frame [1, 2]))"

lemma echo_borrow:
  "\<not> shutting_down p \<Longrightarrow> idle p = [] \<Longrightarrow> in_use p < max_size (opts p) \<Longrightarrow>
     borrow cv echo_os echo_nd p w = Some (Borrowed 9, p\<lparr>in_use := in_use p + 1\<rparr>,
       pool_metric p Inc_pool_borrow (pool_metric p Inc_pool_create (emit [EvOpen 9] w)))"
  by (simp add: borrow_def borrow_loop.simps [of cv] borrow_locked_def dial_one_def)

lemma echo_release:
  "0 \<le> f \<Longrightarrow> \<not> shutting_down p \<Longrightarrow> release echo_os f True p w = Some (release_locked f False 0 p, w)"
  by (simp add: release_def close_it_def)

lemma frame_12: "frame_fits n [1, 2] \<longleftrightarrow> 2 \<le> n"
  by (simp add: frame_fits_def numeral_2_eq_2)

lemma echo_request_served:
  "\<exists>b' w'. handle_one_set quiet_cv echo_os echo_nd echo_ssl Little default_handler_options 3 echo_backends
     echo_request = Some (b', w') \<and> completed (metrics_of w') = 1"
  apply (simp add: handle_one_set_def set_plain_def default_handler_options_def echo_request_def)
  apply (subst echo_read_message [where p = "[1, 2]" and r = "[]"])
    apply (simp add: world_simps)
   apply (simp add: frame_12)
  apply (simp add: echo_backends_def new_backend_set_def set_borrow_def pick_locked_def pick_lowest_load_locked_def
      Let_def echo_borrow default_pool_options_def settle_borrow_def echo_write_message)
  apply (subst echo_read_message [where p = "[1, 2]" and r = "[]"])
    apply (simp add: world_simps)
   apply (simp add: frame_12)
  apply (simp add: echo_write_message set_release_def echo_release finish_plain_def Let_def world_simps
       pool_metric_def metric_simps metrics_init_def)
  done

section \<open>Counters\<close>

lemma pool_ops_counters:
  "set ops \<subseteq> {Inc_pool_borrow, Inc_pool_create} \<Longrightarrow>
     in_flight (apply_metrics ops m) = in_flight m \<and> accepted (apply_metrics ops m) = accepted m \<and>
     dropped (apply_metrics ops m) = dropped m \<and> completed (apply_metrics ops m) = completed m \<and>
     errored (apply_metrics ops m) = errored m"
  by (induction ops arbitrary: m) (auto simp: metric_simps)

text \<open>The counters after one request, as a relation between two snapshots.\<close>

definition one_more :: "metrics \<Rightarrow> metrics \<Rightarrow> bool" where
  "one_more m m' \<longleftrightarrow> in_flight m' = in_flight m \<and> accepted m' = accepted m \<and> dropped m' = dropped m \<and>
     (completed m' = completed m + 1 \<and> errored m' = errored m \<or>
      completed m' = completed m \<and> errored m' = errored m + 1)"

lemma exchange_metric_ops:
  assumes "exchange_ok mx x"
  shows "metric_ops (exchange_trace (client_reads h f) (client_writes h f) g x) =
    metric_ops (bor_ev x) @ [final x, Dec_in_flight]"
  using assms
  by (auto simp: exchange_trace_def exchange_ok_def client_reads_def client_writes_def trace_simps)

lemma call_did_metrics:
  assumes "call_did h f solo I I' w w'"
  shows "one_more (metrics_of w) (metrics_of w')"
  using assms unfolding call_did_def
proof (elim disjE exE conjE)
  assume "did w [EvMetric Inc_in_flight, EvClose f, EvMetric Inc_errored, EvMetric Dec_in_flight] w'"
  then show ?thesis by (simp add: did_def trace_simps one_more_def metric_simps)
next
  fix x assume d: "did w (EvMetric Inc_in_flight # exchange_trace (client_reads h f) (client_writes h f) f x) w'"
    and x: "exchange_ok (max_payload h) x"
  from x have "set (metric_ops (bor_ev x)) \<subseteq> {Inc_pool_borrow, Inc_pool_create}"
    and "final x = Inc_completed \<or> final x = Inc_errored"
    by (auto simp: exchange_ok_def pool_events_def completed_ok_def errored_ok_def)
  with d pool_ops_counters [of "metric_ops (bor_ev x)" "inc_in_flight (metrics_of w)"] show ?thesis
    by (auto simp: did_def trace_simps exchange_metric_ops [OF x] one_more_def metric_simps)
qed

text \<open>
  C3: every call of \<open>handle_one\<close>, on every path, whatever the client, the backend, the
  handshake and the other users of the pool do, adds exactly one to exactly one of
  \<open>completed\<close> and \<open>errored\<close>, leaves \<open>in_flight\<close> as it found it, and touches neither
  \<open>accepted\<close> nor \<open>dropped\<close>.
\<close>

theorem handle_one_accounts:
  assumes "host_ok os S e h f" and "set_shape b" and "handle_one_set cv os nd S e h f b w = Some (b', w')"
  shows "let m = metrics_of w; m' = metrics_of w' in
    in_flight m' = in_flight m \<and> accepted m' = accepted m \<and> dropped m' = dropped m \<and>
    (completed m' = completed m + 1 \<and> errored m' = errored m \<or>
     completed m' = completed m \<and> errored m' = errored m + 1)"
  using call_did_metrics [OF handle_one_set_did [OF assms]] by (simp add: one_more_def Let_def)

lemma echo_host_ok: "host_ok echo_os echo_ssl Little default_handler_options 3"
  by (simp add: host_ok_def default_handler_options_def)

theorem handle_one_accounts_witness:
  "\<exists>b' w'. handle_one_set quiet_cv echo_os echo_nd echo_ssl Little default_handler_options 3 echo_backends
     echo_request = Some (b', w') \<and> completed (metrics_of w') = 1 \<and> in_flight (metrics_of w') = 0"
proof -
  obtain b' w' where r: "handle_one_set quiet_cv echo_os echo_nd echo_ssl Little default_handler_options 3
      echo_backends echo_request = Some (b', w')" "completed (metrics_of w') = 1"
    using echo_request_served by blast
  from handle_one_accounts [OF echo_host_ok echo_backends_shape(1) r(1)] r show ?thesis
    by (simp add: Let_def echo_request_def metrics_init_def)
qed

lemma handle_one_pool_accounts:
  assumes "host_ok os S e h f" and "handle_one_pool cv os nd S e h f b w = Some (b', w')"
  shows "one_more (metrics_of w) (metrics_of w')"
  by (rule call_did_metrics [OF handle_one_pool_did [OF assms]])

section \<open>Descriptors\<close>

lemma exchange_fds:
  assumes "exchange_ok mx x"
  shows "opens (exchange_trace (client_reads h f) (client_writes h f) g x) = opens (bor_ev x)"
    and "closes (exchange_trace (client_reads h f) (client_writes h f) g x) =
      closes (bor_ev x) @ closes (rel_ev x) @ [g]"
  using assms by (auto simp: exchange_trace_def exchange_ok_def client_reads_def client_writes_def trace_simps)

lemma call_did_fds:
  assumes "call_did h f True I I' w w'" and "\<forall>g \<in># I. 0 \<le> g"
  shows "\<exists>evs. did w evs w' \<and> f \<in> set (closes evs) \<and>
    add_mset f I + mset (opens evs) = I' + mset (closes evs)"
  using assms(1) unfolding call_did_def
proof (elim disjE exE conjE)
  assume "did w [EvMetric Inc_in_flight, EvClose f, EvMetric Inc_errored, EvMetric Dec_in_flight] w'" "I' = I"
  then show ?thesis
    by (intro exI [of _ "[EvMetric Inc_in_flight, EvClose f, EvMetric Inc_errored, EvMetric Dec_in_flight]"])
      (simp add: trace_simps)
next
  fix x assume d: "did w (EvMetric Inc_in_flight # exchange_trace (client_reads h f) (client_writes h f) f x) w'"
    and x: "exchange_ok (max_payload h) x" and "conserved True I I' x"
  with assms(2) have "I + mset (opens (bor_ev x)) = I' + mset (closes (bor_ev x)) + mset (closes (rel_ev x))"
    by (simp add: conserved_def)
  with d show ?thesis
    by (intro exI [of _ "EvMetric Inc_in_flight # exchange_trace (client_reads h f) (client_writes h f) f x"])
      (simp add: trace_simps exchange_fds [OF x])
qed



section \<open>Bytes\<close>

definition client_got :: "handler_options \<Rightarrow> fd \<Rightarrow> event list \<Rightarrow> bytes" where
  "client_got h f evs = (if server_tls h = None then sent f evs else tls_written f evs)"

definition client_gave :: "handler_options \<Rightarrow> fd \<Rightarrow> event list \<Rightarrow> bytes" where
  "client_gave h f evs = (if server_tls h = None then received f evs else tls_read f evs)"

text \<open>What an exchange transfers, when the backend connection is not the client's descriptor.\<close>

lemma exchange_bytes:
  fixes h :: handler_options
  assumes "exchange_ok mx x" and "b_fd x \<noteq> f"
  defines "evs \<equiv> EvMetric Inc_in_flight # exchange_trace (client_reads h f) (client_writes h f) f x"
  shows "client_gave h f evs = concat (c_in x)" and "client_got h f evs = concat (c_out x)"
    and "sent (b_fd x) evs = concat (b_out x)" and "received (b_fd x) evs = concat (b_in x)"
    and "server_tls h \<noteq> None \<Longrightarrow> sent f evs = [] \<and> received f evs = []"
    and "g \<noteq> f \<Longrightarrow> g \<noteq> b_fd x \<Longrightarrow> sent g evs = [] \<and> received g evs = []"
  using assms(1,2)
  by (auto simp: evs_def exchange_trace_def exchange_ok_def client_reads_def client_writes_def client_got_def
      client_gave_def pool_events_def trace_simps)

lemma exchange_counts:
  assumes "did w (EvMetric Inc_in_flight # exchange_trace (client_reads h f) (client_writes h f) f x) w'"
    and x: "exchange_ok mx x"
  shows "final x = Inc_completed \<Longrightarrow> errored (metrics_of w') = errored (metrics_of w)"
    and "final x = Inc_errored \<Longrightarrow> completed (metrics_of w') = completed (metrics_of w)"
proof -
  from x have "set (metric_ops (bor_ev x)) \<subseteq> {Inc_pool_borrow, Inc_pool_create}"
    by (auto simp: exchange_ok_def pool_events_def)
  from pool_ops_counters [OF this, of "inc_in_flight (metrics_of w)"] assms(1)
  show "final x = Inc_completed \<Longrightarrow> errored (metrics_of w') = errored (metrics_of w)"
    and "final x = Inc_errored \<Longrightarrow> completed (metrics_of w') = completed (metrics_of w)"
    by (simp_all add: did_def trace_simps exchange_metric_ops [OF x] metric_simps)
qed

lemma call_did_completed:
  assumes "call_did h f solo I I' w w'" and "completed (metrics_of w') \<noteq> completed (metrics_of w)"
  obtains x where "did w (EvMetric Inc_in_flight # exchange_trace (client_reads h f) (client_writes h f) f x) w'"
    and "exchange_ok (max_payload h) x" and "final x \<noteq> Inc_errored"
  using assms exchange_counts(2)
  by (force simp: call_did_def did_def trace_simps metric_simps)

lemma call_did_errored:
  assumes "call_did h f solo I I' w w'" and "errored (metrics_of w') \<noteq> errored (metrics_of w)"
  obtains (handshake) "did w [EvMetric Inc_in_flight, EvClose f, EvMetric Inc_errored, EvMetric Dec_in_flight] w'"
  | (exchange) x where
      "did w (EvMetric Inc_in_flight # exchange_trace (client_reads h f) (client_writes h f) f x) w'"
      and "exchange_ok (max_payload h) x" and "final x \<noteq> Inc_completed"
  using assms exchange_counts(1) unfolding call_did_def by blast

text \<open>
  C1: a request that is counted as completed was relayed faithfully. Some payload \<open>req\<close> within
  the limit was read from the client, exactly its frame was written to one backend
  connection, exactly the frame of some payload \<open>resp\<close> within the limit was then read from
  that connection, and exactly that frame was written to the client, in this order; around it
  the request only borrowed and returned the connection and counted. If the connection is not
  the client's own descriptor, no third descriptor carried a byte, and a TLS client's
  descriptor carried none in plain text.
\<close>

theorem handle_one_relays:
  assumes "host_ok os S e h f" and "set_shape b" and "handle_one_set cv os nd S e h f b w = Some (b', w')"
    and "completed (metrics_of w') \<noteq> completed (metrics_of w)"
  shows "\<exists>x req resp evs. evs = EvMetric Inc_in_flight # exchange_trace (client_reads h f) (client_writes h f) f x \<and>
    did w evs w' \<and> pool_events (bor_ev x) \<and> (rel_ev x = [] \<or> rel_ev x = [EvClose (b_fd x)]) \<and>
    frame_fits (max_payload h) req \<and> frame_fits (max_payload h) resp \<and>
    concat (c_in x) = frame req \<and> concat (b_out x) = frame req \<and>
    concat (b_in x) = frame resp \<and> concat (c_out x) = frame resp \<and>
    (b_fd x \<noteq> f \<longrightarrow> (\<forall>d. d \<noteq> b_fd x \<longrightarrow> d \<noteq> f \<or> server_tls h \<noteq> None \<longrightarrow> sent d evs = [] \<and> received d evs = []))"
proof -
  obtain x where d: "did w (EvMetric Inc_in_flight # exchange_trace (client_reads h f) (client_writes h f) f x) w'"
    and x: "exchange_ok (max_payload h) x" "final x \<noteq> Inc_errored"
    using handle_one_set_did [OF assms(1-3)] assms(4) by (auto elim: call_did_completed)
  then obtain req resp where "frame_fits (max_payload h) req" "frame_fits (max_payload h) resp"
    "concat (c_in x) = frame req" "concat (b_out x) = frame req" "concat (b_in x) = frame resp"
    "concat (c_out x) = frame resp"
    by (auto simp: exchange_ok_def completed_ok_def errored_ok_def)
  moreover have "\<forall>d. d \<noteq> b_fd x \<longrightarrow> d \<noteq> f \<or> server_tls h \<noteq> None \<longrightarrow>
      sent d (EvMetric Inc_in_flight # exchange_trace (client_reads h f) (client_writes h f) f x) = [] \<and>
      received d (EvMetric Inc_in_flight # exchange_trace (client_reads h f) (client_writes h f) f x) = []"
    if "b_fd x \<noteq> f"
  proof (intro allI impI)
    fix d assume "d \<noteq> b_fd x" "d \<noteq> f \<or> server_tls h \<noteq> None"
    with exchange_bytes(5,6) [OF x(1) that, where h = h]
    show "sent d (EvMetric Inc_in_flight # exchange_trace (client_reads h f) (client_writes h f) f x) = [] \<and>
      received d (EvMetric Inc_in_flight # exchange_trace (client_reads h f) (client_writes h f) f x) = []"
      by (cases "d = f") simp_all
  qed
  moreover have "pool_events (bor_ev x)" "rel_ev x = [] \<or> rel_ev x = [EvClose (b_fd x)]"
    using x by (auto simp: exchange_ok_def)
  ultimately show ?thesis using d by blast
qed

theorem handle_one_relays_witness:
  "\<exists>b' w' x req resp. handle_one_set quiet_cv echo_os echo_nd echo_ssl Little default_handler_options 3
     echo_backends echo_request = Some (b', w') \<and>
     did echo_request (EvMetric Inc_in_flight # exchange_trace (EvRecv 3) (EvSend 3) 3 x) w' \<and>
     concat (b_out x) = frame req \<and> concat (c_out x) = frame resp"
proof -
  obtain b' w' where r: "handle_one_set quiet_cv echo_os echo_nd echo_ssl Little default_handler_options 3
      echo_backends echo_request = Some (b', w')" "completed (metrics_of w') = 1"
    using echo_request_served by blast
  then have "completed (metrics_of w') \<noteq> completed (metrics_of echo_request)"
    by (simp add: echo_request_def metrics_init_def)
  from handle_one_relays [OF echo_host_ok echo_backends_shape(1) r(1) this] r(1) show ?thesis
    by (auto simp: client_reads_def client_writes_def default_handler_options_def)
qed



section \<open>Termination\<close>



section \<open>The single-backend overload\<close>

text \<open>
  A set of one backend and that backend's pool answer the same way: \<open>one_of p s\<close> relates
  their states. The two overloads are instances of the same control flow, so it is enough to
  relate \<open>borrow\<close> and \<open>release\<close>.
\<close>

definition one_of :: "pool \<Rightarrow> backend_set \<Rightarrow> bool" where
  "one_of p s \<longleftrightarrow> pools s = [p] \<and> set_shape s"

definition same_world :: "('b \<Rightarrow> 'c \<Rightarrow> bool) \<Rightarrow> 'b \<times> 'e world \<Rightarrow> 'c \<times> 'e world \<Rightarrow> bool" where
  "same_world R x y \<longleftrightarrow> R (fst x) (fst y) \<and> snd x = snd y"

lemma rel_bind_eq:
  assumes "\<And>x. rel_option R (f x) (g x)"
  shows "rel_option R (Option.bind m f) (Option.bind m g)"
  using assms by (cases m) auto

lemma rel_bind:
  assumes "rel_option Q m n" and "\<And>x y. Q x y \<Longrightarrow> rel_option R (f x) (g y)"
  shows "rel_option R (Option.bind m f) (Option.bind n g)"
  using assms by (cases m; cases n) auto

lemma relay_served_related:
  assumes "R b b'" and "\<And>ok w. rel_option (same_world R) (rel ok b w) (rel' ok b' w)"
  shows "rel_option (same_world R) (relay_served os e h cwr cerr fin rel g req b w)
    (relay_served os e h cwr cerr fin rel' g req b' w)"
  unfolding relay_served_def
  by (intro rel_bind_eq) (auto intro!: rel_bind_eq rel_bind [OF assms(2)] simp: same_world_def split: prod.splits)

lemma relay_related:
  assumes bor: "\<And>w. rel_option (\<lambda>(x, b1, w1) (x', b1', w1'). (hfd x < 0 \<longleftrightarrow> hfd' x' < 0) \<and> w1 = w1' \<and> R b1 b1' \<and>
      (0 \<le> hfd x \<longrightarrow> hfd x = hfd' x' \<and> (\<forall>ok v. rel_option (same_world R) (rel x ok b1 v) (rel' x' ok b1' v)))) (bor b w) (bor' b' w)"
    and "R b b'"
  shows "rel_option (same_world R) (relay os e h crd cwr cerr fin bor hfd rel b w)
    (relay os e h crd cwr cerr fin bor' hfd' rel' b' w)"
  unfolding relay_def using assms(2)
  by (intro rel_bind_eq) (auto intro!: rel_bind_eq rel_bind [OF bor] relay_served_related
      simp: same_world_def split: prod.splits)

lemma release_related:
  assumes "one_of p s" and "0 \<le> g"
  shows "rel_option (same_world one_of) (release os g ok p w) (set_release os \<lparr>h_fd = g, pool_index = 0\<rparr> ok s w)"
  using assms by (cases "release os g ok p w") (auto simp: set_release_def one_of_def same_world_def set_shape_def Let_def)

lemma borrow_related:
  assumes "one_of p s"
  shows "rel_option (\<lambda>(x, b1, w1) (x', b1', w1'). (borrow_fd x < 0 \<longleftrightarrow> h_fd x' < 0) \<and> w1 = w1' \<and> one_of b1 b1' \<and>
      (0 \<le> borrow_fd x \<longrightarrow> borrow_fd x = h_fd x' \<and> (\<forall>ok v. rel_option (same_world one_of)
         (release os (borrow_fd x) ok b1 v) (set_release os x' ok b1' v))))
    (borrow cv os nd p w) (set_borrow cv os nd s w)"
proof -
  from assms have l: "pools s = [p]" "set_shape s" by (simp_all add: one_of_def)
  then have "tl (zip (loads s) (weights s)) = []"
    by (simp add: set_shape_def flip: length_0_conv)
  then have l0: "pick_lowest_load_locked s = 0" by (simp add: pick_lowest_load_locked_def)
  show ?thesis
  proof (cases "borrow cv os nd p w")
    case (Some r)
    obtain x b1 w1 where r: "r = (x, b1, w1)" by (cases r)
    obtain h s2 where st: "settle_borrow 0 x b1 (snd (pick_locked s)) = (h, s2)"
      by (cases "settle_borrow 0 x b1 (snd (pick_locked s))")
    note ss = settle_borrow_simps [of 0 x b1 "snd (pick_locked s)", unfolded st fst_conv snd_conv]
    from l ss have o: "one_of b1 s2" "borrow_fd x < 0 \<longleftrightarrow> h_fd h < 0" by (simp_all add: one_of_def)
    have h: "h = \<lparr>h_fd = borrow_fd x, pool_index = 0\<rparr>" if "0 \<le> borrow_fd x"
      using settle_borrow_ok [OF that, of 0 b1 "snd (pick_locked s)"] st by simp
    have "set_borrow cv os nd s w = Some (h, s2, w1)"
      using st Some r l l0 by (simp add: set_borrow_def pick_locked_def Let_def)
    moreover have "rel_option (same_world one_of) (release os (borrow_fd x) ok b1 v) (set_release os h ok s2 v)"
      if "0 \<le> borrow_fd x" for ok v
      unfolding h [OF that] by (rule release_related [OF o(1) that])
    ultimately show ?thesis using Some r o h by simp
  qed (use l l0 in \<open>simp add: set_borrow_def pick_locked_def Let_def\<close>)
qed

lemma relay_one_of:
  assumes "one_of p s"
  shows "rel_option (same_world one_of)
    (relay os e h crd cwr cerr fin (borrow cv os nd) borrow_fd (\<lambda>r ok b w. release os (borrow_fd r) ok b w) p w)
    (relay os e h crd cwr cerr fin (set_borrow cv os nd) h_fd (set_release os) s w)"
  using borrow_related [OF assms] assms by (rule relay_related)

lemma handle_one_related:
  assumes "one_of p s"
  shows "rel_option (same_world one_of) (handle_one_pool cv os nd S e h f p w) (handle_one_set cv os nd S e h f s w)"
proof (cases "server_tls h")
  case None
  then show ?thesis
    by (simp add: handle_one_pool_def handle_one_set_def pool_plain_relay set_plain_relay relay_one_of [OF assms])
next
  case (Some ctx)
  then show ?thesis
    using assms by (auto simp: handle_one_pool_def handle_one_set_def pool_tls_relay set_tls_relay Let_def same_world_def
        intro!: rel_bind_eq relay_one_of split: option.splits)
qed

text \<open>
  C15: the two overloads of \<open>handle_one\<close> agree. On a set whose only backend is a pool, the
  overload for sets has the same effect on the world (every transfer, counter and close) as
  the overload for pools has on that pool, leaves the pool in the same state, and returns
  exactly when the other returns.
\<close>

theorem handle_one_overloads_agree:
  assumes "pools s = [p]" and "set_shape s"
  shows "map_option (\<lambda>(s', w'). (pools s', w')) (handle_one_set cv os nd S e h f s w) =
    map_option (\<lambda>(p', w'). ([p'], w')) (handle_one_pool cv os nd S e h f p w)"
proof -
  have "rel_option (same_world one_of) (handle_one_pool cv os nd S e h f p w) (handle_one_set cv os nd S e h f s w)"
    by (rule handle_one_related) (simp add: one_of_def assms)
  then show ?thesis
    by (cases rule: option.rel_cases) (auto simp: same_world_def one_of_def split: prod.splits)
qed

theorem handle_one_overloads_agree_witness:
  "\<exists>p' w'. handle_one_pool quiet_cv echo_os echo_nd echo_ssl Little default_handler_options 3
     (new_pool (default_pool_options\<lparr>host := ''b'', port := 9\<rparr>) True) echo_request = Some (p', w')"
proof -
  have "pools echo_backends = [new_pool (default_pool_options\<lparr>host := ''b'', port := 9\<rparr>) True]"
    by (simp add: echo_backends_def new_backend_set_def)
  from handle_one_overloads_agree [OF this echo_backends_shape(1), of quiet_cv echo_os echo_nd echo_ssl Little
      default_handler_options 3 echo_request] echo_request_served
  show ?thesis by (cases "handle_one_pool quiet_cv echo_os echo_nd echo_ssl Little default_handler_options 3
     (new_pool (default_pool_options\<lparr>host := ''b'', port := 9\<rparr>) True) echo_request") auto
qed

end
