(* ===== verification/Set_Types.thy ===== *)
theory Set_Types
  imports Handler_Properties
begin

text \<open>
  The type of a \<open>BackendSet\<close> at run time. The four vectors of \<open>src/src/backend_set.h\<close> are indexed with the
  same numbers and never resized after the constructor, and the options of the pools and the weights are
  never assigned again: here it is shown that every operation of the set, and every request served with
  it, keeps this, so that no index of the code is out of range.
\<close>

section \<open>Configuration\<close>

text \<open>What no operation changes.\<close>

definition same_config :: "backend_set \<Rightarrow> backend_set \<Rightarrow> bool" where
  "same_config s s' \<longleftrightarrow> map opts (pools s') = map opts (pools s) \<and> map has_metrics (pools s') = map has_metrics (pools s) \<and>
     weights s' = weights s \<and> length (loads s') = length (loads s) \<and> length (handled s') = length (handled s)"

definition set_typed :: "backend_set \<Rightarrow> bool" where
  "set_typed s \<longleftrightarrow> set_shape s \<and> list_all (\<lambda>w. w \<noteq> 0) (weights s) \<and>
     list_all (\<lambda>o'. 0 < max_size o' \<and> min_idle o' \<le> max_size o') (map opts (pools s))"

lemma same_config_refl [simp]: "same_config s s"
  by (simp add: same_config_def)

lemma same_config_trans [trans]: "same_config s t \<Longrightarrow> same_config t u \<Longrightarrow> same_config s u"
  by (simp add: same_config_def)

lemma same_config_length: "same_config s t \<Longrightarrow> length (pools t) = length (pools s)"
  unfolding same_config_def by (metis length_map)

lemma same_config_typed: "same_config s t \<Longrightarrow> set_typed t \<longleftrightarrow> set_typed s"
  using same_config_length [of s t] by (auto simp: same_config_def set_typed_def set_shape_def)

lemma new_backend_set_typed: "set_typed (new_backend_set specs shared m)"
  by (auto simp: set_typed_def set_shape_def new_backend_set_def list_all_iff new_pool_def Let_def)

lemma map_update_same: "f x = f (xs ! i) \<Longrightarrow> map f (xs[i := x]) = map f xs"
  by (cases "i < length xs") (simp_all add: map_update list_update_same_conv list_update_beyond)

lemma same_config_update:
  assumes "opts p = opts (pools s ! i)" and "has_metrics p = has_metrics (pools s ! i)"
    and "length ls = length (loads s)" and "length hs = length (handled s)"
  shows "same_config s (s\<lparr>pools := (pools s)[i := p], loads := ls, handled := hs\<rparr>)"
  using assms by (simp add: same_config_def map_update_same)

section \<open>The operations keep the configuration\<close>

text \<open>
  What other threads do to a pool while \<open>borrow\<close> waits on its condition variable does not touch the options
  and the pointer to the counters, which are assigned in the constructor only.
\<close>

definition cv_keeps :: "(int \<Rightarrow> pool \<Rightarrow> 'e \<Rightarrow> bool \<times> pool \<times> 'e) \<Rightarrow> bool" where
  "cv_keeps cv \<longleftrightarrow> (\<forall>dl p e. opts (fst (snd (cv dl p e))) = opts p \<and> has_metrics (fst (snd (cv dl p e))) = has_metrics p)"

lemma borrow_loop_keeps:
  "borrow_loop cv os nd dl p w = Some r \<Longrightarrow> cv_keeps cv \<Longrightarrow>
     opts (fst (snd r)) = opts p \<and> has_metrics (fst (snd r)) = has_metrics p"
proof (induction rule: borrow_loop_induct)
  case (step g cv os nd dl p w r)
  show ?case
  proof (cases p rule: borrow_locked_cases)
    case dial
    with step.hyps show ?thesis by (auto simp: dial_failed_locked_def elim!: bind_SomeE split: if_splits)
  next
    case wait
    obtain tm p2 x where cv: "cv dl p (env w) = (tm, p2, x)" by (metis prod_cases3)
    with step.prems have k: "opts p2 = opts p" "has_metrics p2 = has_metrics p"
      unfolding cv_keeps_def by (metis fst_conv snd_conv)+
    with wait cv step.hyps step.IH step.prems show ?thesis by (cases tm) auto
  qed (use step.hyps in auto)
qed

lemma borrow_keeps:
  "borrow cv os nd p w = Some (res, p', w') \<Longrightarrow> cv_keeps cv \<Longrightarrow> opts p' = opts p \<and> has_metrics p' = has_metrics p"
  by (auto simp: borrow_def split: prod.splits dest!: borrow_loop_keeps)

lemma release_keeps: "release os f ok p w = Some (p', w') \<Longrightarrow> opts p' = opts p \<and> has_metrics p' = has_metrics p"
  by (auto simp: release_def Let_def split: if_splits prod.splits elim!: bind_SomeE)

lemma set_borrow_config:
  assumes "set_borrow cv os nd s w = Some (x, s', w')" and "cv_keeps cv"
  shows "same_config s s'"
proof (cases "pools s = []")
  case True
  with assms(1) show ?thesis by (simp add: set_borrow_def)
next
  case False
  let ?i = "pick_lowest_load_locked s"
  from False assms(1) obtain res p where b: "borrow cv os nd (pools s ! ?i) w = Some (res, p, w')"
    and k: "snd (settle_borrow ?i res p (s\<lparr>loads := bump (loads s) ?i\<rparr>)) = s'"
    by (auto simp: set_borrow_def pick_locked_def Let_def elim!: bind_SomeE split: prod.splits)
  note c = same_config_update [of p s ?i, OF borrow_keeps [OF b assms(2), THEN conjunct1] borrow_keeps [OF b assms(2), THEN conjunct2]]
  show ?thesis
    using c [of "unbump (bump (loads s) ?i) ?i" "handled s"] c [of "bump (loads s) ?i" "bump (handled s) ?i"]
    unfolding k [symmetric] by (auto simp: settle_borrow_def Let_def same_config_def)
qed

lemma set_release_config:
  assumes "set_release os x ok s w = Some (s', w')"
  shows "same_config s s'"
proof -
  have c: "same_config s (s\<lparr>pools := (pools s)[pool_index x := p], loads := unbump (loads s) (pool_index x)\<rparr>)"
    if "release os (h_fd x) ok (pools s ! pool_index x) w = Some (p, v)" for p v
    using same_config_update [of p s "pool_index x" "unbump (loads s) (pool_index x)" "handled s"] release_keeps [OF that]
    by simp
  from assms show ?thesis
    by (auto simp: set_release_def Let_def split: if_splits elim!: bind_SomeE intro: c)
qed

lemma shutdown_pools_keeps:
  "shutdown_pools os ps w = Some (ps', w') \<Longrightarrow> map opts ps' = map opts ps \<and> map has_metrics ps' = map has_metrics ps"
  by (induction ps arbitrary: ps' w)
    (fastforce simp: shutdown_def shutdown_locked_def split: if_splits elim!: bind_SomeE)+

lemma set_shutdown_config: "set_shutdown os s w = Some (s', w') \<Longrightarrow> same_config s s'"
  by (auto simp: set_shutdown_def same_config_def elim!: bind_SomeE dest: shutdown_pools_keeps)

section \<open>A request keeps the configuration\<close>

text \<open>What borrowing and releasing keep, a relayed request keeps.\<close>

lemma relay_keeps:
  assumes run: "relay os e h crd cwr cerr fin bor hfd rel b w = Some (b', w')"
    and R: "reflp R" "transp R" and bor: "\<And>b w x b' w'. bor b w = Some (x, b', w') \<Longrightarrow> R b b'"
    and rel: "\<And>x ok b w b' w'. rel x ok b w = Some (b', w') \<Longrightarrow> R b b'"
  shows "R b b'"
proof -
  have served: "R b1 b2" if "relay_served os e h cwr cerr fin (rel x) g req b1 v = Some (b2, v')" for x g req b1 v b2 v'
    using that by (auto simp: relay_served_def elim!: bind_SomeE split: if_splits) (rule rel, assumption)+
  from run show ?thesis
    by (auto simp: relay_def elim!: bind_SomeE split: if_splits dest!: bor served)
      (rule reflpD [OF R(1)] | (rule transpD [OF R(2)], assumption, assumption))+
qed

lemma handle_one_set_config:
  assumes "handle_one_set cv os nd S e h f b w = Some (b', w')" and "cv_keeps cv"
  shows "same_config b b'"
proof -
  have R: "reflp same_config" "transp same_config" by (auto intro: reflpI transpI same_config_trans)
  note k = R set_borrow_config [OF _ assms(2)] set_release_config
  show ?thesis
  proof (cases "server_tls h")
    case None
    with assms(1) show ?thesis
      by (auto simp: handle_one_set_def set_plain_relay Let_def elim!: relay_keeps [OF _ k])
  next
    case (Some ctx)
    with assms(1) show ?thesis
      by (auto simp: handle_one_set_def set_tls_relay Let_def split: option.splits elim!: bind_SomeE relay_keeps [OF _ k])
  qed
qed

section \<open>Any sequence of operations\<close>

inductive set_used ::
    "(int \<Rightarrow> pool \<Rightarrow> 'e \<Rightarrow> bool \<times> pool \<times> 'e) \<Rightarrow> 'e os \<Rightarrow> ('a, 'e) netdb \<Rightarrow> 'e openssl \<Rightarrow> endian \<Rightarrow> backend_set \<Rightarrow> backend_set \<Rightarrow> bool"
    for cv os nd S e b where
  unused: "set_used cv os nd S e b b"
| borrows: "set_used cv os nd S e b s \<Longrightarrow> set_borrow cv os nd s w = Some (x, s', w') \<Longrightarrow> set_used cv os nd S e b s'"
| releases: "set_used cv os nd S e b s \<Longrightarrow> set_release os x ok s w = Some (s', w') \<Longrightarrow> set_used cv os nd S e b s'"
| shuts_down: "set_used cv os nd S e b s \<Longrightarrow> set_shutdown os s w = Some (s', w') \<Longrightarrow> set_used cv os nd S e b s'"
| serves: "set_used cv os nd S e b s \<Longrightarrow> handle_one_set cv os nd S e h f s w = Some (s', w') \<Longrightarrow> set_used cv os nd S e b s'"

lemma set_used_config: "set_used cv os nd S e b s \<Longrightarrow> cv_keeps cv \<Longrightarrow> same_config b s"
  by (induction rule: set_used.induct)
    (auto intro: same_config_trans set_borrow_config set_release_config set_shutdown_config handle_one_set_config)

section \<open>Property\<close>

text \<open>
  C20: the run-time type of a \<open>BackendSet\<close>. However a set that the constructor made is used, by borrows,
  releases, shutdowns and whole requests in any order and with any outcome of the system calls, its vectors
  keep one entry per backend, no weight is zero, each pool keeps its backend's address and a positive bound
  of at least its \<open>min_idle\<close>, the index that \<open>pick_lowest_load_locked_\<close> computes is in range, and so is
  the one in every handle that \<open>borrow\<close> gives out.
\<close>

theorem backend_set_typed:
  assumes "set_used cv os nd S e (new_backend_set specs shared m) s" and "cv_keeps cv"
  shows "set_typed s \<and> backend_count s = length specs \<and>
    map (\<lambda>p. (host (opts p), port (opts p))) (pools s) = map (\<lambda>sp. (spec_host sp, spec_port sp)) specs \<and>
    (specs \<noteq> [] \<longrightarrow> pick_lowest_load_locked s < backend_count s) \<and>
    (\<forall>w x s' w'. set_borrow cv os nd s w = Some (x, s', w') \<and> 0 \<le> h_fd x \<longrightarrow> pool_index x < backend_count s')"
proof -
  let ?b = "new_backend_set specs shared m"
  have c: "same_config ?b s" by (rule set_used_config [OF assms])
  have t: "set_typed s" using c new_backend_set_typed same_config_typed by blast
  then have sh: "set_shape s" by (simp add: set_typed_def)
  have n: "length (pools s) = length specs" using same_config_length [OF c] by (simp add: new_backend_set_def)
  have "map (\<lambda>p. (host (opts p), port (opts p))) (pools s) = map (\<lambda>o'. (host o', port o')) (map opts (pools s))"
    by simp
  also have "map opts (pools s) = map opts (pools ?b)" using c by (simp add: same_config_def)
  also have "map (\<lambda>o'. (host o', port o')) (map opts (pools ?b)) = map (\<lambda>sp. (spec_host sp, spec_port sp)) specs"
    by (simp add: new_backend_set_def new_pool_def Let_def)
  finally have a: "map (\<lambda>p. (host (opts p), port (opts p))) (pools s) = map (\<lambda>sp. (spec_host sp, spec_port sp)) specs" .
  have "pick_lowest_load_locked s < backend_count s" if "specs \<noteq> []"
    using pick_less [OF sh] that n by (force simp: backend_count_def)
  moreover have "pool_index x < backend_count s'" if "set_borrow cv os nd s w = Some (x, s', w')" "0 \<le> h_fd x" for w x s' w'
    using set_borrow_events [OF sh that(1)] that(2) by (simp add: backend_count_def)
  ultimately show ?thesis using t n a by (auto simp: backend_count_def)
qed

theorem backend_set_typed_witness:
  "\<exists>x s w. set_borrow quiet_cv echo_os echo_nd echo_backends echo_request = Some (x, s, w) \<and> h_fd x = 9 \<and>
     set_typed s \<and> pick_lowest_load_locked s < 1"
proof -
  obtain x s w where b: "set_borrow quiet_cv echo_os echo_nd echo_backends echo_request = Some (x, s, w)" "h_fd x = 9"
    by (simp add: set_borrow_def echo_backends_def new_backend_set_def pick_locked_def pick_lowest_load_locked_def Let_def
        echo_borrow settle_borrow_def split: prod.splits)
  let ?specs = "[\<lparr>spec_host = ''b'', spec_port = 9, spec_weight = 1\<rparr>]"
  have u: "set_used quiet_cv echo_os echo_nd echo_ssl Little (new_backend_set ?specs default_pool_options True) s"
    using borrows [OF unused b(1) [unfolded echo_backends_def]] .
  have k: "cv_keeps quiet_cv" by (simp add: cv_keeps_def quiet_cv_def)
  from backend_set_typed [OF u k] b show ?thesis by (intro exI) auto
qed

end
