(* ===== verification/Thread_Pool.thy ===== *)
theory Thread_Pool
  imports Prelude "HOL-Library.Multiset"
begin

text \<open>
  \<open>src/src/thread_pool.{h,cpp}\<close>: the bounded queue of tasks and its workers. The sections
  between lock and unlock are functions on the pool's fields; the threads that run them, the
  two condition variables and their notifications are a step relation. A task is a value of
  the type parameter: the pool never looks into it.
\<close>

section \<open>The fields and the sections under the lock\<close>

record tp_options =
  worker_count :: nat
  max_queue_depth :: nat
  reject_on_full :: bool

definition default_tp_options :: tp_options where
  "default_tp_options = \<lparr>worker_count = 4, max_queue_depth = 1024, reject_on_full = False\<rparr>"

record 't thread_pool =
  topts :: tp_options
  queue :: "'t list"
  stop_flag :: bool
  drain_on_stop :: bool

definition new_thread_pool :: "tp_options \<Rightarrow> 't thread_pool" where
  "new_thread_pool o' =
     \<lparr>topts = o'\<lparr>worker_count := (if worker_count o' = 0 then 1 else worker_count o'),
        max_queue_depth := (if max_queue_depth o' = 0 then 1 else max_queue_depth o')\<rparr>,
      queue = [], stop_flag = False, drain_on_stop = True\<rparr>"

text \<open>
  \<open>submit\<close> from the lock to its return or to the wait on \<open>not_full_\<close>. A caller that was woken
  re-evaluates the predicate of the wait and the test after it, which is the same function
  of the fields.
\<close>

datatype submit_result = Accepted | Rejected | Blocked

definition submit_locked :: "'t \<Rightarrow> 't thread_pool \<Rightarrow> submit_result \<times> 't thread_pool" where
  "submit_locked task p =
     (if stop_flag p then (Rejected, p)
      else if reject_on_full (topts p) then
        (if max_queue_depth (topts p) \<le> length (queue p) then (Rejected, p)
         else (Accepted, p\<lparr>queue := queue p @ [task]\<rparr>))
      else if \<not> (length (queue p) < max_queue_depth (topts p) \<or> stop_flag p) then (Blocked, p)
      else if stop_flag p then (Rejected, p)
      else (Accepted, p\<lparr>queue := queue p @ [task]\<rparr>))"

text \<open>One pass of the loop of \<open>worker_main\<close>: wait on \<open>not_empty_\<close>, return, or take a task.\<close>

datatype 't worker_result = Wait | Return | Take 't

definition worker_locked :: "'t thread_pool \<Rightarrow> 't worker_result \<times> 't thread_pool" where
  "worker_locked p =
     (if \<not> (queue p \<noteq> [] \<or> stop_flag p) then (Wait, p)
      else case queue p of
        [] \<Rightarrow> if \<not> drain_on_stop p then (Return, p) else (Return, p)
      | task # rest \<Rightarrow> (Take task, p\<lparr>queue := rest\<rparr>))"

text \<open>The result says whether the call goes on to notify and join.\<close>

definition stop_locked :: "'t thread_pool \<Rightarrow> bool \<times> 't thread_pool" where
  "stop_locked p =
     (if stop_flag p then (False, p) else (True, p\<lparr>stop_flag := True, drain_on_stop := True\<rparr>))"

definition stop_no_drain_locked :: "'t thread_pool \<Rightarrow> bool \<times> 't thread_pool" where
  "stop_no_drain_locked p =
     (if stop_flag p then (False, p)
      else (True, p\<lparr>stop_flag := True, drain_on_stop := False, queue := []\<rparr>))"

definition pending :: "'t thread_pool \<Rightarrow> nat" where "pending p = length (queue p)"

definition stopped :: "'t thread_pool \<Rightarrow> bool" where "stopped p = stop_flag p"

section \<open>The threads\<close>

text \<open>
  \<open>trying\<close> are the callers of \<open>submit\<close> about to take the lock, \<open>blocked\<close> those that wait on
  \<open>not_full_\<close>; \<open>ready\<close> counts the workers about to take the lock, \<open>waiting_workers\<close> those
  that wait on \<open>not_empty_\<close>. Workers are interchangeable. \<open>stop_at\<close> is how far the stopping
  call is. The rest is history: the accepted tasks in order, the tasks taken in order, what
  \<open>stop_no_drain\<close> threw away, the finished tasks and the refused ones.
\<close>

datatype stop_phase = Open | Notifying | Joining | Joined

record 't tp_state =
  tp :: "'t thread_pool"
  trying :: "'t multiset"
  blocked :: "'t multiset"
  ready :: nat
  waiting_workers :: nat
  running :: "'t multiset"
  exited :: nat
  stop_at :: stop_phase
  accepted_log :: "'t list"
  taken :: "'t list"
  discarded :: "'t list"
  finished :: "'t multiset"
  refused :: "'t multiset"

definition tp_init :: "tp_options \<Rightarrow> 't tp_state" where
  "tp_init o' = \<lparr>tp = new_thread_pool o', trying = {#}, blocked = {#},
     ready = worker_count (topts (new_thread_pool o' :: 't thread_pool)), waiting_workers = 0, running = {#},
     exited = 0, stop_at = Open, accepted_log = [], taken = [], discarded = [], finished = {#}, refused = {#}\<rparr>"

text \<open>\<open>notify_one\<close> on the two condition variables; any waiter may be chosen.\<close>

definition wake_worker :: "'t tp_state \<Rightarrow> 't tp_state" where
  "wake_worker s = (if waiting_workers s = 0 then s
     else s\<lparr>waiting_workers := waiting_workers s - 1, ready := ready s + 1\<rparr>)"

definition wakes_submitter :: "'t tp_state \<Rightarrow> 't tp_state \<Rightarrow> bool" where
  "wakes_submitter s s' \<longleftrightarrow> (if blocked s = {#} then s' = s
     else \<exists>t. t \<in># blocked s \<and> s' = s\<lparr>blocked := blocked s - {#t#}, trying := add_mset t (trying s)\<rparr>)"

definition notify_all :: "'t tp_state \<Rightarrow> 't tp_state" where
  "notify_all s = s\<lparr>ready := ready s + waiting_workers s, waiting_workers := 0,
     trying := trying s + blocked s, blocked := {#}, stop_at := Joining\<rparr>"

datatype 't tp_action =
  CallSubmit 't | SubmitPass 't submit_result | WorkerPass "'t worker_result" | TaskDone 't
| CallStop | CallStopNoDrain | NotifyAll | JoinAll | SpuriousWorker | SpuriousSubmit 't

inductive tp_step :: "'t tp_state \<Rightarrow> 't tp_action \<Rightarrow> 't tp_state \<Rightarrow> bool" where
  call_submit: "tp_step s (CallSubmit t) (s\<lparr>trying := add_mset t (trying s)\<rparr>)"
| submit_accepted: "t \<in># trying s \<Longrightarrow> submit_locked t (tp s) = (Accepted, p) \<Longrightarrow>
    tp_step s (SubmitPass t Accepted)
      (wake_worker (s\<lparr>tp := p, trying := trying s - {#t#}, accepted_log := accepted_log s @ [t]\<rparr>))"
| submit_rejected: "t \<in># trying s \<Longrightarrow> submit_locked t (tp s) = (Rejected, p) \<Longrightarrow>
    tp_step s (SubmitPass t Rejected)
      (s\<lparr>tp := p, trying := trying s - {#t#}, refused := add_mset t (refused s)\<rparr>)"
| submit_blocked: "t \<in># trying s \<Longrightarrow> submit_locked t (tp s) = (Blocked, p) \<Longrightarrow>
    tp_step s (SubmitPass t Blocked)
      (s\<lparr>tp := p, trying := trying s - {#t#}, blocked := add_mset t (blocked s)\<rparr>)"
| worker_waits: "0 < ready s \<Longrightarrow> worker_locked (tp s) = (Wait, p) \<Longrightarrow>
    tp_step s (WorkerPass Wait)
      (s\<lparr>tp := p, ready := ready s - 1, waiting_workers := waiting_workers s + 1\<rparr>)"
| worker_returns: "0 < ready s \<Longrightarrow> worker_locked (tp s) = (Return, p) \<Longrightarrow>
    tp_step s (WorkerPass Return) (s\<lparr>tp := p, ready := ready s - 1, exited := exited s + 1\<rparr>)"
| worker_takes: "0 < ready s \<Longrightarrow> worker_locked (tp s) = (Take t, p) \<Longrightarrow>
    wakes_submitter (s\<lparr>tp := p, ready := ready s - 1, running := add_mset t (running s),
      taken := taken s @ [t]\<rparr>) s' \<Longrightarrow>
    tp_step s (WorkerPass (Take t)) s'"
| task_done: "t \<in># running s \<Longrightarrow>
    tp_step s (TaskDone t) (s\<lparr>running := running s - {#t#}, finished := add_mset t (finished s),
      ready := ready s + 1\<rparr>)"
| stop_first: "stop_locked (tp s) = (True, p) \<Longrightarrow> tp_step s CallStop (s\<lparr>tp := p, stop_at := Notifying\<rparr>)"
| stop_again: "stop_locked (tp s) = (False, p) \<Longrightarrow> tp_step s CallStop (s\<lparr>tp := p\<rparr>)"
| stop_no_drain_first: "stop_no_drain_locked (tp s) = (True, p) \<Longrightarrow>
    tp_step s CallStopNoDrain (s\<lparr>tp := p, stop_at := Notifying, discarded := queue (tp s)\<rparr>)"
| stop_no_drain_again: "stop_no_drain_locked (tp s) = (False, p) \<Longrightarrow>
    tp_step s CallStopNoDrain (s\<lparr>tp := p\<rparr>)"
| stop_notifies: "stop_at s = Notifying \<Longrightarrow> tp_step s NotifyAll (notify_all s)"
| stop_joins: "stop_at s = Joining \<Longrightarrow> exited s = worker_count (topts (tp s)) \<Longrightarrow>
    tp_step s JoinAll (s\<lparr>stop_at := Joined\<rparr>)"
| spurious_worker: "0 < waiting_workers s \<Longrightarrow> tp_step s SpuriousWorker (wake_worker s)"
| spurious_submit: "t \<in># blocked s \<Longrightarrow>
    tp_step s (SpuriousSubmit t) (s\<lparr>blocked := blocked s - {#t#}, trying := add_mset t (trying s)\<rparr>)"

text \<open>The results of the locked sections, one equivalence per result.\<close>

lemma submit_locked_iff:
  "submit_locked t p = (Accepted, p') \<longleftrightarrow>
     \<not> stop_flag p \<and> length (queue p) < max_queue_depth (topts p) \<and> p' = p\<lparr>queue := queue p @ [t]\<rparr>"
  "submit_locked t p = (Rejected, p') \<longleftrightarrow>
     (stop_flag p \<or> reject_on_full (topts p) \<and> max_queue_depth (topts p) \<le> length (queue p)) \<and> p' = p"
  "submit_locked t p = (Blocked, p') \<longleftrightarrow>
     \<not> stop_flag p \<and> \<not> reject_on_full (topts p) \<and> max_queue_depth (topts p) \<le> length (queue p) \<and> p' = p"
  by (auto simp: submit_locked_def)

lemma worker_locked_iff:
  "worker_locked p = (Wait, p') \<longleftrightarrow> queue p = [] \<and> \<not> stop_flag p \<and> p' = p"
  "worker_locked p = (Return, p') \<longleftrightarrow> queue p = [] \<and> stop_flag p \<and> p' = p"
  "worker_locked p = (Take t, p') \<longleftrightarrow> (\<exists>rest. queue p = t # rest \<and> p' = p\<lparr>queue := rest\<rparr>)"
  by (auto simp: worker_locked_def split: list.splits)

lemma stop_locked_iff:
  "stop_locked p = (True, p') \<longleftrightarrow> \<not> stop_flag p \<and> p' = p\<lparr>stop_flag := True, drain_on_stop := True\<rparr>"
  "stop_locked p = (False, p') \<longleftrightarrow> stop_flag p \<and> p' = p"
  "stop_no_drain_locked p = (True, p') \<longleftrightarrow>
     \<not> stop_flag p \<and> p' = p\<lparr>stop_flag := True, drain_on_stop := False, queue := []\<rparr>"
  "stop_no_drain_locked p = (False, p') \<longleftrightarrow> stop_flag p \<and> p' = p"
  by (auto simp: stop_locked_def stop_no_drain_locked_def)

lemmas tp_locked_iffs = submit_locked_iff worker_locked_iff stop_locked_iff

section \<open>The invariants\<close>

text \<open>Every accepted task is in exactly one place, in order; the queue respects its bound.\<close>

definition tasks_ok :: "'t tp_state \<Rightarrow> bool" where
  "tasks_ok s \<longleftrightarrow> accepted_log s = taken s @ discarded s @ queue (tp s) \<and> (discarded s \<noteq> [] \<longrightarrow> queue (tp s) = []) \<and>
     (discarded s \<noteq> [] \<longrightarrow> stop_flag (tp s) \<and> \<not> drain_on_stop (tp s)) \<and>
     mset (taken s) = finished s + running s \<and>
     0 < max_queue_depth (topts (tp s)) \<and> length (queue (tp s)) \<le> max_queue_depth (topts (tp s))"

text \<open>
  No wake-up is lost: while a worker sleeps there are at least as many awake ones in front
  of the lock as queued tasks; while a caller of \<open>submit\<close> sleeps, the free places of the queue
  are spoken for by callers that are awake; after a stop nobody sleeps once it has notified.
\<close>

definition sleepers_ok :: "'t tp_state \<Rightarrow> bool" where
  "sleepers_ok s \<longleftrightarrow> (0 < waiting_workers s \<longrightarrow> length (queue (tp s)) \<le> ready s)"

definition callers_ok :: "'t tp_state \<Rightarrow> bool" where
  "callers_ok s \<longleftrightarrow> (blocked s \<noteq> {#} \<longrightarrow> stop_flag (tp s) \<or>
     max_queue_depth (topts (tp s)) \<le> length (queue (tp s)) + size (trying s))"

definition phase_ok :: "'t tp_state \<Rightarrow> bool" where
  "phase_ok s \<longleftrightarrow> (stop_flag (tp s) \<longleftrightarrow> stop_at s \<noteq> Open) \<and>
     (stop_at s = Joining \<or> stop_at s = Joined \<longrightarrow> waiting_workers s = 0 \<and> blocked s = {#})"

text \<open>Every worker is in one state, and one that returned left an empty, stopped queue.\<close>

definition crew_ok :: "'t tp_state \<Rightarrow> bool" where
  "crew_ok s \<longleftrightarrow> ready s + waiting_workers s + size (running s) + exited s = worker_count (topts (tp s)) \<and>
     0 < worker_count (topts (tp s)) \<and> (0 < exited s \<longrightarrow> stop_flag (tp s) \<and> queue (tp s) = []) \<and>
     (stop_at s = Joined \<longrightarrow> exited s = worker_count (topts (tp s)))"

definition wakeups_ok :: "'t tp_state \<Rightarrow> bool" where
  "wakeups_ok s \<longleftrightarrow> sleepers_ok s \<and> callers_ok s \<and> phase_ok s \<and> crew_ok s"

lemma wakes_submitter_simps:
  assumes "wakes_submitter s s'"
  shows "tp s' = tp s" "ready s' = ready s" "waiting_workers s' = waiting_workers s" "running s' = running s"
    "exited s' = exited s" "stop_at s' = stop_at s" "accepted_log s' = accepted_log s" "taken s' = taken s"
    "discarded s' = discarded s" "finished s' = finished s" "refused s' = refused s"
    "trying s' + blocked s' = trying s + blocked s"
    "size (trying s') = size (trying s) + (if blocked s = {#} then 0 else 1)"
    "blocked s = {#} \<Longrightarrow> blocked s' = {#}"
  using assms by (auto simp: wakes_submitter_def split: if_splits)

lemma wakes_submitter_total: "\<exists>s'. wakes_submitter s s'"
  by (cases "blocked s = {#}") (auto simp: wakes_submitter_def)

lemma wake_worker_simps [simp]:
  "tp (wake_worker s) = tp s" "trying (wake_worker s) = trying s" "blocked (wake_worker s) = blocked s"
  "running (wake_worker s) = running s" "exited (wake_worker s) = exited s" "stop_at (wake_worker s) = stop_at s"
  "accepted_log (wake_worker s) = accepted_log s" "taken (wake_worker s) = taken s" "discarded (wake_worker s) = discarded s"
  "finished (wake_worker s) = finished s" "refused (wake_worker s) = refused s"
  "ready (wake_worker s) + waiting_workers (wake_worker s) = ready s + waiting_workers s"
  "ready (wake_worker s) = ready s + (if waiting_workers s = 0 then 0 else 1)"
  "waiting_workers (wake_worker s) = waiting_workers s - 1"
  by (simp_all add: wake_worker_def)

lemma tasks_ok_step:
  assumes "tasks_ok s" and "tp_step s a s'"
  shows "tasks_ok s'"
  using assms(2)
proof cases
  case (worker_takes t p)
  with assms(1) show ?thesis
    by (auto simp: tasks_ok_def wakes_submitter_simps worker_locked_iff)
next
  case (task_done t)
  with assms(1) show ?thesis by (auto simp: tasks_ok_def)
qed (use assms(1) in \<open>auto simp: tasks_ok_def tp_locked_iffs notify_all_def\<close>)

text \<open>A worker that takes a task: the head of the queue, and the effect on what the invariants read.\<close>

lemma takes_effect:
  assumes "worker_locked (tp s) = (Take t, p)"
    and "wakes_submitter (s\<lparr>tp := p, ready := ready s - 1, running := add_mset t (running s), taken := taken s @ [t]\<rparr>) s'"
  obtains rest where "queue (tp s) = t # rest" and "tp s' = (tp s)\<lparr>queue := rest\<rparr>" and "ready s' = ready s - 1"
    and "running s' = add_mset t (running s)" and "waiting_workers s' = waiting_workers s" and "exited s' = exited s"
    and "stop_at s' = stop_at s" and "size (trying s') = size (trying s) + (if blocked s = {#} then 0 else 1)"
    and "blocked s = {#} \<Longrightarrow> blocked s' = {#}" and "trying s' + blocked s' = trying s + blocked s"
  using assms(1) wakes_submitter_simps [OF assms(2)] that by (auto simp: worker_locked_iff)

lemma sleepers_ok_step:
  assumes "tp_step s a s'" and "sleepers_ok s"
  shows "sleepers_ok s'"
  using assms(1)
proof cases
  case (worker_takes t p)
  from worker_takes(3,4) show ?thesis
    by (rule takes_effect) (use worker_takes(2) assms(2) in \<open>auto simp: sleepers_ok_def\<close>)
qed (use assms(2) in \<open>auto simp: sleepers_ok_def tp_locked_iffs notify_all_def\<close>)

lemma callers_ok_step:
  assumes "tp_step s a s'" and "callers_ok s"
  shows "callers_ok s'"
  using assms(1)
proof cases
  case (submit_accepted t p)
  then obtain T where "trying s = add_mset t T" by (blast dest: multi_member_split)
  with submit_accepted assms(2) show ?thesis by (simp add: callers_ok_def submit_locked_iff)
next
  case (submit_rejected t p)
  then show ?thesis using assms(2)
    by (auto simp: callers_ok_def submit_locked_iff)
next
  case (worker_takes t p)
  from worker_takes(3,4) show ?thesis
    by (rule takes_effect) (use assms(2) in \<open>auto simp: callers_ok_def split: if_splits\<close>)
qed (use assms(2) in \<open>auto simp: callers_ok_def tp_locked_iffs notify_all_def\<close>)

lemma phase_ok_step:
  assumes "tp_step s a s'" and "phase_ok s"
  shows "phase_ok s'"
  using assms(1)
proof cases
  case (worker_takes t p)
  from worker_takes(3,4) show ?thesis
    by (rule takes_effect) (use assms(2) in \<open>auto simp: phase_ok_def\<close>)
qed (use assms(2) in \<open>auto simp: phase_ok_def tp_locked_iffs notify_all_def\<close>)

lemma crew_ok_step:
  assumes "tp_step s a s'" and "crew_ok s" and "phase_ok s"
  shows "crew_ok s'"
  using assms(1)
proof cases
  case (worker_takes t p)
  from worker_takes(3,4) show ?thesis
    by (rule takes_effect) (use worker_takes(2) assms(2) in \<open>auto simp: crew_ok_def\<close>)
next
  case (task_done t)
  then obtain R where "running s = add_mset t R" by (blast dest: multi_member_split)
  with task_done assms(2) show ?thesis by (auto simp: crew_ok_def)
qed (use assms(2,3) in \<open>auto simp: crew_ok_def phase_ok_def tp_locked_iffs notify_all_def\<close>)

lemma wakeups_ok_step: "wakeups_ok s \<Longrightarrow> tp_step s a s' \<Longrightarrow> wakeups_ok s'"
  by (simp add: wakeups_ok_def sleepers_ok_step callers_ok_step phase_ok_step crew_ok_step)

interpretation tasks_inv: machine_invariant tp_step tasks_ok
  by unfold_locales (rule tasks_ok_step)

interpretation wakeups_inv: machine_invariant tp_step wakeups_ok
  by unfold_locales (rule wakeups_ok_step)

lemma tp_init_ok: "tasks_ok (tp_init o')" "wakeups_ok (tp_init o')"
  by (simp_all add: tasks_ok_def wakeups_ok_def sleepers_ok_def callers_ok_def phase_ok_def crew_ok_def
      tp_init_def new_thread_pool_def)

lemma tp_opts_step: "tp_step s a s' \<Longrightarrow> topts (tp s') = topts (tp s)"
  by (erule tp_step.cases)
    (auto simp: tp_locked_iffs notify_all_def wakes_submitter_simps)

lemma tp_opts_runs: "runs tp_step s acts s' \<Longrightarrow> topts (tp s') = topts (tp s)"
  by (induction rule: runs.induct) (simp_all add: tp_opts_step)

section \<open>Progress\<close>

text \<open>The steps that start a call of \<open>submit\<close> or \<open>stop\<close>, as opposed to those that advance one.\<close>

fun is_call :: "'t tp_action \<Rightarrow> bool" where
  "is_call (CallSubmit t) = True"
| "is_call CallStop = True"
| "is_call CallStopNoDrain = True"
| "is_call _ = False"

text \<open>The wake-ups without a notification, which nobody may count on.\<close>

fun spurious :: "'t tp_action \<Rightarrow> bool" where
  "spurious SpuriousWorker = True"
| "spurious (SpuriousSubmit t) = True"
| "spurious _ = False"

fun phase_cost :: "stop_phase \<Rightarrow> nat" where
  "phase_cost Open = 3"
| "phase_cost Notifying = 2"
| "phase_cost Joining = 1"
| "phase_cost Joined = 0"

text \<open>What is left to do after a stop, in steps.\<close>

definition work_left :: "'t tp_state \<Rightarrow> nat" where
  "work_left s = 2 * length (queue (tp s)) + ready s + 2 * waiting_workers s + 2 * size (running s) +
     size (trying s) + 2 * size (blocked s) + phase_cost (stop_at s)"

lemma stop_flag_step: "tp_step s a s' \<Longrightarrow> stop_flag (tp s) \<Longrightarrow> stop_flag (tp s')"
  by (erule tp_step.cases)
    (auto simp: tp_locked_iffs notify_all_def wakes_submitter_simps)

lemma work_left_step:
  assumes st: "stop_flag (tp s)" and "tp_step s a s'"
  shows "work_left s' + (if is_call a then 0 else 1) \<le> work_left s + (if is_call a then 1 else 0)"
  using assms(2)
proof cases
  case (submit_rejected t p)
  then obtain T where "trying s = add_mset t T" by (blast dest: multi_member_split)
  with submit_rejected show ?thesis by (simp add: work_left_def submit_locked_iff)
next
  case (worker_takes t p)
  from worker_takes(3,4) obtain rest where "queue (tp s) = t # rest" "tp s' = (tp s)\<lparr>queue := rest\<rparr>"
    "ready s' = ready s - 1" "running s' = add_mset t (running s)" "waiting_workers s' = waiting_workers s"
    "stop_at s' = stop_at s" "size (trying s') = size (trying s) + (if blocked s = {#} then 0 else 1)"
    "size (trying s') + size (blocked s') = size (trying s) + size (blocked s)"
    by (rule takes_effect) (metis size_union)
  with worker_takes(1,2) show ?thesis by (simp add: work_left_def split: if_splits)
next
  case (task_done t)
  then obtain R where "running s = add_mset t R" by (blast dest: multi_member_split)
  with task_done show ?thesis by (simp add: work_left_def)
next
  case (spurious_submit t)
  then obtain B where "blocked s = add_mset t B" by (blast dest: multi_member_split)
  with spurious_submit show ?thesis by (simp add: work_left_def)
qed (use st in \<open>simp_all add: work_left_def tp_locked_iffs notify_all_def\<close>)

lemma stop_work_bounded:
  assumes "runs tp_step s acts s'" and "stop_flag (tp s)"
  shows "stop_flag (tp s') \<and>
    work_left s' + length (filter (\<lambda>a. \<not> is_call a) acts) \<le> work_left s + length (filter is_call acts)"
  using assms
proof (induction rule: runs.induct)
  case (runs_Cons s a t acts u)
  from work_left_step [OF runs_Cons.prems runs_Cons.hyps(1)] runs_Cons.IH
    stop_flag_step [OF runs_Cons.hyps(1) runs_Cons.prems]
  show ?case by (auto split: if_splits)
qed simp

text \<open>While a stop is under way some thread can take a step that is neither a new call nor a
  spurious wake-up.\<close>

lemma can_advance:
  "tp_step s a s' \<Longrightarrow> \<not> is_call a \<and> \<not> spurious a \<Longrightarrow> \<exists>a s'. \<not> is_call a \<and> \<not> spurious a \<and> tp_step s a s'"
  by blast

lemma stop_not_stuck:
  assumes ok: "wakeups_ok s" and "stop_flag (tp s)" and "stop_at s \<noteq> Joined"
  shows "\<exists>a s'. \<not> is_call a \<and> \<not> spurious a \<and> tp_step s a s'"
proof -
  consider (notify) "stop_at s = Notifying" | (join) "stop_at s = Joining" using ok assms(2,3)
    by (cases "stop_at s") (auto simp: wakeups_ok_def phase_ok_def)
  then show ?thesis
  proof cases
    case notify
    show ?thesis by (rule can_advance [OF stop_notifies [OF notify]]) simp
  next
    case join
    consider "running s \<noteq> {#}" | "0 < ready s" | "exited s = worker_count (topts (tp s))"
      using ok join by (cases "running s = {#}"; cases "ready s") (auto simp: wakeups_ok_def phase_ok_def crew_ok_def)
    then show ?thesis
    proof cases
      case 1
      then obtain t where "t \<in># running s" by (meson multiset_nonemptyE)
      show ?thesis by (rule can_advance [OF task_done [OF \<open>t \<in># running s\<close>]]) simp
    next
      case 2
      show ?thesis
      proof (cases "queue (tp s)")
        case Nil
        then have "worker_locked (tp s) = (Return, tp s)" using assms(2) by (simp add: worker_locked_iff)
        from worker_returns [OF 2 this] show ?thesis by (rule can_advance) simp
      next
        case (Cons t rest)
        then have "worker_locked (tp s) = (Take t, (tp s)\<lparr>queue := rest\<rparr>)" by (simp add: worker_locked_iff)
        from wakes_submitter_total obtain s' where "wakes_submitter (s\<lparr>tp := (tp s)\<lparr>queue := rest\<rparr>,
            ready := ready s - 1, running := add_mset t (running s), taken := taken s @ [t]\<rparr>) s'"
          by blast
        from worker_takes [OF 2 \<open>worker_locked (tp s) = _\<close> this] show ?thesis by (rule can_advance) simp
      qed
    next
      case 3
      show ?thesis by (rule can_advance [OF stop_joins [OF join 3]]) simp
    qed
  qed
qed

section \<open>The abstract queue\<close>

text \<open>
  The contract of the pool as its header states it: a bounded first-in first-out queue that
  can be closed, with or without its contents. \<open>Refuse\<close> is \<open>submit\<close> returning false.
\<close>

record 't bounded_queue =
  items :: "'t list"
  bound :: nat
  lossy :: bool
  closed :: bool

datatype 't bq_action = Enqueue 't | Refuse 't | Dequeue 't | Close | Discard

inductive bq_step :: "'t bounded_queue \<Rightarrow> 't bq_action \<Rightarrow> 't bounded_queue \<Rightarrow> bool" where
  enqueue: "\<not> closed q \<Longrightarrow> length (items q) < bound q \<Longrightarrow>
    bq_step q (Enqueue t) (q\<lparr>items := items q @ [t]\<rparr>)"
| refuse: "closed q \<or> lossy q \<and> length (items q) = bound q \<Longrightarrow> bq_step q (Refuse t) q"
| dequeue: "items q = t # ts \<Longrightarrow> bq_step q (Dequeue t) (q\<lparr>items := ts\<rparr>)"
| close: "bq_step q Close (q\<lparr>closed := True\<rparr>)"
| discard: "\<not> closed q \<Longrightarrow> bq_step q Discard (q\<lparr>closed := True, items := []\<rparr>)"
| discard_late: "closed q \<Longrightarrow> bq_step q Discard q"

definition bq_of :: "'t tp_state \<Rightarrow> 't bounded_queue" where
  "bq_of s = \<lparr>items = queue (tp s), bound = max_queue_depth (topts (tp s)),
     lossy = reject_on_full (topts (tp s)), closed = stop_flag (tp s)\<rparr>"

fun bq_label :: "'t tp_action \<Rightarrow> 't bq_action option" where
  "bq_label (SubmitPass t Accepted) = Some (Enqueue t)"
| "bq_label (SubmitPass t Rejected) = Some (Refuse t)"
| "bq_label (WorkerPass (Take t)) = Some (Dequeue t)"
| "bq_label CallStop = Some Close"
| "bq_label CallStopNoDrain = Some Discard"
| "bq_label _ = None"

lemma bq_of_simps [simp]:
  "items (bq_of s) = queue (tp s)" "bound (bq_of s) = max_queue_depth (topts (tp s))"
  "lossy (bq_of s) = reject_on_full (topts (tp s))" "closed (bq_of s) = stop_flag (tp s)"
  by (simp_all add: bq_of_def)

lemma bq_of_eq: "bq_of s = q \<longleftrightarrow> queue (tp s) = items q \<and> max_queue_depth (topts (tp s)) = bound q \<and>
    reject_on_full (topts (tp s)) = lossy q \<and> stop_flag (tp s) = closed q"
  by (auto simp: bq_of_def)

lemma tp_step_simulates:
  assumes "tasks_ok s" and "tp_step s a s'"
  shows "case bq_label a of None \<Rightarrow> bq_of s' = bq_of s | Some b \<Rightarrow> bq_step (bq_of s) b (bq_of s')"
  using assms(2)
proof cases
  case (submit_accepted t p)
  then have "bq_of s' = (bq_of s)\<lparr>items := items (bq_of s) @ [t]\<rparr>"
    by (simp add: bq_of_eq submit_locked_iff)
  with enqueue [of "bq_of s" t] submit_accepted(4) have "bq_step (bq_of s) (Enqueue t) (bq_of s')"
    by (simp add: submit_locked_iff)
  with submit_accepted(1) show ?thesis by simp
next
  case (submit_rejected t p)
  then have "bq_of s' = bq_of s" by (simp add: bq_of_eq submit_locked_iff)
  with refuse [of "bq_of s" t] submit_rejected(4) assms(1) have "bq_step (bq_of s) (Refuse t) (bq_of s')"
    by (auto simp: submit_locked_iff tasks_ok_def)
  with submit_rejected(1) show ?thesis by simp
next
  case (worker_takes t p)
  from worker_takes(3,4) obtain rest where "queue (tp s) = t # rest" "tp s' = (tp s)\<lparr>queue := rest\<rparr>"
    by (rule takes_effect)
  then have "items (bq_of s) = t # rest" "bq_of s' = (bq_of s)\<lparr>items := rest\<rparr>" by (simp_all add: bq_of_eq)
  with worker_takes(1) dequeue [of "bq_of s" t rest] show ?thesis by simp
next
  case (stop_first p)
  then have "bq_of s' = (bq_of s)\<lparr>closed := True\<rparr>" by (simp add: bq_of_eq stop_locked_iff)
  with stop_first(1) close [of "bq_of s"] show ?thesis by simp
next
  case (stop_again p)
  then have "bq_of s' = (bq_of s)\<lparr>closed := True\<rparr>" by (simp add: bq_of_eq stop_locked_iff)
  with stop_again(1) close [of "bq_of s"] show ?thesis by simp
next
  case (stop_no_drain_first p)
  then have "bq_of s' = (bq_of s)\<lparr>closed := True, items := []\<rparr>" by (simp add: bq_of_eq stop_locked_iff)
  with discard [of "bq_of s"] stop_no_drain_first(3) have "bq_step (bq_of s) Discard (bq_of s')"
    by (simp add: stop_locked_iff)
  with stop_no_drain_first(1) show ?thesis by simp
next
  case (stop_no_drain_again p)
  then have "bq_of s' = bq_of s" by (simp add: bq_of_eq stop_locked_iff)
  with discard_late [of "bq_of s"] stop_no_drain_again(3) have "bq_step (bq_of s) Discard (bq_of s')"
    by (simp add: stop_locked_iff)
  with stop_no_drain_again(1) show ?thesis by simp
qed (simp_all add: bq_of_eq submit_locked_iff worker_locked_iff notify_all_def)

interpretation tp_sim: simulation tp_step bq_step "\<lambda>s q. tasks_ok s \<and> q = bq_of s" bq_label
proof
  fix s q a s' assume "tasks_ok s \<and> q = bq_of s" and st: "tp_step s a s'"
  then have ok: "tasks_ok s" "q = bq_of s" by simp_all
  from tp_step_simulates [OF ok(1) st] tasks_ok_step [OF ok(1) st] ok(2)
  show "case bq_label a of None \<Rightarrow> tasks_ok s' \<and> q = bq_of s'
    | Some b \<Rightarrow> \<exists>q'. bq_step q b q' \<and> tasks_ok s' \<and> q' = bq_of s'"
    by (auto split: option.splits)
qed

section \<open>A run\<close>

text \<open>One worker, one place; a task is submitted, the pool is stopped, the task still runs.\<close>

definition demo_tp_options :: tp_options where
  "demo_tp_options = \<lparr>worker_count = 1, max_queue_depth = 1, reject_on_full = False\<rparr>"

definition demo_queued :: "nat tp_state" where
  "demo_queued = (tp_init demo_tp_options)\<lparr>tp := (new_thread_pool demo_tp_options)\<lparr>queue := [7]\<rparr>, accepted_log := [7]\<rparr>"

definition demo_stopped :: "nat tp_state" where
  "demo_stopped = demo_queued\<lparr>tp := (new_thread_pool demo_tp_options)\<lparr>queue := [7], stop_flag := True\<rparr>,
     stop_at := Notifying\<rparr>"

definition demo_joined :: "nat tp_state" where
  "demo_joined = (tp_init demo_tp_options)\<lparr>tp := (new_thread_pool demo_tp_options)\<lparr>stop_flag := True\<rparr>,
     accepted_log := [7], taken := [7], finished := {#7#}, ready := 0, exited := 1, stop_at := Joined\<rparr>"

lemmas demo_tp_defs = demo_queued_def demo_stopped_def demo_joined_def tp_init_def new_thread_pool_def
  demo_tp_options_def

lemma demo_queued_runs:
  "runs tp_step (tp_init demo_tp_options) [CallSubmit 7, SubmitPass 7 Accepted] demo_queued"
proof -
  let ?s = "(tp_init demo_tp_options)\<lparr>trying := {#7#}\<rparr> :: nat tp_state"
  have "tp_step (tp_init demo_tp_options) (CallSubmit 7) ?s"
    using call_submit [of "tp_init demo_tp_options" 7] by (simp add: demo_tp_defs)
  moreover have "tp_step ?s (SubmitPass 7 Accepted) demo_queued"
    using submit_accepted [of 7 ?s "tp demo_queued"]
    by (simp add: demo_tp_defs submit_locked_def wake_worker_def)
  ultimately show ?thesis by (auto simp: runs_Cons_iff)
qed

lemma demo_stopped_runs: "runs tp_step demo_queued [CallStop] demo_stopped"
  using runs_one [of tp_step, OF stop_first [of demo_queued "tp demo_stopped"]]
  by (simp add: demo_tp_defs stop_locked_def)

lemma demo_joined_runs:
  "runs tp_step demo_stopped [NotifyAll, WorkerPass (Take 7), TaskDone 7, WorkerPass Return, JoinAll] demo_joined"
proof -
  let ?s1 = "demo_stopped\<lparr>stop_at := Joining\<rparr>"
  let ?s2 = "?s1\<lparr>tp := (tp ?s1)\<lparr>queue := []\<rparr>, ready := 0, running := {#7#}, taken := [7]\<rparr>"
  let ?s3 = "?s2\<lparr>running := {#}, finished := {#7#}, ready := 1\<rparr>"
  let ?s4 = "?s3\<lparr>ready := 0, exited := 1\<rparr>"
  have "tp_step demo_stopped NotifyAll ?s1"
    using stop_notifies [of demo_stopped] by (simp add: demo_tp_defs notify_all_def)
  moreover have "tp_step ?s1 (WorkerPass (Take 7)) ?s2"
    by (rule worker_takes [where p = "(tp ?s1)\<lparr>queue := []\<rparr>"])
      (simp_all add: demo_tp_defs worker_locked_def wakes_submitter_def)
  moreover have "tp_step ?s2 (TaskDone 7) ?s3"
    using task_done [of 7 ?s2] by (simp add: demo_tp_defs)
  moreover have "tp_step ?s3 (WorkerPass Return) ?s4"
    using worker_returns [of ?s3 "tp ?s3"] by (simp add: demo_tp_defs worker_locked_def)
  moreover have "tp_step ?s4 JoinAll demo_joined"
    using stop_joins [of ?s4] by (simp add: demo_tp_defs)
  ultimately show ?thesis unfolding runs_Cons_iff runs_Nil_iff by blast
qed

lemma demo_all_runs:
  "runs tp_step (tp_init demo_tp_options) [CallSubmit 7, SubmitPass 7 Accepted, CallStop, NotifyAll,
     WorkerPass (Take 7), TaskDone 7, WorkerPass Return, JoinAll] demo_joined"
  using runs_append [OF demo_queued_runs runs_append [OF demo_stopped_runs demo_joined_runs]] by simp

section \<open>Properties\<close>

text \<open>
  C6: tasks are neither lost nor duplicated nor reordered, in every interleaving of
  submitters, workers, spurious wake-ups and stops. The accepted tasks are, in the order of
  acceptance, those taken by workers, then those a \<open>stop_no_drain\<close> discarded, then those still
  queued; every task taken is finished or is being run by one worker; the queue never
  exceeds its depth and no more tasks run than there are workers.
\<close>

theorem tasks_run_once_in_order:
  assumes "runs tp_step (tp_init o') acts s"
  shows "accepted_log s = taken s @ discarded s @ queue (tp s) \<and> mset (taken s) = finished s + running s \<and>
    pending (tp s) \<le> max 1 (max_queue_depth o') \<and> size (running s) \<le> max 1 (worker_count o')"
proof -
  have "tasks_ok s" "crew_ok s"
    using tasks_inv.ok_runs [OF assms tp_init_ok(1)] wakeups_inv.ok_runs [OF assms tp_init_ok(2)]
    by (simp_all add: wakeups_ok_def)
  with tp_opts_runs [OF assms] show ?thesis
    by (auto simp: tasks_ok_def crew_ok_def tp_init_def new_thread_pool_def pending_def max_def split: if_splits)
qed

theorem tasks_run_once_in_order_witness:
  "accepted_log demo_joined = taken demo_joined @ discarded demo_joined @ queue (tp demo_joined) \<and>
   mset (taken demo_joined) = finished demo_joined + running demo_joined \<and> accepted_log demo_joined = [7]"
  using tasks_run_once_in_order [OF demo_all_runs] by (simp add: demo_joined_def)

text \<open>
  C13: no wake-up is lost. In every reachable state with a queued task some worker is running
  or about to look at the queue, and in every reachable state before a stop in which a caller
  of \<open>submit\<close> sleeps, another caller is about to look at the queue or some worker is active:
  it never happens that everybody sleeps although there is something to do.
\<close>

theorem no_lost_wakeup:
  assumes "runs tp_step (tp_init o') acts s"
  shows "(queue (tp s) \<noteq> [] \<longrightarrow> 0 < ready s \<or> running s \<noteq> {#}) \<and>
    (blocked s \<noteq> {#} \<and> \<not> stopped (tp s) \<longrightarrow> trying s \<noteq> {#} \<or> 0 < ready s \<or> running s \<noteq> {#})"
proof -
  have ok: "wakeups_ok s" "tasks_ok s"
    using wakeups_inv.ok_runs [OF assms tp_init_ok(2)] tasks_inv.ok_runs [OF assms tp_init_ok(1)] .
  have "0 < ready s \<or> running s \<noteq> {#}" if "queue (tp s) \<noteq> []"
    using that ok(1) by (cases "waiting_workers s") (auto simp: wakeups_ok_def sleepers_ok_def crew_ok_def)
  moreover have "queue (tp s) \<noteq> []" if "blocked s \<noteq> {#}" "\<not> stop_flag (tp s)" "trying s = {#}"
    using that ok by (auto simp: wakeups_ok_def callers_ok_def tasks_ok_def)
  ultimately show ?thesis by (auto simp: stopped_def)
qed

theorem no_lost_wakeup_witness: "queue (tp demo_queued) = [7] \<and> running demo_queued = {#} \<and> 0 < ready demo_queued"
  using no_lost_wakeup [OF demo_queued_runs] by (simp add: demo_tp_defs)

text \<open>
  C8: \<open>stop\<close> returns, and nothing accepted is lost by it. After a stop the threads take at most
  \<open>work_left\<close> steps, plus one for each further call; until the workers are joined some thread
  can take a step that is no spurious wake-up; and when they are joined the queue is empty, no task is running, and every
  accepted task has been run, unless it was discarded by \<open>stop_no_drain\<close>.
\<close>

theorem stop_drains_and_returns:
  assumes "runs tp_step (tp_init o') acts s" and "stopped (tp s)" and "runs tp_step s acts' t"
  shows "length (filter (\<lambda>a. \<not> is_call a) acts') \<le> work_left s + length (filter is_call acts') \<and>
    (stop_at t \<noteq> Joined \<longrightarrow> (\<exists>a u. \<not> is_call a \<and> \<not> spurious a \<and> tp_step t a u)) \<and>
    (stop_at t = Joined \<longrightarrow> queue (tp t) = [] \<and> running t = {#} \<and> accepted_log t = taken t @ discarded t \<and>
       finished t = mset (taken t) \<and> (drain_on_stop (tp t) \<longrightarrow> finished t = mset (accepted_log t)))"
proof -
  have r: "runs tp_step (tp_init o') (acts @ acts') t" by (rule runs_append [OF assms(1,3)])
  have ok: "wakeups_ok t" "tasks_ok t"
    using wakeups_inv.ok_runs [OF r tp_init_ok(2)] tasks_inv.ok_runs [OF r tp_init_ok(1)] .
  have b: "stop_flag (tp t)" "length (filter (\<lambda>a. \<not> is_call a) acts') \<le> work_left s + length (filter is_call acts')"
    using stop_work_bounded [OF assms(3)] assms(2) by (simp_all add: stopped_def)
  have "queue (tp t) = [] \<and> running t = {#}" if "stop_at t = Joined"
    using that ok(1) by (auto simp: wakeups_ok_def crew_ok_def)
  with ok(2) stop_not_stuck [OF ok(1) b(1)] b(2) show ?thesis by (auto simp: tasks_ok_def)
qed

theorem stop_drains_and_returns_witness:
  "stop_at demo_joined = Joined \<and> finished demo_joined = mset (accepted_log demo_joined)"
  using stop_drains_and_returns [OF runs_append [OF demo_queued_runs demo_stopped_runs] _ demo_joined_runs]
  by (simp add: stopped_def demo_tp_defs)

text \<open>
  C12: the pool implements a bounded first-in first-out queue that can be closed. Every run of
  its threads, with the condition variables and the spurious wake-ups hidden, is a run of
  \<open>bq_step\<close>: \<open>submit\<close> appends to a queue that is neither closed nor full and returns false only
  on a closed one, or on a full one with \<open>reject_on_full\<close>; workers take from the front.
\<close>

theorem thread_pool_refines_queue:
  assumes "runs tp_step (tp_init o') acts s"
  shows "runs bq_step (bq_of (tp_init o' :: 't tp_state)) (List.map_filter bq_label acts) (bq_of (s :: 't tp_state))"
  using tp_sim.sim_runs [OF assms, of "bq_of (tp_init o')"] tp_init_ok(1) by auto

theorem thread_pool_refines_queue_witness:
  "runs bq_step (bq_of (tp_init demo_tp_options)) [Enqueue 7, Close, Dequeue 7] (bq_of demo_joined)"
  using thread_pool_refines_queue [OF demo_all_runs] by (simp add: List.map_filter_simps)

end
