(* ===== verification/Acceptor.thy ===== *)
theory Acceptor
  imports Dial
begin

text \<open>
  \<open>src/src/acceptor.{h,cpp}\<close>: the listening socket, the \<open>epoll\<close> loop that accepts
  connections, and the event descriptor that wakes it. The kernel and the store to \<open>stop_\<close>
  by another thread are parameters; the callback \<open>on_accept\<close> is an argument of the loop, with
  the contract of the locale \<open>accept_sink\<close>. The callback that \<open>main\<close> passes is at the end.
\<close>

section \<open>The calls\<close>

text \<open>
  \<open>ep_stop\<close> is the value the loop reads from \<open>stop_\<close>; \<open>ep_join\<close> what happens until the
  loop's thread has ended; \<open>ep_getsockname\<close> the family and port in network order, None when
  the call fails.
\<close>

datatype epoll_result = EpollReady "fd list" | EpollErr errno
datatype accept_result = AcceptFd fd | AcceptErr errno
datatype sock_name = AfInet u16 | AfInet6 u16 | AfOther

record 'e epoll =
  ep_eventfd :: "'e \<Rightarrow> fd \<times> 'e"
  ep_create :: "'e \<Rightarrow> fd \<times> 'e"
  ep_add :: "fd \<Rightarrow> fd \<Rightarrow> 'e \<Rightarrow> bool \<times> 'e"
  ep_wait :: "fd \<Rightarrow> 'e \<Rightarrow> epoll_result \<times> 'e"
  ep_accept :: "fd \<Rightarrow> 'e \<Rightarrow> accept_result \<times> 'e"
  ep_wake_write :: "fd \<Rightarrow> 'e \<Rightarrow> 'e"
  ep_wake_read :: "fd \<Rightarrow> 'e \<Rightarrow> 'e"
  ep_stop :: "'e \<Rightarrow> bool \<times> 'e"
  ep_join :: "'e \<Rightarrow> 'e"
  ep_getsockname :: "fd \<Rightarrow> 'e \<Rightarrow> sock_name option"

definition sys_open :: "('e \<Rightarrow> fd \<times> 'e) \<Rightarrow> 'e world \<Rightarrow> fd \<times> 'e world" where
  "sys_open call w =
     (case call (env w) of (f, e) \<Rightarrow> (f, emit (if f < 0 then [] else [EvOpen f]) (w\<lparr>env := e\<rparr>)))"

fun accept_events :: "accept_result \<Rightarrow> event list" where
  "accept_events (AcceptFd c) = [EvOpen c]"
| "accept_events (AcceptErr e) = []"

definition sys_accept :: "'e epoll \<Rightarrow> fd \<Rightarrow> 'e world \<Rightarrow> accept_result \<times> 'e world" where
  "sys_accept ep l w =
     (case ep_accept ep l (env w) of (r, e) \<Rightarrow> (r, emit (accept_events r) (w\<lparr>env := e\<rparr>)))"

section \<open>The object\<close>

record acceptor_options =
  a_host :: string
  a_port :: u16
  a_backlog :: int

definition default_acceptor_options :: acceptor_options where
  "default_acceptor_options = \<lparr>a_host = ''0.0.0.0'', a_port = 0, a_backlog = 256\<rparr>"

record acceptor =
  a_opts :: acceptor_options
  listen_fd :: fd
  wake_fd :: fd
  epoll_fd :: fd
  joinable :: bool
  a_running :: bool
  a_stop :: bool

definition new_acceptor :: "acceptor_options \<Rightarrow> acceptor" where
  "new_acceptor o' = \<lparr>a_opts = o', listen_fd = - 1, wake_fd = - 1, epoll_fd = - 1, joinable = False,
     a_running = False, a_stop = False\<rparr>"

definition acceptor_start ::
    "'e os \<Rightarrow> ('a, 'e) netdb \<Rightarrow> 'e epoll \<Rightarrow> acceptor \<Rightarrow> 'e world \<Rightarrow> (bool \<times> acceptor \<times> 'e world) option"
    where
  "acceptor_start os nd ep a w =
     do {
       (l, w1) \<leftarrow> listen_tcp os nd (a_host (a_opts a)) (a_port (a_opts a)) (a_backlog (a_opts a)) w;
       let a1 = a\<lparr>listen_fd := l\<rparr> in
       if l < 0 then Some (False, a1, w1)
       else (case set_nonblocking os l True w1 of (nb, w2) \<Rightarrow>
         if \<not> nb then Some (False, a1, w2)
         else (case sys_open (ep_eventfd ep) w2 of (k, w3) \<Rightarrow>
           let a2 = a1\<lparr>wake_fd := k\<rparr> in
           if k < 0 then Some (False, a2, w3)
           else (case sys_open (ep_create ep) w3 of (p, w4) \<Rightarrow>
             let a3 = a2\<lparr>epoll_fd := p\<rparr> in
             if p < 0 then Some (False, a3, w4)
             else (case sys_env (ep_add ep p l) w4 of (ok1, w5) \<Rightarrow>
               if \<not> ok1 then Some (False, a3, w5)
               else (case sys_env (ep_add ep p k) w5 of (ok2, w6) \<Rightarrow>
                 if \<not> ok2 then Some (False, a3, w6)
                 else Some (True, a3\<lparr>a_running := True, joinable := True\<rparr>, w6))))))
     }"

definition acceptor_stop ::
    "'e os \<Rightarrow> 'e epoll \<Rightarrow> acceptor \<Rightarrow> 'e world \<Rightarrow> (acceptor \<times> 'e world) option" where
  "acceptor_stop os ep a w =
     (if \<not> a_running a \<and> \<not> joinable a then Some (a, w)
      else
        let a1 = a\<lparr>a_stop := True\<rparr>;
            w1 = (if 0 \<le> wake_fd a1 then w\<lparr>env := ep_wake_write ep (wake_fd a1) (env w)\<rparr> else w);
            w2 = (if joinable a1 then w1\<lparr>env := ep_join ep (env w1)\<rparr> else w1);
            a2 = a1\<lparr>joinable := False\<rparr>
        in do {
          w3 \<leftarrow> (if 0 \<le> epoll_fd a2 then safe_close os (epoll_fd a2) w2 else Some w2);
          w4 \<leftarrow> (if 0 \<le> listen_fd a2 then safe_close os (listen_fd a2) w3 else Some w3);
          w5 \<leftarrow> (if 0 \<le> wake_fd a2 then safe_close os (wake_fd a2) w4 else Some w4);
          Some (a2\<lparr>epoll_fd := (if 0 \<le> epoll_fd a2 then - 1 else epoll_fd a2),
                  listen_fd := (if 0 \<le> listen_fd a2 then - 1 else listen_fd a2),
                  wake_fd := (if 0 \<le> wake_fd a2 then - 1 else wake_fd a2),
                  a_running := False\<rparr>, w5)
        })"

definition destroy_acceptor ::
    "'e os \<Rightarrow> 'e epoll \<Rightarrow> acceptor \<Rightarrow> 'e world \<Rightarrow> (acceptor \<times> 'e world) option" where
  "destroy_acceptor os ep a w = acceptor_stop os ep a w"

definition ntohs :: "endian \<Rightarrow> u16 \<Rightarrow> u16" where
  "ntohs e x = (case e of Big \<Rightarrow> x | Little \<Rightarrow> push_bit 8 x OR drop_bit 8 x)"

definition bound_port :: "endian \<Rightarrow> 'e epoll \<Rightarrow> acceptor \<Rightarrow> 'e world \<Rightarrow> u16" where
  "bound_port e ep a w =
     (if listen_fd a < 0 then 0
      else case ep_getsockname ep (listen_fd a) (env w) of
        None \<Rightarrow> 0
      | Some (AfInet p) \<Rightarrow> ntohs e p
      | Some (AfInet6 p) \<Rightarrow> ntohs e p
      | Some AfOther \<Rightarrow> 0)"

section \<open>The loop\<close>

text \<open>The inner loop accepts until the listening socket has no more connections.\<close>

partial_function (option) accept_loop ::
    "'e epoll \<Rightarrow> (fd \<Rightarrow> 'e world \<Rightarrow> 'e world option) \<Rightarrow> bool \<Rightarrow> fd \<Rightarrow> 'e world \<Rightarrow> 'e world option" where
  "accept_loop ep on_accept m l w =
     (case sys_accept ep l w of (r, w1) \<Rightarrow>
        (case r of
           AcceptErr e \<Rightarrow>
             if e = EAGAIN \<or> e = EWOULDBLOCK then Some w1
             else if e = EINTR then accept_loop ep on_accept m l w1
             else Some w1
         | AcceptFd client \<Rightarrow> do {
             w2 \<leftarrow> on_accept client (if m then metric Inc_accepted w1 else w1);
             accept_loop ep on_accept m l w2
           }))"

fun dispatch ::
    "'e epoll \<Rightarrow> (fd \<Rightarrow> 'e world \<Rightarrow> 'e world option) \<Rightarrow> bool \<Rightarrow> acceptor \<Rightarrow> fd list \<Rightarrow> 'e world \<Rightarrow> 'e world option"
    where
  "dispatch ep on_accept m a [] w = Some w"
| "dispatch ep on_accept m a (f # fs) w =
     (if f = wake_fd a then dispatch ep on_accept m a fs (w\<lparr>env := ep_wake_read ep (wake_fd a) (env w)\<rparr>)
      else if f = listen_fd a then do {
        w1 \<leftarrow> accept_loop ep on_accept m (listen_fd a) w;
        dispatch ep on_accept m a fs w1
      }
      else dispatch ep on_accept m a fs w)"

partial_function (option) acceptor_loop ::
    "'e epoll \<Rightarrow> (fd \<Rightarrow> 'e world \<Rightarrow> 'e world option) \<Rightarrow> bool \<Rightarrow> acceptor \<Rightarrow> 'e world \<Rightarrow> 'e world option" where
  "acceptor_loop ep on_accept m a w =
     (case sys_env (ep_stop ep) w of (stop, w1) \<Rightarrow>
        if stop then Some w1
        else (case sys_env (ep_wait ep (epoll_fd a)) w1 of (r, w2) \<Rightarrow>
          (case r of
             EpollErr e \<Rightarrow> if e = EINTR then acceptor_loop ep on_accept m a w2 else Some w2
           | EpollReady fs \<Rightarrow> do {
               w3 \<leftarrow> dispatch ep on_accept m a fs w2;
               acceptor_loop ep on_accept m a w3
             })))"

lemmas accept_loop_induct = accept_loop.raw_induct [rotated, consumes 1, case_names step]
lemmas acceptor_loop_induct = acceptor_loop.raw_induct [rotated, consumes 1, case_names step]

section \<open>What the loop does with a connection\<close>

text \<open>
  \<open>accept4\<close> returns a valid descriptor or an error; \<open>accepted_events\<close> is the history of
  accepting the given connections, each followed by what the callback did with it.
\<close>

definition accept_valid :: "'e epoll \<Rightarrow> bool" where
  "accept_valid ep \<longleftrightarrow> (\<forall>l e c. fst (ep_accept ep l e) = AcceptFd c \<longrightarrow> 0 \<le> c)"

definition accepted_events :: "(fd \<times> event list) list \<Rightarrow> event list" where
  "accepted_events xs = concat (map (\<lambda>(c, evs). EvOpen c # EvMetric Inc_accepted # evs) xs)"

lemma accepted_events_simps [simp]:
  "accepted_events [] = []"
  "accepted_events ((c, evs) # xs) = EvOpen c # EvMetric Inc_accepted # evs @ accepted_events xs"
  "accepted_events (xs @ ys) = accepted_events xs @ accepted_events ys"
  by (simp_all add: accepted_events_def)

lemma did_accept: "sys_accept ep l w = (r, w') \<Longrightarrow> did w (accept_events r) w'"
  by (cases r) (auto simp: sys_accept_def did_def trace_simps world_simps split: prod.splits)

lemma accept_validD: "accept_valid ep \<Longrightarrow> sys_accept ep l w = (AcceptFd c, w') \<Longrightarrow> 0 \<le> c"
  by (auto simp: sys_accept_def accept_valid_def split: prod.splits) (metis fst_conv)

text \<open>\<open>hands_over H w w'\<close>: connections were accepted and counted, and each was disposed of as \<open>H\<close> says.\<close>

definition hands_over :: "(fd \<Rightarrow> event list \<Rightarrow> bool) \<Rightarrow> 'e world \<Rightarrow> 'e world \<Rightarrow> bool" where
  "hands_over H w w' \<longleftrightarrow> (\<exists>xs. did w (accepted_events xs) w' \<and> (\<forall>(c, evs) \<in> set xs. 0 \<le> c \<and> H c evs))"

lemma hands_over_none: "did w [] w' \<Longrightarrow> hands_over H w w'"
  by (auto simp: hands_over_def intro!: exI [of _ "[]"])

lemma hands_over_silent: "did w [] v \<Longrightarrow> hands_over H v u \<Longrightarrow> hands_over H w u"
  unfolding hands_over_def using did_silent by blast

lemma hands_over_trans:
  assumes "hands_over H w v" and "hands_over H v u"
  shows "hands_over H w u"
proof -
  from assms obtain xs ys where "did w (accepted_events xs) v" "\<forall>(c, evs) \<in> set xs. 0 \<le> c \<and> H c evs"
    "did v (accepted_events ys) u" "\<forall>(c, evs) \<in> set ys. 0 \<le> c \<and> H c evs"
    unfolding hands_over_def by blast
  then show ?thesis unfolding hands_over_def by (intro exI [of _ "xs @ ys"]) (auto dest: did_trans)
qed

text \<open>
  \<open>reactor_live\<close>: the loop reads \<open>stop_\<close> as unset only finitely often, and finitely many
  connections and interrupts arrive.
\<close>

fun accept_cost :: "accept_result \<Rightarrow> nat" where
  "accept_cost (AcceptFd c) = 1"
| "accept_cost (AcceptErr e) = (if e = EINTR then 1 else 0)"

definition reactor_live :: "'e epoll \<Rightarrow> ('e \<Rightarrow> nat) \<Rightarrow> bool" where
  "reactor_live ep budget \<longleftrightarrow>
     (\<forall>e. budget (snd (ep_stop ep e)) + (if fst (ep_stop ep e) then 0 else 1) \<le> budget e) \<and>
     (\<forall>f e. budget (snd (ep_wait ep f e)) \<le> budget e) \<and>
     (\<forall>l e. budget (snd (ep_accept ep l e)) + accept_cost (fst (ep_accept ep l e)) \<le> budget e) \<and>
     (\<forall>f e. budget (ep_wake_read ep f e) \<le> budget e)"

lemma reactor_liveD:
  assumes "reactor_live ep budget"
  shows "sys_env (ep_stop ep) w = (st, w') \<Longrightarrow> budget (env w') + (if st then 0 else 1) \<le> budget (env w)"
    and "sys_env (ep_wait ep f) w = (r, w') \<Longrightarrow> budget (env w') \<le> budget (env w)"
    and "sys_accept ep l w = (x, w') \<Longrightarrow> budget (env w') + accept_cost x \<le> budget (env w)"
    and "budget (ep_wake_read ep f e) \<le> budget e"
proof -
  note laws = assms [unfolded reactor_live_def]
  from laws have "budget (snd (ep_stop ep (env w))) + (if fst (ep_stop ep (env w)) then 0 else 1) \<le> budget (env w)"
    by blast
  then show "sys_env (ep_stop ep) w = (st, w') \<Longrightarrow> budget (env w') + (if st then 0 else 1) \<le> budget (env w)"
    by (auto simp: sys_env_def split: prod.splits)
  from laws have "budget (snd (ep_wait ep f (env w))) \<le> budget (env w)" by blast
  then show "sys_env (ep_wait ep f) w = (r, w') \<Longrightarrow> budget (env w') \<le> budget (env w)"
    by (auto simp: sys_env_def split: prod.splits)
  from laws have "budget (snd (ep_accept ep l (env w))) + accept_cost (fst (ep_accept ep l (env w))) \<le> budget (env w)"
    by blast
  then show "sys_accept ep l w = (x, w') \<Longrightarrow> budget (env w') + accept_cost x \<le> budget (env w)"
    by (auto simp: sys_accept_def world_simps split: prod.splits)
  from laws show "budget (ep_wake_read ep f e) \<le> budget e" by blast
qed

locale accept_sink =
  fixes on_accept :: "fd \<Rightarrow> 'e world \<Rightarrow> 'e world option" and handed :: "fd \<Rightarrow> event list \<Rightarrow> bool"
    and sink_live :: "('e \<Rightarrow> nat) \<Rightarrow> bool"
  assumes on_accept_did: "0 \<le> c \<Longrightarrow> on_accept c w = Some w' \<Longrightarrow> \<exists>evs. did w evs w' \<and> handed c evs"
    and on_accept_returns: "sink_live budget \<Longrightarrow> returns budget w (on_accept c w) id"
begin

lemma hands_over_one:
  assumes "did w [EvOpen c] v" and "0 \<le> c" and "on_accept c (metric Inc_accepted v) = Some u"
  shows "hands_over handed w u"
proof -
  from on_accept_did [OF assms(2,3)] obtain evs where "did (metric Inc_accepted v) evs u" "handed c evs" by blast
  with did_trans [OF did_trans [OF assms(1) did_metric]] assms(2) show ?thesis
    unfolding hands_over_def by (intro exI [of _ "[(c, evs)]"]) fastforce
qed

lemma accept_loop_hands_over:
  "accept_loop ep oa m l w = Some w' \<Longrightarrow> oa = on_accept \<Longrightarrow> m \<Longrightarrow> accept_valid ep \<Longrightarrow> hands_over handed w w'"
proof (induction rule: accept_loop_induct)
  case (step g ep oa m l w w')
  obtain r w1 where r: "sys_accept ep l w = (r, w1)" by fastforce
  note d = did_accept [OF r]
  show ?case
  proof (cases r)
    case (AcceptErr e)
    with step.hyps r d step.prems show ?thesis
      by (auto split: if_splits intro: hands_over_none hands_over_silent step.IH)
  next
    case (AcceptFd c)
    with step.hyps r step.prems obtain w2 where w2: "on_accept c (metric Inc_accepted w1) = Some w2"
      and g: "g ep oa m l w2 = Some w'"
      by (auto elim!: bind_SomeE)
    from hands_over_one [OF _ accept_validD [OF step.prems(3) r [unfolded AcceptFd]] w2] d AcceptFd
    have "hands_over handed w w2" by simp
    from hands_over_trans [OF this step.IH [OF g step.prems]] show ?thesis .
  qed
qed

lemma dispatch_hands_over:
  "dispatch ep on_accept True a fs w = Some w' \<Longrightarrow> accept_valid ep \<Longrightarrow> hands_over handed w w'"
proof (induction fs arbitrary: w)
  case Nil
  then show ?case by (auto intro: hands_over_none)
next
  case (Cons f fs)
  from Cons.prems(1) show ?case
    by (auto split: if_splits elim!: bind_SomeE dest!: Cons.IH [OF _ Cons.prems(2)]
        dest: accept_loop_hands_over [OF _ refl TrueI Cons.prems(2)]
        intro: hands_over_trans hands_over_silent [of w "w\<lparr>env := ep_wake_read ep (wake_fd a) (env w)\<rparr>"])
qed

lemma acceptor_loop_hands_over:
  "acceptor_loop ep oa m a w = Some w' \<Longrightarrow> oa = on_accept \<Longrightarrow> m \<Longrightarrow> accept_valid ep \<Longrightarrow> hands_over handed w w'"
proof (induction rule: acceptor_loop_induct)
  case (step g ep oa m a w w')
  obtain st w1 where s: "sys_env (ep_stop ep) w = (st, w1)" by fastforce
  obtain r w2 where r: "sys_env (ep_wait ep (epoll_fd a)) w1 = (r, w2)" by fastforce
  have d: "did w [] w2" by (rule did_silent [OF did_sys_env [OF s] did_sys_env [OF r]])
  show ?case
  proof (cases st)
    case True
    with step.hyps s did_sys_env [OF s] show ?thesis by (auto intro: hands_over_none)
  next
    case go: False
    show ?thesis
    proof (cases r)
      case (EpollErr e)
      with go step.hyps s r d step.prems show ?thesis
        by (auto split: if_splits intro: hands_over_none hands_over_silent step.IH)
    next
      case (EpollReady fs)
      with go step.hyps s r obtain w3 where "dispatch ep oa m a fs w2 = Some w3" "g ep oa m a w3 = Some w'"
        by (auto elim!: bind_SomeE)
      with dispatch_hands_over [of ep a fs w2 w3] step.IH [of ep oa m a w3 w'] step.prems
      have "hands_over handed w2 w'" by (auto intro: hands_over_trans)
      then show ?thesis by (rule hands_over_silent [OF d])
    qed
  qed
qed

lemma accept_loop_returns:
  assumes live: "reactor_live ep budget" and sink: "sink_live budget"
  shows "returns budget w (accept_loop ep on_accept m l w) id"
proof (induction "budget (env w)" arbitrary: w rule: less_induct)
  case less
  obtain r w1 where r: "sys_accept ep l w = (r, w1)" by fastforce
  note b = reactor_liveD(3) [OF live r]
  show ?case
  proof (cases r)
    case (AcceptErr e)
    then have "returns budget w (accept_loop ep on_accept m l w1) id" if "e = EINTR"
      using less [of w1] b that by (auto intro: returns_le)
    with r AcceptErr b show ?thesis
      by (subst accept_loop.simps) (auto intro!: returns_Some)
  next
    case (AcceptFd c)
    let ?v = "if m then metric Inc_accepted w1 else w1"
    obtain w2 where w2: "on_accept c ?v = Some w2" "budget (env w2) \<le> budget (env ?v)"
      using on_accept_returns [OF sink, of ?v c] by (auto elim: returnsE)
    with b AcceptFd have "budget (env w2) < budget (env w)" by (auto simp: world_simps split: if_splits)
    from less [OF this] this have "returns budget w (accept_loop ep on_accept m l w2) id"
      by (auto intro: returns_le)
    with r AcceptFd w2(1) show ?thesis by (subst accept_loop.simps) simp
  qed
qed

lemma dispatch_returns:
  assumes live: "reactor_live ep budget" and sink: "sink_live budget"
  shows "returns budget w (dispatch ep on_accept m a fs w) id"
proof (induction fs arbitrary: w)
  case Nil
  then show ?case by (simp add: returns_Some)
next
  case (Cons f fs)
  have "returns budget w (dispatch ep on_accept m a fs (w\<lparr>env := ep_wake_read ep (wake_fd a) (env w)\<rparr>)) id"
    by (rule returns_le [OF Cons.IH]) (simp add: reactor_liveD(4) [OF live])
  moreover have "returns budget w (Option.bind (accept_loop ep on_accept m (listen_fd a) w) (dispatch ep on_accept m a fs)) id"
    by (rule returns_bind [OF accept_loop_returns [OF assms]]) (simp add: Cons.IH)
  ultimately show ?case using Cons.IH [of w] by (simp only: dispatch.simps split: if_split) blast
qed

lemma acceptor_loop_returns:
  assumes live: "reactor_live ep budget" and sink: "sink_live budget"
  shows "returns budget w (acceptor_loop ep on_accept m a w) id"
proof (induction "budget (env w)" arbitrary: w rule: less_induct)
  case less
  obtain st w1 where s: "sys_env (ep_stop ep) w = (st, w1)" by fastforce
  obtain r w2 where r: "sys_env (ep_wait ep (epoll_fd a)) w1 = (r, w2)" by fastforce
  note b = reactor_liveD(1) [OF live s] reactor_liveD(2) [OF live r]
  have next_turn: "returns budget w (acceptor_loop ep on_accept m a v) id"
    if "\<not> st" "budget (env v) \<le> budget (env w2)" for v
    using less [of v] b that by (auto intro: returns_le)
  have "returns budget w (Option.bind (dispatch ep on_accept m a fs w2) (acceptor_loop ep on_accept m a)) id"
    if "\<not> st" for fs
  proof -
    obtain v where "dispatch ep on_accept m a fs w2 = Some v" "budget (env v) \<le> budget (env w2)"
      using dispatch_returns [OF assms, of w2 m a fs] by (auto elim: returnsE)
    moreover have "returns budget v (acceptor_loop ep on_accept m a v) id"
      using less [of v] b that \<open>budget (env v) \<le> budget (env w2)\<close> by auto
    ultimately show ?thesis using b by (auto intro: returns_le)
  qed
  with s r b next_turn [of w2] show ?case
    by (subst acceptor_loop.simps) (auto intro!: returns_Some split: epoll_result.splits)
qed

end

section \<open>The callback of \<open>main\<close>\<close>

text \<open>
  The lambda that \<open>src/src/main.cpp\<close> passes: hand the connection to the worker pool, or
  close it and count an error when the pool refuses it. \<open>submit\<close> is the pool as the
  acceptor's thread sees it.
\<close>

definition main_on_accept ::
    "'e os \<Rightarrow> (fd \<Rightarrow> 'e \<Rightarrow> bool \<times> 'e) \<Rightarrow> fd \<Rightarrow> 'e world \<Rightarrow> 'e world option" where
  "main_on_accept os submit f w =
     (case sys_env (submit f) w of (ok, w1) \<Rightarrow>
        if \<not> ok then do { w2 \<leftarrow> safe_close os f w1; Some (metric Inc_errored w2) } else Some w1)"

definition refused_events :: "fd \<Rightarrow> event list" where
  "refused_events c = [EvClose c, EvMetric Inc_errored]"

interpretation main_sink: accept_sink "main_on_accept os submit" "\<lambda>c evs. evs = [] \<or> evs = refused_events c"
  "\<lambda>budget. finite_interrupts os budget \<and> (\<forall>f e. budget (snd (submit f e)) \<le> budget e)"
proof
  fix c w w' assume c: "0 \<le> (c :: fd)" and run: "main_on_accept os submit c w = Some w'"
  obtain ok w1 where s: "sys_env (submit c) w = (ok, w1)" by fastforce
  note d = did_sys_env [OF s]
  show "\<exists>evs. did w evs w' \<and> (evs = [] \<or> evs = refused_events c)"
  proof (cases ok)
    case False
    with run s obtain w2 where w2: "safe_close os c w1 = Some w2" "w' = metric Inc_errored w2"
      by (auto simp: main_on_accept_def elim!: bind_SomeE)
    have "did w (refused_events c) w'"
      unfolding w2(2) refused_events_def
      using did_trans [OF did_silent [OF d safe_close_closes [OF w2(1) c]] did_metric] by simp
    then show ?thesis by blast
  qed (use run s d in \<open>auto simp: main_on_accept_def\<close>)
next
  fix budget :: "'a \<Rightarrow> nat" and w c
  assume l: "finite_interrupts os budget \<and> (\<forall>f e. budget (snd (submit f e)) \<le> budget e)"
  obtain ok w1 where s: "sys_env (submit c) w = (ok, w1)" by fastforce
  have b: "budget (env w1) \<le> budget (env w)" using sys_env_budget [OF s] l by blast
  have "returns budget w (Option.bind (safe_close os c w1) (\<lambda>w2. Some (metric Inc_errored w2))) id"
    using l b by (intro close_then_returns) (auto intro: returns_Some simp: world_simps)
  with s b show "returns budget w (main_on_accept os submit c w) id"
    by (simp add: main_on_accept_def returns_Some)
qed

section \<open>Counting connections\<close>

lemma mset_split: "mset (filter (\<lambda>x. \<not> P x) xs) + mset (filter P xs) = mset xs"
  by (induction xs) auto

lemma accepted_events_counts:
  assumes "\<forall>(c, evs) \<in> set xs. 0 \<le> c \<and> (evs = [] \<or> evs = refused_events c)"
  shows "apply_metrics (metric_ops (accepted_events xs)) m =
      m\<lparr>accepted := accepted m + of_nat (length xs),
        errored := errored m + of_nat (length (filter (\<lambda>(c, evs). evs \<noteq> []) xs))\<rparr>"
    and "opens (accepted_events xs) = map fst xs"
    and "closes (accepted_events xs) = map fst (filter (\<lambda>(c, evs). evs \<noteq> []) xs)"
  using assms
  by (induction xs arbitrary: m) (auto simp: trace_simps metric_simps refused_events_def split: prod.splits)

text \<open>A kernel with a few pending connections that sets \<open>stop_\<close> after a number of turns.\<close>

definition quiet_os :: "'e os" where
  "quiet_os = \<lparr>os_clock = (\<lambda>e. (0, e)), os_poll = (\<lambda>f ev t e. (PollReady False, e)),
     os_recv = (\<lambda>f n e. (RecvEof, e)), os_send = (\<lambda>f bs e. (SendCount (length bs), e)),
     os_close = (\<lambda>f e. (None, e)), os_getfl = (\<lambda>f e. (Some 0, e)), os_setfl = (\<lambda>f v e. (True, e))\<rparr>"

definition demo_epoll :: "(fd list \<times> nat) epoll" where
  "demo_epoll = \<lparr>ep_eventfd = (\<lambda>e. (4, e)), ep_create = (\<lambda>e. (5, e)), ep_add = (\<lambda>p f e. (True, e)),
     ep_wait = (\<lambda>p e. (EpollReady [4, 3], e)),
     ep_accept = (\<lambda>l e. case e of ([], n) \<Rightarrow> (AcceptErr EAGAIN, e) | (c # cs, n) \<Rightarrow> (AcceptFd (abs c), (cs, n))),
     ep_wake_write = (\<lambda>f e. e), ep_wake_read = (\<lambda>f e. e),
     ep_stop = (\<lambda>(cs, n). (n = 0, (cs, n - 1))), ep_join = (\<lambda>e. e),
     ep_getsockname = (\<lambda>f e. Some (AfInet 36895))\<rparr>"

definition demo_acceptor :: acceptor where
  "demo_acceptor = (new_acceptor default_acceptor_options)\<lparr>listen_fd := 3, wake_fd := 4, epoll_fd := 5,
     a_running := True, joinable := True\<rparr>"

definition demo_submit :: "fd \<Rightarrow> fd list \<times> nat \<Rightarrow> bool \<times> fd list \<times> nat" where
  "demo_submit f e = (f \<noteq> 8, e)"

definition demo_accept_world :: "(fd list \<times> nat) world" where
  "demo_accept_world = \<lparr>env = ([7, 8], 1), metrics_of = metrics_init, trace = []\<rparr>"

lemma demo_accept_laws [simp]:
  "accept_valid demo_epoll" "reactor_live demo_epoll (\<lambda>(cs, n). length cs + n)"
  "finite_interrupts quiet_os budget"
  by (auto simp: accept_valid_def reactor_live_def demo_epoll_def finite_interrupts_def quiet_os_def close_cost_def
      split: list.splits prod.splits if_splits)



section \<open>Starting and stopping\<close>

definition held_fds :: "acceptor \<Rightarrow> fd list" where
  "held_fds a = filter (\<lambda>f. 0 \<le> f) [epoll_fd a, listen_fd a, wake_fd a]"

text \<open>\<open>keeps w fs w'\<close>: of the descriptors opened between the two worlds exactly \<open>fs\<close> are still open.\<close>

definition keeps :: "'e world \<Rightarrow> fd list \<Rightarrow> 'e world \<Rightarrow> bool" where
  "keeps w fs w' \<longleftrightarrow> (\<exists>evs. did w evs w' \<and> mset (opens evs) = mset (closes evs) + mset fs)"

lemma keeps_silent: "keeps w fs v \<Longrightarrow> did v [] u \<Longrightarrow> keeps w fs u"
  unfolding keeps_def using did_silent2 by blast

lemma did_sys_open: "sys_open call w = (f, w') \<Longrightarrow> did w (if f < 0 then [] else [EvOpen f]) w'"
  by (auto simp: sys_open_def did_def trace_simps world_simps split: prod.splits)

lemma keeps_open:
  assumes "keeps w fs v" and "sys_open call v = (f, u)"
  shows "keeps w (if f < 0 then fs else f # fs) u"
proof -
  from assms(1) obtain evs where "did w evs v" "mset (opens evs) = mset (closes evs) + mset fs"
    by (auto simp: keeps_def)
  with did_trans [OF this(1) did_sys_open [OF assms(2)]] show ?thesis
    unfolding keeps_def by (intro exI [of _ "evs @ (if f < 0 then [] else [EvOpen f])"]) (simp add: trace_simps)
qed

lemma keeps_listen:
  assumes "listen_tcp os nd h p b w = Some (l, w')"
  shows "keeps w (if l < 0 then [] else [l]) w'"
proof -
  from listen_tcp_one_fd [OF assms] obtain fs
    where "did w (opened_closed fs @ (if l < 0 then [] else [EvOpen l])) w'" by (auto simp: one_fd_def)
  then show ?thesis unfolding keeps_def
    by (intro exI [of _ "opened_closed fs @ (if l < 0 then [] else [EvOpen l])"]) (simp add: trace_simps)
qed

lemma keeps_mset: "mset fs = mset gs \<Longrightarrow> keeps w fs w' = keeps w gs w'"
  by (simp add: keeps_def)

lemma acceptor_start_keeps:
  assumes "acceptor_start os nd ep (new_acceptor o') w = Some (ok, a, w')"
  shows "keeps w (held_fds a) w'" and "a_running a \<longleftrightarrow> ok" and "joinable a \<longleftrightarrow> ok"
    and "ok \<Longrightarrow> 0 \<le> epoll_fd a \<and> 0 \<le> listen_fd a \<and> 0 \<le> wake_fd a"
proof -
  from assms obtain l w1 where l: "listen_tcp os nd (a_host o') (a_port o') (a_backlog o') w = Some (l, w1)"
    by (auto simp: acceptor_start_def new_acceptor_def elim!: bind_SomeE)
  obtain nb w2 where nb: "set_nonblocking os l True w1 = (nb, w2)" by fastforce
  obtain k w3 where k: "sys_open (ep_eventfd ep) w2 = (k, w3)" by fastforce
  obtain q w4 where q: "sys_open (ep_create ep) w3 = (q, w4)" by fastforce
  obtain ok1 w5 where o1: "sys_env (ep_add ep q l) w4 = (ok1, w5)" by fastforce
  obtain ok2 w6 where o2: "sys_env (ep_add ep q k) w5 = (ok2, w6)" by fastforce
  note k1 = keeps_listen [OF l]
  note k2 = keeps_silent [OF k1 set_nonblocking_did [OF nb]]
  note k3 = keeps_open [OF k2 k]
  note k4 = keeps_open [OF k3 q]
  note k5 = keeps_silent [OF k4 did_sys_env [OF o1]]
  note k6 = keeps_silent [OF k5 did_sys_env [OF o2]]
  note ks = k1 k2 k3 k4 k5 k6
  from assms l nb k q o1 o2 show "a_running a \<longleftrightarrow> ok" "joinable a \<longleftrightarrow> ok"
    "ok \<Longrightarrow> 0 \<le> epoll_fd a \<and> 0 \<le> listen_fd a \<and> 0 \<le> wake_fd a"
    by (auto simp: acceptor_start_def new_acceptor_def Let_def split: if_splits)
  from assms l nb k q o1 o2 ks show "keeps w (held_fds a) w'"
    by (auto simp: acceptor_start_def new_acceptor_def Let_def held_fds_def add_mset_commute
        split: if_splits elim!: keeps_mset [THEN iffD1, rotated])
qed

lemma acceptor_stop_closes:
  assumes "acceptor_stop os ep a w = Some (a', w')" and "joinable a"
    and "0 \<le> epoll_fd a" and "0 \<le> listen_fd a" and "0 \<le> wake_fd a"
  shows "did w [EvClose (epoll_fd a), EvClose (listen_fd a), EvClose (wake_fd a)] w'"
    and "held_fds a' = []" and "\<not> a_running a'" and "\<not> joinable a'"
proof -
  let ?w2 = "w\<lparr>env := ep_join ep (ep_wake_write ep (wake_fd a) (env w))\<rparr>"
  have d: "did w [] ?w2" by simp
  obtain w3 w4 where c: "safe_close os (epoll_fd a) ?w2 = Some w3" "safe_close os (listen_fd a) w3 = Some w4"
    "safe_close os (wake_fd a) w4 = Some w'"
    using assms by (auto simp: acceptor_stop_def Let_def elim!: bind_SomeE)
  from did_silent [OF d did_trans [OF safe_close_closes [OF c(1) assms(3)]
        did_trans [OF safe_close_closes [OF c(2) assms(4)] safe_close_closes [OF c(3) assms(5)]]]]
  show "did w [EvClose (epoll_fd a), EvClose (listen_fd a), EvClose (wake_fd a)] w'" by simp
  from assms show "held_fds a' = []" "\<not> a_running a'" "\<not> joinable a'"
    by (auto simp: acceptor_stop_def Let_def held_fds_def elim!: bind_SomeE)
qed

text \<open>
  C29: what becomes of the acceptor's descriptors. A \<open>start\<close> leaves open exactly the descriptors that the
  object holds. If it succeeded, these are the listening, the event and the \<open>epoll\<close> descriptor; \<open>stop\<close>
  closes exactly these three, once each, and leaves the object with no descriptor, no thread and not
  running, so that the destructor closes none of them again. If it failed, they are leaked: \<open>stop\<close>, called directly or by the destructor, returns at once because
  the object is neither running nor joinable, and nobody closes them.
\<close>

theorem acceptor_descriptors:
  assumes "acceptor_start os nd ep (new_acceptor o') w = Some (ok, a, w1)"
    and "acceptor_stop os ep a v = Some (a', v')"
  shows "keeps w (held_fds a) w1 \<and>
    (if ok then held_fds a = [epoll_fd a, listen_fd a, wake_fd a] \<and>
       did v [EvClose (epoll_fd a), EvClose (listen_fd a), EvClose (wake_fd a)] v' \<and>
       held_fds a' = [] \<and> \<not> a_running a' \<and> \<not> joinable a'
     else a' = a \<and> v' = v) \<and>
    destroy_acceptor os ep a' u = Some (a', u)"
proof (cases ok)
  case True
  note st = acceptor_start_keeps [OF assms(1)]
  from st(4) True have "held_fds a = [epoll_fd a, listen_fd a, wake_fd a]" by (simp add: held_fds_def)
  with st acceptor_stop_closes [OF assms(2)] True show ?thesis by (simp add: destroy_acceptor_def acceptor_stop_def)
next
  case False
  with acceptor_start_keeps [OF assms(1)] assms(2) show ?thesis by (simp add: destroy_acceptor_def acceptor_stop_def)
qed

text \<open>A kernel whose only socket is descriptor 3, and one that has no event descriptors.\<close>

definition demo_nd :: "(unit, fd list \<times> nat) netdb" where
  "demo_nd = \<lparr>nd_getaddrinfo = (\<lambda>h p b e. (Some [()], e)), nd_socket = (\<lambda>a e. (3, e)),
     nd_connect = (\<lambda>f a e. (None, e)), nd_so_error = (\<lambda>f e. (Some 0, e)), nd_setsockopt = (\<lambda>f e. e),
     nd_bind = (\<lambda>f a e. (None, e)), nd_listen = (\<lambda>f b e. (None, e))\<rparr>"

definition no_eventfd :: "(fd list \<times> nat) epoll" where
  "no_eventfd = demo_epoll\<lparr>ep_eventfd := (\<lambda>e. (- 1, e))\<rparr>"

lemmas demo_start_defs = acceptor_start_def listen_tcp_def demo_nd_def sys_env_def sys_socket_def sys_open_def
  set_nonblocking_def sys_getfl_def sys_setfl_def quiet_os_def new_acceptor_def default_acceptor_options_def
  demo_epoll_def no_eventfd_def world_simps

lemma demo_start:
  "acceptor_start quiet_os demo_nd demo_epoll (new_acceptor default_acceptor_options) demo_accept_world =
     Some (True, demo_acceptor, emit [EvOpen 3, EvOpen 4, EvOpen 5] demo_accept_world)"
  by (simp add: demo_start_defs demo_acceptor_def emit_def)

lemma demo_stop:
  "\<exists>v. acceptor_stop quiet_os demo_epoll demo_acceptor demo_accept_world = Some v"
  by (simp add: acceptor_stop_def demo_acceptor_def new_acceptor_def safe_close_def close_loop.simps sys_close_def
      quiet_os_def)

theorem acceptor_descriptors_witness:
  "\<exists>v'. did demo_accept_world [EvClose 5, EvClose 3, EvClose 4] v' \<and>
     (\<exists>a w1. acceptor_start quiet_os demo_nd no_eventfd (new_acceptor default_acceptor_options) demo_accept_world =
       Some (False, a, w1) \<and> keeps demo_accept_world [3] w1 \<and> acceptor_stop quiet_os no_eventfd a w1 = Some (a, w1))"
proof -
  obtain v where "acceptor_stop quiet_os demo_epoll demo_acceptor demo_accept_world = Some v"
    using demo_stop by blast
  with acceptor_descriptors [OF demo_start, of demo_accept_world "fst v" "snd v"]
  have ok: "did demo_accept_world [EvClose 5, EvClose 3, EvClose 4] (snd v)" by (auto simp: demo_acceptor_def)
  let ?a = "(new_acceptor default_acceptor_options)\<lparr>listen_fd := 3\<rparr>"
  let ?w = "emit [EvOpen 3] demo_accept_world"
  have r: "acceptor_start quiet_os demo_nd no_eventfd (new_acceptor default_acceptor_options) demo_accept_world =
     Some (False, ?a, ?w)"
    by (simp add: demo_start_defs emit_def)
  have s: "acceptor_stop quiet_os no_eventfd ?a ?w = Some (?a, ?w)" by (simp add: acceptor_stop_def new_acceptor_def)
  have "held_fds ?a = [3]" by (simp add: held_fds_def new_acceptor_def)
  with acceptor_descriptors [OF r s] r s ok show ?thesis by auto
qed

end
