(* ===== verification/Logging.thy ===== *)
theory Logging
  imports Prelude "HOL-Library.Sublist"
begin

text \<open>
  \<open>src/src/log.{h,cpp}\<close>: a process-wide level and a line per message on standard error. The
  level is an enumeration over \<open>int\<close> into which \<open>main\<close> casts any number, so it is modelled as
  an integer with four named values. The text of a message is what \<open>fprintf\<close> makes of the
  format and its arguments; standard error is the text written so far. \<open>log_at\<close> writes under
  a mutex, so the messages of all threads are one sequence.
\<close>

type_synonym log_level = int

definition kDebug :: log_level where "kDebug = 0"
definition kInfo :: log_level where "kInfo = 1"
definition kWarn :: log_level where "kWarn = 2"
definition kError :: log_level where "kError = 3"

lemmas log_level_defs = kDebug_def kInfo_def kWarn_def kError_def

record log_state =
  g_level :: log_level
  stderr :: string

definition log_init :: log_state where "log_init = \<lparr>g_level = kInfo, stderr = []\<rparr>"

definition set_log_level :: "log_level \<Rightarrow> log_state \<Rightarrow> log_state" where
  "set_log_level level s = s\<lparr>g_level := level\<rparr>"

definition get_log_level :: "log_state \<Rightarrow> log_level" where "get_log_level s = g_level s"

definition level_name :: "log_level \<Rightarrow> string" where
  "level_name level =
     (if level = kDebug then ''DEBUG'' else if level = kInfo then ''INFO''
      else if level = kWarn then ''WARN'' else if level = kError then ''ERROR'' else ''?'')"

definition log_line :: "log_level \<Rightarrow> string \<Rightarrow> string" where
  "log_line level msg = ''['' @ level_name level @ ''] '' @ msg @ [CHR 0x0A]"

definition log_at :: "log_level \<Rightarrow> string \<Rightarrow> log_state \<Rightarrow> log_state" where
  "log_at level msg s =
     (if level < get_log_level s then s else s\<lparr>stderr := stderr s @ log_line level msg\<rparr>)"

lemma log_at_level [simp]: "g_level (log_at level msg s) = g_level s"
  by (simp add: log_at_def)

definition log_all :: "(log_level \<times> string) list \<Rightarrow> log_state \<Rightarrow> log_state" where
  "log_all ms s = fold (\<lambda>(level, msg). log_at level msg) ms s"

lemma log_all_stderr:
  "stderr (log_all ms s) = stderr s @
     concat (map (\<lambda>(level, msg). log_line level msg) (filter (\<lambda>(level, msg). g_level s \<le> level) ms))"
  by (induction ms arbitrary: s) (auto simp: log_all_def log_at_def get_log_level_def split: prod.splits)

text \<open>
  A threshold selects whole lines. Running the same messages with a higher level writes a
  selection of the lines that the lower level writes, in the same order, and each line names
  the level of its message; above \<open>kError\<close> nothing of the four levels is written.
\<close>

lemma log_threshold_selects_lines:
  assumes "l \<le> h"
  shows "\<exists>low high. stderr (log_all ms (set_log_level l s)) = stderr s @ concat low \<and>
    stderr (log_all ms (set_log_level h s)) = stderr s @ concat high \<and> subseq high low \<and>
    set low \<subseteq> {log_line level msg |level msg. (level, msg) \<in> set ms \<and> l \<le> level} \<and>
    ((\<forall>(level, msg) \<in> set ms. level \<le> kError) \<and> kError < h \<longrightarrow> high = [])"
proof -
  let ?line = "\<lambda>(level, msg). log_line level msg"
  have "filter (\<lambda>(level, msg). h \<le> level) ms =
      filter (\<lambda>(level, msg). h \<le> level) (filter (\<lambda>(level, msg). l \<le> level) ms)"
    using assms by (auto intro: filter_cong)
  then have "subseq (map ?line (filter (\<lambda>(level, msg). h \<le> level) ms))
      (map ?line (filter (\<lambda>(level, msg). l \<le> level) ms))"
    by (metis subseq_filter_left subseq_map)
  moreover have "filter (\<lambda>(level, msg). h \<le> level) ms = []"
    if "\<forall>(level, msg) \<in> set ms. level \<le> kError" "kError < h"
    using that by (auto simp: filter_empty_conv)
  ultimately show ?thesis
    by (intro exI [of _ "map ?line (filter (\<lambda>(level, msg). l \<le> level) ms)"]
        exI [of _ "map ?line (filter (\<lambda>(level, msg). h \<le> level) ms)"])
      (auto simp: log_all_stderr set_log_level_def)
qed

end
