(* ===== verification/Router_Config.thy ===== *)
theory Router_Config
  imports Handler Thread_Pool Acceptor Logging
begin

text \<open>
  The command line of \<open>src/src/main.cpp\<close>: \<open>parse_host_port\<close>, \<open>parse_backend_spec\<close>, the loop
  of \<open>parse_args\<close> over the options, and the configuration of the components that \<open>main\<close>
  derives from them. \<open>getopt_long\<close> is glibc's; its result, the sequence of options and
  their arguments, is the input of the model. Out-parameters are passed and returned, with
  the assignments a failing call has made.
\<close>

section \<open>Splitting at colons\<close>

fun split_first :: "char \<Rightarrow> string \<Rightarrow> (string \<times> string) option" where
  "split_first c [] = None"
| "split_first c (x # xs) =
     (if x = c then Some ([], xs) else map_option (\<lambda>(a, b). (x # a, b)) (split_first c xs))"

definition split_last :: "char \<Rightarrow> string \<Rightarrow> (string \<times> string) option" where
  "split_last c s = map_option (\<lambda>(a, b). (rev b, rev a)) (split_first c (rev s))"

lemma split_first_None: "split_first c s = None \<longleftrightarrow> c \<notin> set s"
  by (induction s) auto

lemma split_first_append: "c \<notin> set a \<Longrightarrow> split_first c (a @ c # b) = Some (a, b)"
  by (induction a) auto

lemma split_first_Some: "split_first c s = Some (a, b) \<Longrightarrow> s = a @ c # b \<and> c \<notin> set a"
  by (induction s arbitrary: a) (auto split: if_splits)

lemma split_last_append: "c \<notin> set b \<Longrightarrow> split_last c (a @ c # b) = Some (a, b)"
  using split_first_append [of c "rev b" "rev a"] by (simp add: split_last_def)

lemma split_last_Some: "split_last c s = Some (a, b) \<Longrightarrow> s = a @ c # b \<and> c \<notin> set b"
  by (auto simp: split_last_def dest!: split_first_Some) (metis append_assoc append_Cons append_Nil rev.simps(2) rev_append rev_rev_ident)

section \<open>Hosts, ports and weights\<close>

definition parse_host_port :: "string \<Rightarrow> string \<Rightarrow> u16 \<Rightarrow> bool \<times> string \<times> u16" where
  "parse_host_port s host0 port0 =
     (case split_last (CHR '':'') s of
        None \<Rightarrow> (False, host0, port0)
      | Some (before, after) \<Rightarrow>
          if before = [] then (False, host0, port0)
          else let p = atoi after in
            if p \<le> 0 \<or> p > 65535 then (False, before, port0) else (True, before, of_int p))"

definition parse_backend_spec :: "string \<Rightarrow> backend_spec \<Rightarrow> bool \<times> backend_spec" where
  "parse_backend_spec s out =
     (case (split_first (CHR '':'') s, split_last (CHR '':'') s) of
        (Some (before_first, after_first), Some (before_last, after_last)) \<Rightarrow>
          if before_last = [] then (False, out)
          else if length before_first = length before_last then
            let out1 = out\<lparr>spec_host := before_last\<rparr>; p = atoi after_last in
            if p \<le> 0 \<or> p > 65535 then (False, out1)
            else (True, out1\<lparr>spec_port := of_int p, spec_weight := 1\<rparr>)
          else
            let out1 = out\<lparr>spec_host := before_first\<rparr>; p = atoi after_first in
            if p \<le> 0 \<or> p > 65535 then (False, out1)
            else
              let out2 = out1\<lparr>spec_port := of_int p\<rparr>; w = atoi after_last in
              if w < 0 then (False, out2)
              else (True, out2\<lparr>spec_weight := of_int (if w = 0 then 1 else w)\<rparr>)
      | _ \<Rightarrow> (False, out))"

definition fresh_spec :: backend_spec where
  "fresh_spec = \<lparr>spec_host = [], spec_port = 0, spec_weight = 1\<rparr>"

section \<open>Options\<close>

record args =
  listen_host :: string
  listen_port :: u16
  arg_backends :: "backend_spec list"
  threads :: u64
  pool_size :: u64
  shutdown_grace_ms :: int
  arg_log_level :: int
  tls_enabled :: bool
  tls_cert_path :: string
  tls_key_path :: string
  tls_client_ca_path :: string

definition default_args :: args where
  "default_args = \<lparr>listen_host = ''0.0.0.0'', listen_port = 8080, arg_backends = [], threads = 8, pool_size = 16,
     shutdown_grace_ms = 30000, arg_log_level = 1, tls_enabled = False, tls_cert_path = [], tls_key_path = [],
     tls_client_ca_path = []\<rparr>"

text \<open>
  One result of \<open>getopt_long\<close>: the option's letter and \<open>optarg\<close>. \<open>Overflow\<close> marks the
  product of two \<open>int\<close>s that does not fit, which the language leaves undefined.
\<close>

datatype parse_result = Parsed args | ParseFailed | HelpExit | Overflow

definition parse_option :: "char \<Rightarrow> string \<Rightarrow> args \<Rightarrow> parse_result" where
  "parse_option opt optarg out =
     (if opt = CHR ''l'' then
        (case parse_host_port optarg (listen_host out) (listen_port out) of (ok, h, p) \<Rightarrow>
           if ok then Parsed (out\<lparr>listen_host := h, listen_port := p\<rparr>) else ParseFailed)
      else if opt = CHR ''b'' then
        (case parse_backend_spec optarg fresh_spec of (ok, spec) \<Rightarrow>
           if ok then Parsed (out\<lparr>arg_backends := arg_backends out @ [spec]\<rparr>) else ParseFailed)
      else if opt = CHR ''t'' then Parsed (out\<lparr>threads := of_int (atoi optarg)\<rparr>)
      else if opt = CHR ''p'' then Parsed (out\<lparr>pool_size := of_int (atoi optarg)\<rparr>)
      else if opt = CHR ''g'' then
        (let ms = atoi optarg * 1000 in
         if - 2147483648 \<le> ms \<and> ms < 2147483648 then Parsed (out\<lparr>shutdown_grace_ms := ms\<rparr>) else Overflow)
      else if opt = CHR ''L'' then Parsed (out\<lparr>arg_log_level := atoi optarg\<rparr>)
      else if opt = CHR ''T'' then Parsed (out\<lparr>tls_enabled := True\<rparr>)
      else if opt = CHR ''C'' then Parsed (out\<lparr>tls_cert_path := optarg\<rparr>)
      else if opt = CHR ''K'' then Parsed (out\<lparr>tls_key_path := optarg\<rparr>)
      else if opt = CHR ''A'' then Parsed (out\<lparr>tls_client_ca_path := optarg\<rparr>)
      else if opt = CHR ''h'' then HelpExit
      else ParseFailed)"

fun parse_args :: "(char \<times> string) list \<Rightarrow> args \<Rightarrow> parse_result" where
  "parse_args [] out = Parsed out"
| "parse_args ((opt, optarg) # rest) out =
     (case parse_option opt optarg out of Parsed out' \<Rightarrow> parse_args rest out' | r \<Rightarrow> r)"

section \<open>The configuration that \<open>main\<close> builds\<close>

text \<open>The exit code when \<open>main\<close> gives up, or what it constructs the components with.\<close>

record router_config =
  cfg_log_level :: int
  cfg_backends :: "backend_spec list"
  cfg_pool :: pool_options
  cfg_threads :: tp_options
  cfg_handler :: handler_options
  cfg_tls :: "tls_ctx option"
  cfg_acceptor :: acceptor_options

definition main_config :: "ctx_calls \<Rightarrow> args \<Rightarrow> nat + router_config" where
  "main_config c a =
     (let backends = (if arg_backends a = []
            then [\<lparr>spec_host = ''127.0.0.1'', spec_port = 9090, spec_weight = 1\<rparr>] else arg_backends a);
          shared = default_pool_options\<lparr>max_size := unat (pool_size a), min_idle := min 2 (unat (pool_size a))\<rparr>;
          topts = \<lparr>worker_count = unat (threads a), max_queue_depth = 4096, reject_on_full = False\<rparr>;
          aopts = default_acceptor_options\<lparr>a_host := listen_host a, a_port := listen_port a\<rparr>;
          cfg = (\<lambda>hopts ctx. \<lparr>cfg_log_level = arg_log_level a, cfg_backends = backends, cfg_pool = shared,
            cfg_threads = topts, cfg_handler = hopts, cfg_tls = ctx, cfg_acceptor = aopts\<rparr>)
      in
      if tls_enabled a then
        (if tls_cert_path a = [] \<or> tls_key_path a = [] then Inl 2
         else (case init_server c \<lparr>cert_path = tls_cert_path a, key_path = tls_key_path a,
                 client_ca_path = tls_client_ca_path a, require_client_cert = (tls_client_ca_path a \<noteq> [])\<rparr>
               of (ok, ctx) \<Rightarrow>
                 if \<not> ok then Inl 1
                 else Inr (cfg (default_handler_options\<lparr>server_tls := Some (ctx \<noteq> None)\<rparr>) ctx)))
      else Inr (cfg default_handler_options None))"

text \<open>From the options to an exit code or a configuration; None after an overflow.\<close>

definition main_start :: "ctx_calls \<Rightarrow> (char \<times> string) list \<Rightarrow> (nat + router_config) option" where
  "main_start c argv =
     (case parse_args argv default_args of
        Parsed a \<Rightarrow> Some (main_config c a)
      | ParseFailed \<Rightarrow> Some (Inl 2)
      | HelpExit \<Rightarrow> Some (Inl 0)
      | Overflow \<Rightarrow> None)"

section \<open>Printing and parsing\<close>

lemma of_nat_u16: "n \<le> 65535 \<Longrightarrow> unat (of_nat n :: u16) = n"
  by (simp add: unat_of_nat)

lemma colon_not_in_digits: "CHR '':'' \<notin> set (show_nat n)"
  using is_digit_show_nat [of n] by (auto simp: list_all_iff is_digit_def)

lemma atoi_show: "n < 2147483648 \<Longrightarrow> atoi (show_nat n) = int n"
  using atoi_show_nat [of n "[]"] by simp

lemma atoi_show_colon: "n < 2147483648 \<Longrightarrow> atoi (show_nat n @ CHR '':'' # rest) = int n"
  using atoi_show_nat [of n "CHR '':'' # rest"] by (simp add: is_digit_def)

definition show_spec :: "backend_spec \<Rightarrow> string" where
  "show_spec sp = spec_host sp @ '':'' @ show_nat (unat (spec_port sp)) @ '':'' @ show_nat (unat (spec_weight sp))"

lemma of_int_int_unat: "of_int (int (unat x)) = (x :: 'a :: len word)"
  by simp

lemma parse_host_port_show:
  assumes "h \<noteq> []" and "0 < p" and "p \<le> 65535"
  shows "parse_host_port (h @ '':'' @ show_nat p) h0 p0 = (True, h, of_nat p)"
  using assms split_last_append [OF colon_not_in_digits, of h p]
  by (simp add: parse_host_port_def atoi_show Let_def)

lemma parse_spec_no_weight:
  assumes "CHR '':'' \<notin> set h" and "h \<noteq> []" and "0 < p" and "p \<le> 65535"
  shows "parse_backend_spec (h @ '':'' @ show_nat p) out =
    (True, out\<lparr>spec_host := h, spec_port := of_nat p, spec_weight := 1\<rparr>)"
  using assms split_last_append [OF colon_not_in_digits, of h p] split_first_append [OF assms(1), of "show_nat p"]
  by (simp add: parse_backend_spec_def atoi_show Let_def)

lemma parse_spec_weight:
  assumes "CHR '':'' \<notin> set h" and "0 < p" and "p \<le> 65535" and "0 < n" and "n < 2147483648"
  shows "parse_backend_spec (h @ '':'' @ show_nat p @ '':'' @ show_nat n) out =
    (True, out\<lparr>spec_host := h, spec_port := of_nat p, spec_weight := of_nat n\<rparr>)"
  using assms split_last_append [OF colon_not_in_digits, of "h @ '':'' @ show_nat p" n]
    split_first_append [OF assms(1), of "show_nat p @ '':'' @ show_nat n"]
  by (simp add: parse_backend_spec_def atoi_show atoi_show_colon Let_def)

lemma unat_u16_le: "unat (p :: u16) \<le> 65535"
proof -
  have "unat p < 65536" using unsigned_less [of p] by simp
  then show ?thesis by simp
qed

text \<open>
  The parsers read back what they are meant to read. A listening address \<open>HOST:PORT\<close>
  with a host and a port from 1 to 65535 gives that host and port, also when the host itself
  contains colons; a backend \<open>HOST:PORT:WEIGHT\<close> whose host has no colon, with such a port and
  a weight from 1 to \<open>INT_MAX\<close>, gives that specification; and \<open>HOST:PORT\<close> alone gives weight 1.
\<close>

lemma address_roundtrip:
  assumes "h \<noteq> []" and "0 < p" and "p \<le> 65535"
    and "CHR '':'' \<notin> set (spec_host sp)" and "spec_host sp \<noteq> []" and "spec_port sp \<noteq> 0"
    and "0 < unat (spec_weight sp)" and "unat (spec_weight sp) < 2147483648"
  shows "parse_host_port (h @ '':'' @ show_nat p) h0 p0 = (True, h, of_nat p) \<and>
    parse_backend_spec (show_spec sp) out = (True, sp) \<and>
    parse_backend_spec (spec_host sp @ '':'' @ show_nat (unat (spec_port sp))) out = (True, sp\<lparr>spec_weight := 1\<rparr>)"
proof -
  have p: "0 < unat (spec_port sp)" using assms(6) by (simp add: unat_gt_0)
  have "out\<lparr>spec_host := spec_host sp, spec_port := of_nat (unat (spec_port sp)),
      spec_weight := of_nat (unat (spec_weight sp))\<rparr> = sp"
    "out\<lparr>spec_host := spec_host sp, spec_port := of_nat (unat (spec_port sp)), spec_weight := 1\<rparr> =
      sp\<lparr>spec_weight := 1\<rparr>"
    by (rule backend_spec.equality; simp)+
  with parse_host_port_show [OF assms(1-3)] parse_spec_no_weight [OF assms(4,5) p unat_u16_le]
    parse_spec_weight [OF assms(4) p unat_u16_le assms(7,8)]
  show ?thesis by (simp only: show_spec_def)
qed

section \<open>What is accepted\<close>

lemma unat_of_int_u64: "0 \<le> v \<Longrightarrow> v < 2147483648 \<Longrightarrow> unat (of_int v :: u64) = nat v"
  by (simp add: unsigned_of_int take_bit_int_eq_self)

lemma unat_of_int_u16: "0 \<le> v \<Longrightarrow> v < 65536 \<Longrightarrow> unat (of_int v :: u16) = nat v"
  by (simp add: unsigned_of_int take_bit_int_eq_self)

lemma of_int_not_0:
  "0 < v \<Longrightarrow> v < 2147483648 \<Longrightarrow> (of_int v :: u64) \<noteq> 0" "0 < v \<Longrightarrow> v \<le> 65535 \<Longrightarrow> (of_int v :: u16) \<noteq> 0"
  using unat_of_int_u64 [of v] unat_of_int_u16 [of v] by auto

definition spec_ok :: "backend_spec \<Rightarrow> bool" where
  "spec_ok sp \<longleftrightarrow> spec_port sp \<noteq> 0 \<and> spec_weight sp \<noteq> 0 \<and> unat (spec_weight sp) < 2147483648"

lemma parse_backend_spec_ok:
  assumes "parse_backend_spec s out = (True, sp)"
  shows "spec_ok sp"
proof -
  from assms obtain bf af bl al where c: "split_first (CHR '':'') s = Some (bf, af)"
    "split_last (CHR '':'') s = Some (bl, al)"
    by (auto simp: parse_backend_spec_def split: option.splits)
  show ?thesis
  proof (cases "length bf = length bl")
    case True
    with assms c have "sp = out\<lparr>spec_host := bl, spec_port := of_int (atoi al), spec_weight := 1\<rparr>"
      "0 < atoi al" "atoi al \<le> 65535"
      by (auto simp: parse_backend_spec_def Let_def split: if_splits)
    with of_int_not_0(2) [of "atoi al"] show ?thesis by (simp add: spec_ok_def)
  next
    case False
    let ?w = "if atoi al = 0 then 1 else atoi al"
    from False assms c have "sp = out\<lparr>spec_host := bf, spec_port := of_int (atoi af), spec_weight := of_int ?w\<rparr>"
      "0 < atoi af" "atoi af \<le> 65535" "0 \<le> atoi al"
      by (auto simp: parse_backend_spec_def Let_def split: if_splits)
    with of_int_not_0(2) [of "atoi af"] of_int_not_0(1) [of ?w] unat_of_int_u64 [of ?w] atoi_range [of al]
    show ?thesis by (simp add: spec_ok_def split: if_splits)
  qed
qed

lemma parse_option_specs_ok:
  assumes "parse_option opt optarg out = Parsed a" and "list_all spec_ok (arg_backends out)"
  shows "list_all spec_ok (arg_backends a)"
  using assms
  by (auto simp: parse_option_def Let_def split: if_splits prod.splits dest: parse_backend_spec_ok)

lemma parse_args_specs_ok:
  "parse_args argv out = Parsed a \<Longrightarrow> list_all spec_ok (arg_backends out) \<Longrightarrow> list_all spec_ok (arg_backends a)"
  by (induction argv out rule: parse_args.induct) (auto split: parse_result.splits dest: parse_option_specs_ok)

lemma main_start_cases:
  assumes "main_start c argv = Some (Inr cfg)"
  obtains a where "parse_args argv default_args = Parsed a" and "main_config c a = Inr cfg"
  using assms by (auto simp: main_start_def split: parse_result.splits)

lemma main_config_backends:
  assumes "main_config c a = Inr cfg" and "list_all spec_ok (arg_backends a)"
  shows "cfg_backends cfg \<noteq> []" and "list_all spec_ok (cfg_backends cfg)"
  using assms by (auto simp: main_config_def Let_def spec_ok_def split: if_splits prod.splits)


definition demo_argv :: "(char \<times> string) list" where
  "demo_argv = [(CHR ''b'', ''x:1:2''), (CHR ''T'', []), (CHR ''C'', ''c''), (CHR ''K'', ''k''), (CHR ''A'', ''ca'')]"

lemma demo_spec: "parse_backend_spec ''x:1:2'' out = (True, \<lparr>spec_host = ''x'', spec_port = 1, spec_weight = 2\<rparr>)"
proof -
  have "show_nat 1 = ''1''" "show_nat 2 = ''2''" by (simp_all add: show_nat.simps digit_char_def char_of_eq_iff)
  with parse_spec_weight [of "''x''" 1 2 out] show ?thesis by (cases out) simp
qed

lemma demo_main_start:
  "\<exists>cfg. main_start demo_calls demo_argv = Some (Inr cfg) \<and> cfg_handler cfg = default_handler_options\<lparr>server_tls := Some True\<rparr>"
  by (simp add: main_start_def demo_argv_def parse_option_def demo_spec main_config_def Let_def default_args_def
      init_server_def demo_calls_def)


text \<open>
  C28: with \<open>--tls\<close> the router never serves a client in plain text and never without its
  certificate and key: either it exits with code 1 or 2, or its handler has a TLS context with
  that certificate and that key and TLS 1.2 or later; and a client certificate is demanded
  exactly when a client CA was given. Without \<open>--tls\<close> the handler has no TLS context.
\<close>

theorem tls_policy:
  assumes "parse_args argv default_args = Parsed a"
  shows "case main_start c argv of
      Some (Inl code) \<Rightarrow> tls_enabled a \<and> (code = 1 \<or> code = 2)
    | Some (Inr cfg) \<Rightarrow>
        if tls_enabled a then server_tls (cfg_handler cfg) = Some True \<and>
          (\<exists>ctx. cfg_tls cfg = Some ctx \<and> min_proto ctx = ''TLS1.2'' \<and>
             chain_file ctx = Some (tls_cert_path a) \<and> private_key_file ctx = Some (tls_key_path a) \<and>
             verify ctx = Some (if tls_client_ca_path a = [] then SSL_VERIFY_NONE else SSL_VERIFY_PEER True))
        else server_tls (cfg_handler cfg) = None \<and> cfg_tls cfg = None
    | None \<Rightarrow> False"
proof -
  let ?o = "\<lparr>cert_path = tls_cert_path a, key_path = tls_key_path a, client_ca_path = tls_client_ca_path a,
    require_client_cert = (tls_client_ca_path a \<noteq> [])\<rparr>"
  obtain ok ctx where i: "init_server c ?o = (ok, ctx)" by fastforce
  have "\<exists>x. ctx = Some x \<and> min_proto x = ''TLS1.2'' \<and> chain_file x = Some (tls_cert_path a) \<and>
      private_key_file x = Some (tls_key_path a) \<and>
      verify x = Some (if tls_client_ca_path a = [] then SSL_VERIFY_NONE else SSL_VERIFY_PEER True)" if ok
    using init_server_configures [of c ?o ctx] i that by auto
  with assms i show ?thesis
    by (auto simp: main_start_def main_config_def Let_def default_handler_options_def)
qed

theorem tls_policy_witness:
  "\<exists>cfg. main_start demo_calls demo_argv = Some (Inr cfg) \<and> server_tls (cfg_handler cfg) = Some True \<and>
     (\<exists>ctx. cfg_tls cfg = Some ctx \<and> verify ctx = Some (SSL_VERIFY_PEER True))"
proof -
  let ?a = "default_args\<lparr>arg_backends := [\<lparr>spec_host = ''x'', spec_port = 1, spec_weight = 2\<rparr>], tls_enabled := True,
    tls_cert_path := ''c'', tls_key_path := ''k'', tls_client_ca_path := ''ca''\<rparr>"
  have "parse_args demo_argv default_args = Parsed ?a"
    by (simp add: demo_argv_def parse_option_def demo_spec default_args_def)
  moreover obtain cfg where "main_start demo_calls demo_argv = Some (Inr cfg)" using demo_main_start by blast
  ultimately show ?thesis using tls_policy [of demo_argv ?a demo_calls] by auto
qed

text \<open>
  Malformed values are accepted. \<open>parse_backend_spec\<close> returns true for an empty host when a
  weight follows, for trailing garbage after the port, and for a fourth field, which replaces
  the third as the weight; an option \<open>--threads -1\<close> asks for \<open>SIZE_MAX\<close> workers.
\<close>

lemma lenient_parsing:
  "parse_backend_spec '':9:2'' fresh_spec = (True, \<lparr>spec_host = [], spec_port = 9, spec_weight = 2\<rparr>) \<and>
   parse_backend_spec ''h:9x'' fresh_spec = (True, \<lparr>spec_host = ''h'', spec_port = 9, spec_weight = 1\<rparr>) \<and>
   parse_backend_spec ''h:9:2:5'' fresh_spec = (True, \<lparr>spec_host = ''h'', spec_port = 9, spec_weight = 5\<rparr>) \<and>
   parse_args [(CHR ''t'', ''-1'')] default_args = Parsed (default_args\<lparr>threads := 18446744073709551615\<rparr>)"
proof -
  have "atoi ''9'' = 9" "atoi ''9:2'' = 9" "atoi ''9x'' = 9" "atoi ''9:2:5'' = 9" "atoi ''2'' = 2" "atoi ''5'' = 5" "atoi ''-1'' = -1"
    by (simp_all add: atoi_def strtol_def is_space_def is_digit_def digit_value_def long_clamp_def)
  then show ?thesis
    by (simp add: parse_backend_spec_def split_last_def fresh_spec_def Let_def parse_option_def)
qed

end
