(* ===== verification/Shutdown.thy ===== *)
theory Shutdown
  imports Prelude
begin

text \<open>
  \<open>src/src/shutdown.{h,cpp}\<close>: the flag that \<open>SIGTERM\<close> and \<open>SIGINT\<close> set and the main
  thread waits for. \<open>wait\<close> and \<open>request\<close> share a mutex and a condition variable, so they are
  a step relation over the positions of the waiting thread and of the calls of \<open>request\<close>. The
  signal handler calls \<open>request\<close>; a signal is delivered to some thread, and the handler runs on top of
  what the thread was doing, which takes no step until the call returns.
\<close>

section \<open>Signals\<close>

datatype signal = SIGTERM | SIGINT | SIGPIPE

text \<open>What \<open>sigaction\<close> sets: the handler comes with \<open>sa_mask\<close>.\<close>

datatype disposition = SIG_DFL | SIG_IGN | Handler "signal list"

definition install_signal_handlers :: "(signal \<Rightarrow> disposition) \<Rightarrow> signal \<Rightarrow> disposition" where
  "install_signal_handlers d = d(SIGTERM := Handler [], SIGINT := Handler [], SIGPIPE := SIG_IGN)"

section \<open>State\<close>

text \<open>
  The waiting thread: outside of \<open>wait\<close>, holding the lock before it evaluates the predicate,
  asleep on the condition variable, awake and about to take the lock again (with whether it
  timed out), or returned with a value. A call of \<open>request\<close>: before the lock, holding the lock,
  returned; it is made by the handler of a signal or by a statement of the program, on a thread, of
  which 0 is the one that waits.
\<close>

datatype wait_pos = Outside | Holding | Asleep | Awake bool | Returned bool
datatype request_pos = BeforeLock | InLock | Done
datatype lock_owner = Waiter | Requester nat

record call =
  caller :: "signal option"
  on_thread :: nat
  at :: request_pos

record shutdown_state =
  dispositions :: "signal \<Rightarrow> disposition"
  requested :: bool
  mu_owner :: "lock_owner option"
  wait_at :: wait_pos
  calls :: "call list"

definition shutdown_init :: shutdown_state where
  "shutdown_init = \<lparr>dispositions = install_signal_handlers (\<lambda>_. SIG_DFL), requested = False, mu_owner = None,
     wait_at = Outside, calls = []\<rparr>"

text \<open>The calls of a thread are nested, the latest on top.\<close>

definition busy :: "call list \<Rightarrow> nat \<Rightarrow> bool" where
  "busy cs t \<longleftrightarrow> (\<exists>c \<in> set cs. on_thread c = t \<and> at c \<noteq> Done)"

definition on_top :: "shutdown_state \<Rightarrow> nat \<Rightarrow> bool" where
  "on_top s i \<longleftrightarrow> i < length (calls s) \<and> \<not> busy (drop (Suc i) (calls s)) (on_thread (calls s ! i))"

text \<open>A signal waits while its own handler runs on the thread, or one whose mask has it.\<close>

definition masked_by :: "shutdown_state \<Rightarrow> call \<Rightarrow> signal \<Rightarrow> bool" where
  "masked_by s c sig =
     (case caller c of
        None \<Rightarrow> False
      | Some g \<Rightarrow> g = sig \<or> (case dispositions s g of Handler sa_mask \<Rightarrow> sig \<in> set sa_mask | _ \<Rightarrow> False))"

definition deliverable :: "shutdown_state \<Rightarrow> signal \<Rightarrow> nat \<Rightarrow> bool" where
  "deliverable s sig t \<longleftrightarrow> (case dispositions s sig of Handler sa_mask \<Rightarrow> True | _ \<Rightarrow> False) \<and>
     \<not> (\<exists>c \<in> set (calls s). on_thread c = t \<and> at c \<noteq> Done \<and> masked_by s c sig)"

text \<open>A statement of the program is executed only by a thread that no handler interrupts, and not inside of \<open>wait\<close>.\<close>

definition callable :: "shutdown_state \<Rightarrow> nat \<Rightarrow> bool" where
  "callable s t \<longleftrightarrow> \<not> busy (calls s) t \<and> (t = 0 \<longrightarrow> wait_at s = Outside \<or> (\<exists>b. wait_at s = Returned b))"

section \<open>Steps\<close>

text \<open>
  \<open>RequestStore\<close> is the store to \<open>requested_\<close>, before the lock is taken; \<open>RequestNotify\<close> is
  \<open>notify_all\<close> and the release of the lock.
\<close>

datatype shutdown_action =
  WaitLock | WaitReturn | WaitSleep | WaitTimeout | WaitSpurious | WaitRelock | WaitAgain
| RequestStore "signal option" nat | RequestLock nat | RequestNotify nat

inductive shutdown_step :: "shutdown_state \<Rightarrow> shutdown_action \<Rightarrow> shutdown_state \<Rightarrow> bool" where
  wait_lock: "wait_at s = Outside \<Longrightarrow> mu_owner s = None \<Longrightarrow> \<not> busy (calls s) 0 \<Longrightarrow>
    shutdown_step s WaitLock (s\<lparr>wait_at := Holding, mu_owner := Some Waiter\<rparr>)"
| wait_return: "wait_at s = Holding \<Longrightarrow> requested s \<Longrightarrow> \<not> busy (calls s) 0 \<Longrightarrow>
    shutdown_step s WaitReturn (s\<lparr>wait_at := Returned (requested s), mu_owner := None\<rparr>)"
| wait_sleep: "wait_at s = Holding \<Longrightarrow> \<not> requested s \<Longrightarrow> \<not> busy (calls s) 0 \<Longrightarrow>
    shutdown_step s WaitSleep (s\<lparr>wait_at := Asleep, mu_owner := None\<rparr>)"
| wait_timeout: "wait_at s = Asleep \<Longrightarrow> \<not> busy (calls s) 0 \<Longrightarrow>
    shutdown_step s WaitTimeout (s\<lparr>wait_at := Awake True\<rparr>)"
| wait_spurious: "wait_at s = Asleep \<Longrightarrow> \<not> busy (calls s) 0 \<Longrightarrow>
    shutdown_step s WaitSpurious (s\<lparr>wait_at := Awake False\<rparr>)"
| wait_relock: "wait_at s = Awake t \<Longrightarrow> mu_owner s = None \<Longrightarrow> \<not> busy (calls s) 0 \<Longrightarrow>
    shutdown_step s WaitRelock
      (if t then s\<lparr>wait_at := Returned (requested s)\<rparr> else s\<lparr>wait_at := Holding, mu_owner := Some Waiter\<rparr>)"
| wait_again: "wait_at s = Returned b \<Longrightarrow> \<not> busy (calls s) 0 \<Longrightarrow>
    shutdown_step s WaitAgain (s\<lparr>wait_at := Outside\<rparr>)"
| request_store: "(case g of None \<Rightarrow> callable s t | Some sig \<Rightarrow> deliverable s sig t) \<Longrightarrow>
    shutdown_step s (RequestStore g t)
      (s\<lparr>requested := True, calls := calls s @ [\<lparr>caller = g, on_thread = t, at = BeforeLock\<rparr>]\<rparr>)"
| request_lock: "on_top s i \<Longrightarrow> at (calls s ! i) = BeforeLock \<Longrightarrow> mu_owner s = None \<Longrightarrow>
    shutdown_step s (RequestLock i)
      (s\<lparr>calls := (calls s)[i := (calls s ! i)\<lparr>at := InLock\<rparr>], mu_owner := Some (Requester i)\<rparr>)"
| request_notify: "on_top s i \<Longrightarrow> at (calls s ! i) = InLock \<Longrightarrow>
    shutdown_step s (RequestNotify i)
      (s\<lparr>calls := (calls s)[i := (calls s ! i)\<lparr>at := Done\<rparr>], mu_owner := None,
        wait_at := (if wait_at s = Asleep then Awake False else wait_at s)\<rparr>)"

inductive_simps shutdown_step_iffs: "shutdown_step s WaitLock t" "shutdown_step s WaitSleep t"
  "shutdown_step s (RequestStore g k) t" "shutdown_step s (RequestLock i) t" "shutdown_step s (RequestNotify i) t"

text \<open>\<open>reset_for_test\<close> clears the flag under the lock.\<close>

definition reset_for_test :: "shutdown_state \<Rightarrow> shutdown_state" where
  "reset_for_test s = s\<lparr>requested := False\<rparr>"

section \<open>Invariant\<close>

definition call_at :: "call list \<Rightarrow> nat \<Rightarrow> request_pos \<Rightarrow> bool" where
  "call_at cs i p \<longleftrightarrow> i < length cs \<and> at (cs ! i) = p"

definition shutdown_ok :: "shutdown_state \<Rightarrow> bool" where
  "shutdown_ok s \<longleftrightarrow> (requested s \<longleftrightarrow> calls s \<noteq> []) \<and>
     (mu_owner s = Some Waiter \<longleftrightarrow> wait_at s = Holding) \<and>
     (\<forall>i. mu_owner s = Some (Requester i) \<longleftrightarrow> call_at (calls s) i InLock) \<and>
     ((\<exists>i. call_at (calls s) i Done) \<longrightarrow> wait_at s \<noteq> Asleep)"

lemma call_at_simps:
  "i < length cs \<Longrightarrow> call_at (cs[i := c]) j p \<longleftrightarrow> (if i = j then at c = p else call_at cs j p)"
  "call_at (cs @ [c]) j p \<longleftrightarrow> (if j = length cs then at c = p else call_at cs j p)" "\<not> call_at [] i p"
  "\<not> call_at cs (length cs) p"
  by (auto simp: call_at_def nth_append)

lemma call_at_unique: "call_at cs i p \<Longrightarrow> call_at cs i q \<Longrightarrow> p = q"
  by (simp add: call_at_def)

lemma on_top_call_at: "on_top s i \<Longrightarrow> at (calls s ! i) = p \<Longrightarrow> call_at (calls s) i p"
  by (simp add: on_top_def call_at_def)

lemma shutdown_ok_step:
  assumes "shutdown_ok s" and "shutdown_step s a t"
  shows "shutdown_ok t"
  using assms(2)
proof cases
  case (request_lock i)
  then have "i < length (calls s)" by (simp add: on_top_def)
  with assms(1) request_lock show ?thesis by (fastforce simp: shutdown_ok_def call_at_simps)
next
  case (request_notify i)
  then have "i < length (calls s)" "mu_owner s = Some (Requester i)"
    using assms(1) on_top_call_at [of s i] by (auto simp: shutdown_ok_def on_top_def)
  with assms(1) request_notify show ?thesis by (fastforce simp: shutdown_ok_def call_at_simps)
qed (use assms(1) in \<open>auto simp: shutdown_ok_def call_at_simps\<close>)

interpretation shutdown_inv: machine_invariant shutdown_step shutdown_ok
  by unfold_locales (rule shutdown_ok_step)

lemma shutdown_init_ok: "shutdown_ok shutdown_init"
  by (simp add: shutdown_ok_def shutdown_init_def call_at_simps)

text \<open>The owner of the lock is under a handler that waits for the lock.\<close>

fun owner_buried :: "call list \<Rightarrow> lock_owner option \<Rightarrow> bool" where
  "owner_buried cs None = False"
| "owner_buried cs (Some Waiter) = busy cs 0"
| "owner_buried cs (Some (Requester i)) = busy (drop (Suc i) cs) (on_thread (cs ! i))"

lemma buried_step:
  assumes "shutdown_ok s" and "owner_buried (calls s) (mu_owner s)" and "shutdown_step s a t"
  shows "mu_owner t = mu_owner s \<and> owner_buried (calls t) (mu_owner t)"
  using assms(3)
proof cases
  case (request_store g k)
  consider "mu_owner s = Some Waiter" | i where "mu_owner s = Some (Requester i)" "i < length (calls s)"
    using assms(1,2) by (cases "mu_owner s"; cases "the (mu_owner s)") (auto simp: shutdown_ok_def call_at_def)
  then show ?thesis using assms(2) request_store by cases (auto simp: busy_def nth_append)
next
  case (request_notify i)
  with assms(1,2) have "mu_owner s = Some (Requester i)" by (auto simp: shutdown_ok_def on_top_call_at)
  with assms(2) request_notify show ?thesis by (simp add: on_top_def)
qed (use assms(1,2) in \<open>auto simp: shutdown_ok_def\<close>)

lemma buried_runs:
  "runs shutdown_step s acts t \<Longrightarrow> shutdown_ok s \<Longrightarrow> owner_buried (calls s) (mu_owner s) \<Longrightarrow>
     mu_owner t = mu_owner s \<and> owner_buried (calls t) (mu_owner t)"
proof (induction rule: runs.induct)
  case (runs_Cons s a t acts u)
  note b = buried_step [OF runs_Cons.prems runs_Cons.hyps(1)]
  from runs_Cons.IH [OF shutdown_ok_step [OF runs_Cons.prems(1) runs_Cons.hyps(1)]] b show ?case by metis
qed simp

text \<open>Nobody returns from \<open>wait\<close> while another holds the lock.\<close>

lemma no_return_runs:
  assumes "runs shutdown_step s acts t" and "shutdown_ok s" and "owner_buried (calls s) (mu_owner s)" and "\<And>b. wait_at s \<noteq> Returned b"
  shows "wait_at t \<noteq> Returned b"
  using assms
proof (induction arbitrary: b rule: runs.induct)
  case (runs_Cons s a t acts u)
  note st = shutdown_ok_step [OF runs_Cons.prems(1) runs_Cons.hyps(1)] buried_step [OF runs_Cons.prems(1,2) runs_Cons.hyps(1)]
  have "wait_at t \<noteq> Returned c" for c
    using runs_Cons.hyps(1) runs_Cons.prems by cases (auto simp: shutdown_ok_def split: if_splits)
  with st(2) show ?case by (intro runs_Cons.IH [OF st(1)]) blast+
qed simp

section \<open>Progress\<close>

lemma unfinished_on_top:
  assumes "i < length cs" and "at (cs ! i) \<noteq> Done"
  shows "\<exists>j < length cs. at (cs ! j) \<noteq> Done \<and> on_thread (cs ! j) = on_thread (cs ! i) \<and>
    \<not> busy (drop (Suc j) cs) (on_thread (cs ! j))"
  using assms
proof (induction "length cs - i" arbitrary: i rule: less_induct)
  case less
  show ?case
  proof (cases "busy (drop (Suc i) cs) (on_thread (cs ! i))")
    case True
    then obtain c where c: "c \<in> set (drop (Suc i) cs)" "on_thread c = on_thread (cs ! i)" "at c \<noteq> Done" by (auto simp: busy_def)
    then obtain k where "k < length cs - Suc i" "c = cs ! (Suc i + k)"
      by (auto simp: in_set_conv_nth less.prems(1) Suc_leI)
    with c less.hyps [of "Suc i + k"] less.prems show ?thesis by force
  qed (use less.prems in blast)
qed

lemma lock_goes_on:
  assumes "shutdown_ok s" and "calls s \<noteq> []" and "\<exists>c \<in> set (calls s). at c \<noteq> Done" and "\<not> owner_buried (calls s) (mu_owner s)"
  shows "\<exists>a t. a \<in> {WaitReturn} \<union> range RequestLock \<union> range RequestNotify \<and> shutdown_step s a t"
proof (cases "mu_owner s")
  case None
  from assms(3) obtain i where "i < length (calls s)" "at (calls s ! i) \<noteq> Done" by (auto simp: in_set_conv_nth)
  from unfinished_on_top [OF this] obtain j where j: "on_top s j" "at (calls s ! j) \<noteq> Done" by (auto simp: on_top_def)
  with assms(1) None have "at (calls s ! j) = BeforeLock"
    using on_top_call_at [OF j(1)] by (cases "at (calls s ! j)") (auto simp: shutdown_ok_def)
  from request_lock [OF j(1) this None] show ?thesis by blast
next
  case (Some x)
  show ?thesis
  proof (cases x)
    case Waiter
    with assms Some have "wait_at s = Holding" "requested s" "\<not> busy (calls s) 0" by (auto simp: shutdown_ok_def)
    from wait_return [OF this] show ?thesis by blast
  next
    case (Requester i)
    with assms(1,4) Some have "call_at (calls s) i InLock" by (auto simp: shutdown_ok_def)
    with assms(4) Some Requester have "on_top s i" "at (calls s ! i) = InLock" by (simp_all add: call_at_def on_top_def)
    from request_notify [OF this] show ?thesis by blast
  qed
qed

section \<open>Properties\<close>


definition demo_requested :: shutdown_state where
  "demo_requested = shutdown_init\<lparr>requested := True, wait_at := Awake False,
     calls := [\<lparr>caller = Some SIGTERM, on_thread = 3, at = Done\<rparr>, \<lparr>caller = Some SIGINT, on_thread = 4, at = BeforeLock\<rparr>]\<rparr>"

lemmas shutdown_run_defs = runs_Cons_iff shutdown_step_iffs shutdown_init_def install_signal_handlers_def busy_def
  on_top_def deliverable_def masked_by_def

lemma demo_requested_runs:
  "runs shutdown_step shutdown_init [WaitLock, WaitSleep, RequestStore (Some SIGTERM) 3, RequestLock 0,
     RequestStore (Some SIGINT) 4, RequestNotify 0] demo_requested"
  by (simp add: shutdown_run_defs demo_requested_def)


text \<open>
  C39: the signal handler can lock up the process. If the signal is delivered to the main thread while it holds
  the mutex in \<open>wait\<close>, the handler's \<open>request\<close> waits for a lock that the thread underneath it holds. And since
  neither handler masks the other signal, a \<open>SIGINT\<close> on a worker that runs the handler of \<open>SIGTERM\<close> does
  the same, while the main thread is in \<open>wait\<close>. Both states are reachable, and from both the mutex never
  changes hands and the main thread never returns from \<open>wait\<close>, although the shutdown was requested.
\<close>

theorem signal_handler_deadlocks:
  "(\<exists>acts s. runs shutdown_step shutdown_init acts s \<and> requested s \<and> mu_owner s = Some Waiter \<and>
      {t. \<exists>acts'. runs shutdown_step s acts' t} \<subseteq> {t. mu_owner t = Some Waiter \<and> wait_at t \<notin> range Returned}) \<and>
   (\<exists>acts s. runs shutdown_step shutdown_init acts s \<and> requested s \<and> wait_at s = Asleep \<and>
      \<not> busy (calls s) 0 \<and> mu_owner s = Some (Requester 0) \<and>
      {t. \<exists>acts'. runs shutdown_step s acts' t} \<subseteq> {t. mu_owner t = Some (Requester 0) \<and> wait_at t \<notin> range Returned})"
proof -
  let ?s = "shutdown_init\<lparr>requested := True, mu_owner := Some Waiter, wait_at := Holding,
    calls := [\<lparr>caller = Some SIGTERM, on_thread = 0, at = BeforeLock\<rparr>]\<rparr>"
  let ?t = "shutdown_init\<lparr>requested := True, mu_owner := Some (Requester 0), wait_at := Asleep,
    calls := [\<lparr>caller = Some SIGTERM, on_thread = 3, at = InLock\<rparr>, \<lparr>caller = Some SIGINT, on_thread = 3, at = BeforeLock\<rparr>]\<rparr>"
  have s: "runs shutdown_step shutdown_init [WaitLock, RequestStore (Some SIGTERM) 0] ?s"
    by (simp add: shutdown_run_defs)
  have t: "runs shutdown_step shutdown_init [WaitLock, WaitSleep, RequestStore (Some SIGTERM) 3, RequestLock 0,
      RequestStore (Some SIGINT) 3] ?t"
    by (simp add: shutdown_run_defs)
  have b: "owner_buried (calls ?s) (mu_owner ?s)" "owner_buried (calls ?t) (mu_owner ?t)" by (simp_all add: busy_def)
  note ok = shutdown_inv.ok_runs [OF s shutdown_init_ok] shutdown_inv.ok_runs [OF t shutdown_init_ok]
  have "{u. \<exists>acts'. runs shutdown_step ?s acts' u} \<subseteq> {u. mu_owner u = Some Waiter \<and> wait_at u \<notin> range Returned}"
  proof clarify
    fix acts u
    assume r: "runs shutdown_step ?s acts u"
    have "mu_owner u = mu_owner ?s" using buried_runs [OF r ok(1) b(1)] by (rule conjunct1)
    moreover have "wait_at u \<noteq> Returned c" for c by (rule no_return_runs [OF r ok(1) b(1)]) simp
    ultimately show "mu_owner u = Some Waiter \<and> wait_at u \<notin> range Returned" by auto
  qed
  moreover have "requested ?s" "mu_owner ?s = Some Waiter" by simp_all
  moreover have "{u. \<exists>acts'. runs shutdown_step ?t acts' u} \<subseteq> {u. mu_owner u = Some (Requester 0) \<and> wait_at u \<notin> range Returned}"
  proof clarify
    fix acts u
    assume r: "runs shutdown_step ?t acts u"
    have "mu_owner u = mu_owner ?t" using buried_runs [OF r ok(2) b(2)] by (rule conjunct1)
    moreover have "wait_at u \<noteq> Returned c" for c by (rule no_return_runs [OF r ok(2) b(2)]) simp
    ultimately show "mu_owner u = Some (Requester 0) \<and> wait_at u \<notin> range Returned" by auto
  qed
  moreover have "requested ?t" "wait_at ?t = Asleep" "\<not> busy (calls ?t) 0" "mu_owner ?t = Some (Requester 0)"
    by (simp_all add: busy_def)
  ultimately show ?thesis using s t by blast
qed

end
