(* ===== verification/Fuzz_Wire.thy ===== *)
theory Fuzz_Wire
  imports Wire
begin

text \<open>
  \<open>src/tests/fuzz/fuzz_wire.cpp\<close>: the fuzzing harness of the frame decoder. A harness tries
  inputs; here its function is the specification, and it is shown to pass on all of them, on
  either byte order.
\<close>

definition kFuzzMaxPayload :: nat where
  "kFuzzMaxPayload = 64 * 1024"

text \<open>\<open>__builtin_trap\<close>: None. A null \<open>data\<close> comes with size 0.\<close>

definition trap_if :: "bool \<Rightarrow> unit option" where
  "trap_if c = (if c then None else Some ())"

definition fuzz_one_input :: "endian \<Rightarrow> bytes option \<Rightarrow> int option" where
  "fuzz_one_input e data =
     (let b = (case data of None \<Rightarrow> [] | Some b \<Rightarrow> b);
          (status, out, consumed) = parse_frame e data kFuzzMaxPayload [];
          (status2, out2, consumed2) = parse_frame e data kFuzzMaxPayload []
      in do {
        trap_if (status \<noteq> status2 \<or> consumed \<noteq> consumed2 \<or> out \<noteq> out2);
        (if status = kOk then do {
           trap_if (length b < 4);
           let len = ntohl e (memcpy_u32 e b) in do {
             trap_if (consumed \<noteq> 4 + unat len);
             trap_if (length out \<noteq> unat len);
             trap_if (consumed > length b)
           }
         }
         else trap_if (consumed \<noteq> 0));
        (if status = kOk then
           let net_len = htonl e (of_nat (length out));
               framed = memcpy_hdr e net_len @ out;
               (rc, reparsed, reconsumed) = parse_frame e (Some framed) kFuzzMaxPayload []
           in do {
             trap_if (rc \<noteq> kOk);
             trap_if (reparsed \<noteq> out);
             trap_if (reconsumed \<noteq> length framed)
           }
         else Some ());
        Some 0
      })"

text \<open>A frame written by hand is the reference encoding, and is decoded to what was put in.\<close>

lemma length_memcpy_hdr [simp]: "length (memcpy_hdr e x) = 4"
  by (cases e) simp_all

lemma framed_is_frame:
  assumes "length p < 4294967296"
  shows "memcpy_hdr e (htonl e (of_nat (length p))) @ p = frame p"
  using memcpy_htonl [OF assms] by (simp add: frame_def)

lemma parse_frame_frame:
  assumes "frame_fits mx p"
  shows "parse_frame e (Some (frame p)) mx out = (kOk, p, 4 + length p)"
  using assms parse_frame_ok_iff [of e "frame p" mx out p "4 + length p"] by simp

lemma parse_frame_not_ok: "fst (parse_frame e data mx out) \<noteq> kOk \<Longrightarrow> snd (snd (parse_frame e data mx out)) = 0"
  by (auto simp: parse_frame_def Let_def split: option.splits if_splits)

text \<open>
  The fuzzing harness can never trap. On every input and either byte order the decoder gives
  the same answer twice; on \<open>kOk\<close> it has consumed the header and the announced payload and
  not read past the end; otherwise it has consumed nothing; and the payload, framed again, is
  decoded to itself.
\<close>

lemma fuzz_never_traps: "fuzz_one_input e data = Some 0"
proof (cases "fst (parse_frame e data kFuzzMaxPayload []) = kOk")
  case False
  obtain st out c where "parse_frame e data kFuzzMaxPayload [] = (st, out, c)"
    by (cases "parse_frame e data kFuzzMaxPayload []")
  with False parse_frame_not_ok [OF False] show ?thesis by (simp add: fuzz_one_input_def trap_if_def)
next
  case True
  then obtain b where b: "data = Some b" by (cases data) (auto simp: parse_frame_def)
  from True obtain p c where p: "parse_frame e (Some b) kFuzzMaxPayload [] = (kOk, p, c)"
    unfolding b by (cases "parse_frame e (Some b) kFuzzMaxPayload []") auto
  then have c: "c = 4 + length p" and fits: "frame_fits kFuzzMaxPayload p" and "length p = unat (ntohl e (memcpy_u32 e b))"
    and len: "4 \<le> length b" "c \<le> length b"
    using parse_frame_ok_iff [of e b kFuzzMaxPayload "[]" p c]
    by (auto simp: parse_frame_def Let_def split: if_splits)
  moreover from fits have "memcpy_hdr e (htonl e (of_nat (length p))) @ p = frame p"
    by (intro framed_is_frame) (simp add: frame_fits_def)
  ultimately show ?thesis
    using p b parse_frame_frame [OF fits, of e "[]"] by (simp add: fuzz_one_input_def trap_if_def Let_def)
qed

end
