(* ===== verification/Echo_Backend.thy ===== *)
theory Echo_Backend
  imports Acceptor Logging
begin

text \<open>
  \<open>src/tools/backend_echo/main.cpp\<close>, the echo server that stands in for a model server, and
  the echo server inside \<open>src/bench/load.cpp\<close>, whose connection loop is the same code with
  other limits.
\<close>

section \<open>One connection\<close>

text \<open>
  Read a message, write it back, until a read or a write does not return \<open>kOk\<close>; the cases
  \<open>kPeerClosed\<close> and other failures differ only in what is logged.
\<close>

partial_function (option) echo_loop ::
    "'e os \<Rightarrow> endian \<Rightarrow> fd \<Rightarrow> nat \<Rightarrow> int \<Rightarrow> int \<Rightarrow> 'e world \<Rightarrow> 'e world option" where
  "echo_loop os e f max_payload read_ms write_ms w =
     Option.bind (read_message os e f [] max_payload read_ms w) (\<lambda>(rc, msg, w1).
       if rc = kPeerClosed then Some w1
       else if rc \<noteq> kOk then Some w1
       else Option.bind (write_message os e f msg write_ms w1) (\<lambda>(wr, w2).
         if wr \<noteq> kOk then Some w2
         else echo_loop os e f max_payload read_ms write_ms w2))"

definition serve_one :: "'e os \<Rightarrow> endian \<Rightarrow> fd \<Rightarrow> 'e world \<Rightarrow> 'e world option" where
  "serve_one os e f w =
     do { w1 \<leftarrow> echo_loop os e f kDefaultMaxPayload 30000 5000 w; safe_close os f w1 }"

definition bench_echo_worker :: "'e os \<Rightarrow> endian \<Rightarrow> fd \<Rightarrow> 'e world \<Rightarrow> 'e world option" where
  "bench_echo_worker os e f w =
     do { w1 \<leftarrow> echo_loop os e f (64 * 1024) 5000 5000 w; safe_close os f w1 }"

section \<open>The server\<close>

record echo_args =
  echo_host :: string
  echo_port :: int
  echo_log_level :: int

definition default_echo_args :: echo_args where
  "default_echo_args = \<lparr>echo_host = ''0.0.0.0'', echo_port = 9090, echo_log_level = 1\<rparr>"

fun echo_parse_args :: "(char \<times> string) list \<Rightarrow> echo_args \<Rightarrow> echo_args option" where
  "echo_parse_args [] a = Some a"
| "echo_parse_args ((opt, optarg) # rest) a =
     (if opt = CHR ''h'' then echo_parse_args rest (a\<lparr>echo_host := optarg\<rparr>)
      else if opt = CHR ''p'' then echo_parse_args rest (a\<lparr>echo_port := atoi optarg\<rparr>)
      else if opt = CHR ''L'' then echo_parse_args rest (a\<lparr>echo_log_level := atoi optarg\<rparr>)
      else None)"

text \<open>
  The accept loop: \<open>ep_stop\<close> is \<open>Shutdown::requested()\<close>, or the \<open>stop\<close> flag in the benchmark;
  the list collects the connections for which a thread was started.
\<close>

partial_function (option) echo_accept_loop ::
    "'e os \<Rightarrow> 'e epoll \<Rightarrow> int \<Rightarrow> fd \<Rightarrow> fd list \<Rightarrow> 'e world \<Rightarrow> (fd list \<times> 'e world) option" where
  "echo_accept_loop os ep poll_ms l threads w =
     (case sys_env (ep_stop ep) w of (stop, w1) \<Rightarrow>
        if stop then Some (threads, w1)
        else (case sys_poll os l POLLIN poll_ms w1 of (pr, w2) \<Rightarrow>
          (case pr of
             PollReady b \<Rightarrow>
               (case sys_accept ep l w2 of (r, w3) \<Rightarrow>
                  (case r of
                     AcceptErr err \<Rightarrow> echo_accept_loop os ep poll_ms l threads w3
                   | AcceptFd client \<Rightarrow> echo_accept_loop os ep poll_ms l (threads @ [client]) w3))
           | _ \<Rightarrow> echo_accept_loop os ep poll_ms l threads w2)))"

text \<open>The exit code and the connections served; the threads run concurrently with the loop.\<close>

definition echo_main ::
    "'e os \<Rightarrow> ('a, 'e) netdb \<Rightarrow> 'e epoll \<Rightarrow> (char \<times> string) list \<Rightarrow> 'e world \<Rightarrow> (nat \<times> fd list \<times> 'e world) option"
    where
  "echo_main os nd ep argv w =
     (case echo_parse_args argv default_echo_args of
        None \<Rightarrow> Some (2, [], w)
      | Some a \<Rightarrow> do {
          (l, w1) \<leftarrow> listen_tcp os nd (echo_host a) (of_int (echo_port a)) 128 w;
          if l < 0 then Some (1, [], w1)
          else do {
            (threads, w2) \<leftarrow> echo_accept_loop os ep 200 l [] w1;
            w3 \<leftarrow> safe_close os l w2;
            Some (0, threads, w3)
          }
        })"

section \<open>What a connection does\<close>

lemmas echo_loop_induct = echo_loop.raw_induct [rotated, consumes 1, case_names step]
lemmas echo_accept_loop_induct = echo_accept_loop.raw_induct [rotated, consumes 1, case_names step]

text \<open>\<open>echoed f w w'\<close>: only \<open>f\<close> was read and written, and what was written is a prefix of what was read.\<close>

definition echoed :: "fd \<Rightarrow> 'e world \<Rightarrow> 'e world \<Rightarrow> bool" where
  "echoed f w w' \<longleftrightarrow> (\<exists>evs. did w evs w' \<and> prefix (sent f evs) (received f evs) \<and>
     (\<forall>ev \<in> set evs. \<exists>bs. ev = EvRecv f bs \<or> ev = EvSend f bs))"

lemma echoed_read:
  assumes "transferred (EvRecv f) w bs w'"
  shows "echoed f w w'"
proof -
  from assms obtain cs where "did w (map (EvRecv f) cs) w'" by (rule transferredE)
  then show ?thesis unfolding echoed_def by (intro exI [of _ "map (EvRecv f) cs"]) (auto simp: trace_simps)
qed

lemma echoed_read_write:
  assumes "transferred (EvRecv f) w (bs @ rest) v" and "transferred (EvSend f) v bs u"
  shows "echoed f w u"
proof -
  from assms(1) obtain rs where r: "did w (map (EvRecv f) rs) v" "concat rs = bs @ rest" by (rule transferredE)
  from assms(2) obtain ss where s: "did v (map (EvSend f) ss) u" "concat ss = bs" by (rule transferredE)
  from did_trans [OF r(1) s(1)] r(2) s(2) show ?thesis
    unfolding echoed_def by (intro exI [of _ "map (EvRecv f) rs @ map (EvSend f) ss"]) (auto simp: trace_simps)
qed

lemma echoed_whole:
  assumes "transferred (EvRecv f) w bs v" and "transferred (EvSend f) v bs u" and "echoed f u t"
  shows "echoed f w t"
proof -
  from assms(1) obtain rs where r: "did w (map (EvRecv f) rs) v" "concat rs = bs" by (rule transferredE)
  from assms(2) obtain ss where s: "did v (map (EvSend f) ss) u" "concat ss = bs" by (rule transferredE)
  from assms(3) obtain evs where e: "did u evs t" "prefix (sent f evs) (received f evs)"
    "\<forall>ev \<in> set evs. \<exists>bs. ev = EvRecv f bs \<or> ev = EvSend f bs"
    by (auto simp: echoed_def)
  from did_trans [OF did_trans [OF r(1) s(1)] e(1)] r(2) s(2) e(2,3) show ?thesis
    unfolding echoed_def
    by (intro exI [of _ "(map (EvRecv f) rs @ map (EvSend f) ss) @ evs"]) (auto simp: trace_simps)
qed

lemma echo_loop_echoed:
  "echo_loop os e f mx rt wt w = Some w' \<Longrightarrow> recv_bounded os \<Longrightarrow> echoed f w w'"
proof (induction rule: echo_loop_induct)
  case (step g os e f mx rt wt w w')
  from step.hyps obtain rc msg w1 where r: "read_message os e f [] mx rt w = Some (rc, msg, w1)"
    by (auto elim!: bind_SomeE)
  from read_message_outcome [OF step.prems r] obtain bs
    where t: "transferred (EvRecv f) w bs w1" and o: "frame_outcome e mx [] bs rc msg" by blast
  show ?case
  proof (cases "rc = kOk")
    case False
    with step.hyps r echoed_read [OF t] show ?thesis by (auto split: if_splits)
  next
    case True
    with o have bs: "bs = frame msg" "frame_fits mx msg" by (simp_all add: frame_outcome_ok)
    from step.hyps r True obtain wr w2 where wr: "write_message os e f msg wt w1 = Some (wr, w2)"
      and k: "(if wr \<noteq> kOk then Some w2 else g os e f mx rt wt w2) = Some w'"
      by (auto elim!: bind_SomeE)
    from write_message_written [OF wr] bs(2) obtain s1 s2 where s: "transferred (EvSend f) w1 s1 w2"
      "frame msg = s1 @ s2" "wr = kOk \<longleftrightarrow> s2 = []"
      by (auto simp: message_written_def frame_fits_def)
    show ?thesis
    proof (cases "wr = kOk")
      case False
      with k echoed_read_write [of f w s1 s2 w1 w2] t bs s show ?thesis by simp
    next
      case True
      with k have "g os e f mx rt wt w2 = Some w'" by simp
      from step.IH [OF this step.prems] True t bs s show ?thesis by (auto intro: echoed_whole)
    qed
  qed
qed

section \<open>A connection ends\<close>

text \<open>
  \<open>finite_stream\<close>: the peer sends finitely many chunks. Then every message that was read used
  up some of the budget.
\<close>

fun data_cost :: "recv_result \<Rightarrow> nat" where
  "data_cost (RecvData bs) = 1"
| "data_cost _ = 0"

definition finite_stream :: "'e os \<Rightarrow> ('e \<Rightarrow> nat) \<Rightarrow> bool" where
  "finite_stream os budget \<longleftrightarrow>
     (\<forall>f n e. budget (snd (os_recv os f n e)) + data_cost (fst (os_recv os f n e)) \<le> budget e)"

lemma finite_streamD:
  assumes "finite_stream os budget" and "sys_recv os f n w = (r, w')"
  shows "budget (env w') + data_cost r \<le> budget (env w)"
proof -
  have "budget (snd (os_recv os f n (env w))) + data_cost (fst (os_recv os f n (env w))) \<le> budget (env w)"
    using assms(1) by (simp add: finite_stream_def)
  with assms(2) show ?thesis by (auto simp: sys_recv_def world_simps split: prod.splits)
qed

lemma read_exact_drains:
  "read_exact os f need t aeof got w = Some r \<Longrightarrow> finite_interrupts os budget \<Longrightarrow> finite_stream os budget \<Longrightarrow>
     budget (env (snd (snd r))) + (if length got < need \<and> fst r = kOk then 1 else 0) \<le> budget (env w)"
proof (induction rule: read_exact_induct)
  case (step g os f need t aeof got w r)
  show ?case
  proof (cases "length got < need")
    case False
    with step.hyps show ?thesis by auto
  next
    case True
    with step.hyps obtain rc w1 where w1: "wait_for os f POLLIN t w = Some (rc, w1)"
      by (auto elim!: bind_SomeE)
    have b1: "budget (env w1) \<le> budget (env w)"
      using wait_for_returns [OF step.prems(1), of w f POLLIN t] w1 by (auto elim: returnsE)
    obtain n w2 where w2: "sys_recv os f (need - length got) w1 = (n, w2)" by fastforce
    note b2 = finite_streamD [OF step.prems(2) w2]
    have IH: "budget (env (snd (snd r))) + (if length got' < need \<and> fst r = kOk then 1 else 0) \<le> budget (env w2)"
      if "g os f need t aeof got' w2 = Some r" for got'
      by (rule step.IH [OF that step.prems])
    from step.hyps True w1 w2 b1 b2 show ?thesis
      by (cases n) (auto split: if_splits dest!: IH)
  qed
qed

lemma read_message_drains:
  assumes "read_message os e f out mx t w = Some (kOk, msg, w')" and "finite_interrupts os budget"
    and "finite_stream os budget"
  shows "budget (env w') < budget (env w)"
proof -
  from assms(1) obtain hdr w1 where h: "read_exact os f 4 t True [] w = Some (kOk, hdr, w1)"
    and k: "w' = w1 \<or> (\<exists>n r. read_exact os f n t False [] w1 = Some r \<and> w' = snd (snd r))"
    by (fastforce simp: read_message_def Let_def split: if_splits elim!: bind_SomeE)
  from read_exact_drains [OF h assms(2,3)] have "budget (env w1) < budget (env w)" by simp
  with k read_exact_drains [OF _ assms(2,3), of f _ t False "[]" w1] show ?thesis by fastforce
qed

lemma echo_loop_returns:
  assumes fin: "finite_interrupts os budget" and rb: "recv_bounded os" and str: "finite_stream os budget"
  shows "returns budget w (echo_loop os e f mx rt wt w) id"
proof (induction "budget (env w)" arbitrary: w rule: less_induct)
  case less
  obtain rc msg w1 where r: "read_message os e f [] mx rt w = Some (rc, msg, w1)" "budget (env w1) \<le> budget (env w)"
    using read_message_returns [OF fin rb, of w e f "[]" mx rt] by (auto elim: returnsE)
  obtain wr w2 where wr: "write_message os e f msg wt w1 = Some (wr, w2)" "budget (env w2) \<le> budget (env w1)"
    using write_message_returns [OF fin, of w1 e f msg wt] by (auto elim: returnsE)
  have "returns budget w (echo_loop os e f mx rt wt w2) id" if "rc = kOk"
  proof -
    have "budget (env w2) < budget (env w)" using read_message_drains [OF r(1) [unfolded that] fin str] wr(2) by simp
    from less [OF this] this show ?thesis by (auto intro: returns_le)
  qed
  with r wr show ?case by (subst echo_loop.simps) (auto intro!: returns_Some)
qed

lemma echo_loop_then_close:
  assumes "Option.bind (echo_loop os e f mx rt wt w) (safe_close os f) = Some w'" and "recv_bounded os" and "0 \<le> f"
  shows "\<exists>evs. did w (evs @ [EvClose f]) w' \<and> prefix (sent f evs) (received f evs) \<and>
    (\<forall>ev \<in> set evs. \<exists>bs. ev = EvRecv f bs \<or> ev = EvSend f bs)"
proof -
  from assms(1) obtain w1 where w1: "echo_loop os e f mx rt wt w = Some w1" "safe_close os f w1 = Some w'"
    by (auto elim: bind_SomeE)
  from echo_loop_echoed [OF w1(1) assms(2)] safe_close_closes [OF w1(2) assms(3)] show ?thesis
    unfolding echoed_def by (blast intro: did_trans)
qed


text \<open>A peer that sends nothing and closes.\<close>

lemma quiet_os_laws [simp]: "recv_bounded quiet_os" "finite_stream quiet_os budget"
  by (simp_all add: recv_bounded_def finite_stream_def quiet_os_def)


section \<open>The listening socket\<close>

lemma echo_accept_loop_opens:
  "echo_accept_loop os ep poll_ms l threads w = Some r \<Longrightarrow>
     \<exists>cs. fst r = threads @ cs \<and> did w (map EvOpen cs) (snd r)"
proof (induction rule: echo_accept_loop_induct)
  case (step g os ep poll_ms l threads w r)
  obtain st w1 where s: "sys_env (ep_stop ep) w = (st, w1)" by fastforce
  obtain pr w2 where p: "sys_poll os l POLLIN poll_ms w1 = (pr, w2)" by fastforce
  obtain ar w3 where a: "sys_accept ep l w2 = (ar, w3)" by fastforce
  note d1 = did_sys_env [OF s]
  note d2 = did_silent [OF d1 did_poll [OF p]]
  note d3 = did_silent [OF d2 did_accept [OF a]]
  have skip: "\<exists>cs. fst r = threads @ cs \<and> did w (map EvOpen cs) (snd r)"
    if "g os ep poll_ms l threads v = Some r" "did w [] v" for v
    using step.IH [OF that(1)] that(2) by (blast intro: did_silent)
  have "\<exists>cs. fst r = threads @ cs \<and> did w (map EvOpen cs) (snd r)"
    if "g os ep poll_ms l (threads @ [c]) w3 = Some r" "ar = AcceptFd c" for c
  proof -
    from step.IH [OF that(1)] obtain cs where "fst r = (threads @ [c]) @ cs" "did w3 (map EvOpen cs) (snd r)" by blast
    with did_trans [OF d3] that(2) show ?thesis by (intro exI [of _ "c # cs"]) fastforce
  qed
  with step.hyps s p a d1 d2 d3 skip show ?case
    by (auto split: if_splits poll_result.splits accept_result.splits intro!: exI [of _ "[]"])
qed

lemma keeps_did:
  assumes "keeps w fs v" and "did v evs u" and "mset fs + mset (opens evs) = mset (closes evs) + mset gs"
  shows "keeps w gs u"
proof -
  from assms(1) obtain xs where x: "did w xs v" "mset (opens xs) = mset (closes xs) + mset fs" by (auto simp: keeps_def)
  then have "mset (opens (xs @ evs)) = mset (closes (xs @ evs)) + mset gs"
    using assms(3) by (simp add: trace_simps)
  with did_trans [OF x(1) assms(2)] show ?thesis unfolding keeps_def by blast
qed

lemma opens_map_EvOpen: "opens (map EvOpen cs) = cs" "closes (map EvOpen cs) = []"
  by (induction cs) (simp_all add: trace_simps)

text \<open>The tool closes its listening socket; every connection that is open at the end has a thread.\<close>

lemma echo_main_keeps_clients:
  assumes "echo_main os nd ep argv w = Some (code, cs, w')"
  shows "keeps w cs w'"
proof (cases "echo_parse_args argv default_echo_args")
  case None
  with assms show ?thesis by (auto simp: echo_main_def keeps_def trace_simps intro!: exI [of _ "[]"])
next
  case (Some a)
  with assms obtain l w1 where l: "listen_tcp os nd (echo_host a) (of_int (echo_port a)) 128 w = Some (l, w1)"
    and k: "(if l < 0 then Some (1, [], w1) else do { (threads, w2) \<leftarrow> echo_accept_loop os ep 200 l [] w1;
      w3 \<leftarrow> safe_close os l w2; Some (0, threads, w3) }) = Some (code, cs, w')"
    by (auto simp: echo_main_def elim!: bind_SomeE)
  note kl = keeps_listen [OF l]
  show ?thesis
  proof (cases "l < 0")
    case True
    with k kl show ?thesis by simp
  next
    case False
    with k obtain w2 where w2: "echo_accept_loop os ep 200 l [] w1 = Some (cs, w2)" "safe_close os l w2 = Some w'"
      by (auto elim!: bind_SomeE)
    from echo_accept_loop_opens [OF w2(1)] have d: "did w1 (map EvOpen cs) w2" by simp
    have "did w2 [EvClose l] w'" using safe_close_closes [OF w2(2)] False by simp
    from keeps_did [OF kl did_trans [OF d this]] False show ?thesis by (simp add: trace_simps opens_map_EvOpen)
  qed
qed

end
