(* ===== verification/Load_Bench.thy ===== *)
theory Load_Bench
  imports Echo_Backend Backend_Pool Thread_Pool Handler "HOL-Library.Signed_Division"
begin

text \<open>
  \<open>src/bench/load.cpp\<close>: the load generator. Modelled are its options, the two client loops with
  their counters, and the options of the router it starts in its own process. The counters are
  atomic 64-bit words shared by the client threads; one thread is followed here. \<open>Bench_Run\<close> has
  the threads together and the function \<open>main\<close>, \<open>Bench_Report\<close> the results it writes.
\<close>

section \<open>Options\<close>

record bench_args =
  bench_host :: string
  bench_port :: u16
  concurrency :: int
  clients :: int
  reqs_per_client :: int
  requests :: int
  duration_s :: int
  payload_bytes :: int
  router_threads :: int
  router_pool :: int
  client_stack_kb :: int
  spawn_inproc :: bool
  out_path :: string

definition default_bench_args :: bench_args where
  "default_bench_args = \<lparr>bench_host = ''127.0.0.1'', bench_port = 0, concurrency = 8, clients = 0,
     reqs_per_client = 0, requests = 0, duration_s = 0, payload_bytes = 64, router_threads = 16, router_pool = 64,
     client_stack_kb = 128, spawn_inproc = True, out_path = ''bench/bench-result.json''\<rparr>"

datatype bench_parse = BenchParsed bench_args | BenchFailed | BenchHelp

definition bench_option :: "char \<Rightarrow> string \<Rightarrow> bench_args \<Rightarrow> bench_parse" where
  "bench_option opt optarg out =
     (if opt = CHR ''h'' then BenchParsed (out\<lparr>bench_host := optarg\<rparr>)
      else if opt = CHR ''p'' then BenchParsed (out\<lparr>bench_port := of_int (atoi optarg)\<rparr>)
      else if opt = CHR ''c'' then BenchParsed (out\<lparr>concurrency := atoi optarg\<rparr>)
      else if opt = CHR ''C'' then BenchParsed (out\<lparr>clients := atoi optarg\<rparr>)
      else if opt = CHR ''R'' then BenchParsed (out\<lparr>reqs_per_client := atoi optarg\<rparr>)
      else if opt = CHR ''r'' then BenchParsed (out\<lparr>requests := atoi optarg\<rparr>)
      else if opt = CHR ''d'' then BenchParsed (out\<lparr>duration_s := atoi optarg\<rparr>)
      else if opt = CHR ''b'' then BenchParsed (out\<lparr>payload_bytes := atoi optarg\<rparr>)
      else if opt = CHR ''T'' then BenchParsed (out\<lparr>router_threads := atoi optarg\<rparr>)
      else if opt = CHR ''P'' then BenchParsed (out\<lparr>router_pool := atoi optarg\<rparr>)
      else if opt = CHR ''S'' then BenchParsed (out\<lparr>client_stack_kb := atoi optarg\<rparr>)
      else if opt = CHR ''o'' then BenchParsed (out\<lparr>out_path := optarg\<rparr>)
      else if opt = CHR ''N'' then BenchParsed (out\<lparr>spawn_inproc := False\<rparr>)
      else if opt = CHR ''H'' then BenchHelp
      else BenchFailed)"

definition bench_defaults :: "bench_args \<Rightarrow> bench_args" where
  "bench_defaults a =
     (let a1 = (if 0 < clients a \<and> reqs_per_client a \<le> 0 then a\<lparr>reqs_per_client := 50\<rparr> else a) in
      if clients a1 = 0 \<and> requests a1 = 0 \<and> duration_s a1 = 0 then a1\<lparr>duration_s := 5\<rparr> else a1)"

fun bench_parse_args :: "(char \<times> string) list \<Rightarrow> bench_args \<Rightarrow> bench_parse" where
  "bench_parse_args [] a = BenchParsed (bench_defaults a)"
| "bench_parse_args ((opt, optarg) # rest) a =
     (case bench_option opt optarg a of BenchParsed a' \<Rightarrow> bench_parse_args rest a' | r \<Rightarrow> r)"

section \<open>The router in the process\<close>

definition bench_handler_options :: handler_options where
  "bench_handler_options = default_handler_options\<lparr>client_io_timeout_ms := 30000, backend_io_timeout_ms := 30000\<rparr>"

definition bench_pool_options :: "bench_args \<Rightarrow> u16 \<Rightarrow> pool_options" where
  "bench_pool_options a p = default_pool_options\<lparr>host := ''127.0.0.1'', port := p,
     max_size := unat (of_int (router_pool a) :: u64), enable_health_check := False, borrow_timeout := 15000\<rparr>"

definition bench_tp_options :: "bench_args \<Rightarrow> tp_options" where
  "bench_tp_options a = default_tp_options\<lparr>worker_count := unat (of_int (router_threads a) :: u64),
     max_queue_depth := 16384\<rparr>"

definition bench_acceptor_options :: acceptor_options where
  "bench_acceptor_options = default_acceptor_options\<lparr>a_host := ''127.0.0.1'', a_port := 0, a_backlog := 4096\<rparr>"

text \<open>The callback ignores whether the pool took the connection.\<close>

definition bench_on_accept :: "(fd \<Rightarrow> 'e \<Rightarrow> bool \<times> 'e) \<Rightarrow> fd \<Rightarrow> 'e world \<Rightarrow> 'e world option" where
  "bench_on_accept submit f w = Some (snd (sys_env (submit f) w))"

definition bench_backend_start ::
    "'e os \<Rightarrow> ('a, 'e) netdb \<Rightarrow> 'e epoll \<Rightarrow> endian \<Rightarrow> 'e world \<Rightarrow> (bool \<times> fd \<times> u16 \<times> 'e world) option" where
  "bench_backend_start os nd ep e w =
     do {
       (l, w1) \<leftarrow> listen_tcp os nd ''127.0.0.1'' 0 64 w;
       if l < 0 then Some (False, l, 0, w1)
       else Some (True, l, (case ep_getsockname ep l (env w1) of Some (AfInet p) \<Rightarrow> ntohs e p | _ \<Rightarrow> 0), w1)
     }"

definition bench_backend_loop ::
    "'e os \<Rightarrow> 'e epoll \<Rightarrow> fd \<Rightarrow> 'e world \<Rightarrow> (fd list \<times> 'e world) option" where
  "bench_backend_loop os ep l w =
     do { (workers, w1) \<leftarrow> echo_accept_loop os ep 50 l [] w; w2 \<leftarrow> safe_close os l w1; Some (workers, w2) }"

section \<open>The clients\<close>

text \<open>
  The counters \<open>ok\<close>, \<open>err\<close>, \<open>connects\<close> and \<open>connect_failed\<close> are atomic and shared by the threads, the
  latencies are the thread's own. A thread's part is the list of its increments, in the order the code
  makes them; a success comes with its latency in microseconds.
\<close>

datatype count_op = OpConnect | OpConnectFailed | OpErr | OpOk u64

definition client_payload :: "int \<Rightarrow> int \<Rightarrow> bytes" where
  "client_payload cid n = replicate (unat (of_int n :: u64)) (of_int (97 + cid mod 32))"

text \<open>The clock counts nanoseconds.\<close>

definition outcome_op :: "bool \<Rightarrow> int \<Rightarrow> count_op" where
  "outcome_op ok elapsed_ns = (if ok then OpOk (of_int (elapsed_ns div 1000)) else OpErr)"

text \<open>One request of \<open>run_client\<close>. A read that is not attempted leaves \<open>round_ok\<close> false.\<close>

definition client_round ::
    "'e os \<Rightarrow> ('a, 'e) netdb \<Rightarrow> endian \<Rightarrow> string \<Rightarrow> u16 \<Rightarrow> bytes \<Rightarrow> 'e world \<Rightarrow> (count_op list \<times> 'e world) option"
    where
  "client_round os nd e h p payload w =
     (case sys_clock os w of (t0, w0) \<Rightarrow> do {
       (c, w1) \<leftarrow> dial_tcp os nd h p 5000 w0;
       if c < 0 then Some ([OpErr, OpConnectFailed], w1)
       else
         let w2 = w1\<lparr>env := nd_setsockopt nd c (env w1)\<rparr> in do {
           (wr, w3) \<leftarrow> write_message os e c payload 30000 w2;
           (round_ok, w4) \<leftarrow>
             (if wr = kOk then do {
                (rc, got, w4) \<leftarrow> read_message os e c [] (64 * 1024) 30000 w3;
                Some (rc = kOk \<and> got = payload, w4)
              }
              else Some (False, w3));
           w5 \<leftarrow> safe_close os c w4;
           case sys_clock os w5 of (t1, w6) \<Rightarrow>
             Some ([OpConnect, outcome_op round_ok (t1 - t0)], w6)
         }
     })"

fun run_client ::
    "'e os \<Rightarrow> ('a, 'e) netdb \<Rightarrow> endian \<Rightarrow> string \<Rightarrow> u16 \<Rightarrow> bytes \<Rightarrow> nat \<Rightarrow> 'e world \<Rightarrow> (count_op list \<times> 'e world) option"
    where
  "run_client os nd e h p payload 0 w = Some ([], w)"
| "run_client os nd e h p payload (Suc n) w =
     do {
       (ops, w1) \<leftarrow> client_round os nd e h p payload w;
       (ops', w2) \<leftarrow> run_client os nd e h p payload n w1;
       Some (ops @ ops', w2)
     }"

text \<open>One turn of the loop of the legacy mode, after its two tests.\<close>

definition legacy_round ::
    "'e os \<Rightarrow> ('a, 'e) netdb \<Rightarrow> endian \<Rightarrow> string \<Rightarrow> u16 \<Rightarrow> bytes \<Rightarrow> 'e world \<Rightarrow> (count_op list \<times> 'e world) option"
    where
  "legacy_round os nd e h p payload w =
     (case sys_clock os w of (t0, w0) \<Rightarrow> do {
       (c, w1) \<leftarrow> dial_tcp os nd h p 2000 w0;
       if c < 0 then Some ([OpErr, OpConnectFailed], w1)
       else do {
         (wr, w2) \<leftarrow> write_message os e c payload 5000 w1;
         if wr \<noteq> kOk then do {
           w3 \<leftarrow> safe_close os c w2;
           Some ([OpConnect, OpErr], w3)
         }
         else do {
           (rc, got, w3) \<leftarrow> read_message os e c [] (64 * 1024) 5000 w2;
           w4 \<leftarrow> safe_close os c w3;
           case sys_clock os w4 of (t1, w5) \<Rightarrow>
             Some ([OpConnect, outcome_op (rc = kOk \<and> got = payload) (t1 - t0)], w5)
         }
       }
     })"

text \<open>
  \<open>per_thread_requests\<close>: the division of \<open>int\<close>s; a concurrency of 0 would divide by zero.
  \<open>legacy_loop\<close> reads the clock only when there is no number of requests.
\<close>

definition per_thread_requests :: "bench_args \<Rightarrow> int option" where
  "per_thread_requests a =
     (if 0 < requests a then (if concurrency a = 0 then None else Some (requests a sdiv concurrency a)) else Some (- 1))"

partial_function (option) legacy_loop ::
    "'e os \<Rightarrow> ('a, 'e) netdb \<Rightarrow> endian \<Rightarrow> string \<Rightarrow> u16 \<Rightarrow> bytes \<Rightarrow> int \<Rightarrow> int \<Rightarrow> int \<Rightarrow> count_op list \<Rightarrow> 'e world \<Rightarrow>
       (count_op list \<times> 'e world) option"
    where
  "legacy_loop os nd e h p payload per deadline sent_local ops w =
     (if 0 < per \<and> per \<le> sent_local then Some (ops, w)
      else (case (if per < 0 then sys_clock os w else (0, w)) of (now, w1) \<Rightarrow>
        if per < 0 \<and> deadline \<le> now then Some (ops, w1)
        else Option.bind (legacy_round os nd e h p payload w1) (\<lambda>(ops1, w2).
          legacy_loop os nd e h p payload per deadline (sent_local + 1) (ops @ ops1) w2)))"

section \<open>What a round does\<close>

text \<open>The increments of a request, and of a number of requests.\<close>

inductive request_ops :: "count_op list \<Rightarrow> bool" where
  no_connection: "request_ops [OpErr, OpConnectFailed]"
| no_answer: "request_ops [OpConnect, OpErr]"
| answer: "request_ops [OpConnect, OpOk us]"

inductive client_ops :: "nat \<Rightarrow> count_op list \<Rightarrow> bool" where
  no_requests: "client_ops 0 []"
| one_more: "client_ops n xs \<Longrightarrow> request_ops ys \<Longrightarrow> client_ops (Suc n) (xs @ ys)"

lemma outcome_request_ops: "request_ops [OpConnect, outcome_op ok us]"
  by (simp add: outcome_op_def no_answer answer)

lemma client_ops_append: "client_ops m ys \<Longrightarrow> client_ops n xs \<Longrightarrow> client_ops (n + m) (xs @ ys)"
  by (induction rule: client_ops.induct) (auto simp flip: append_assoc intro: one_more)

lemma client_ops_one: "request_ops xs \<Longrightarrow> client_ops 1 xs"
  using one_more [OF no_requests] by simp

lemma keeps_dial:
  assumes "dial_tcp os nd h p t w = Some (c, w')"
  shows "keeps w (if c < 0 then [] else [c]) w'"
proof -
  from dial_tcp_one_fd [OF assms] obtain fs
    where "did w (opened_closed fs @ (if c < 0 then [] else [EvOpen c])) w'" by (auto simp: one_fd_def)
  then show ?thesis unfolding keeps_def
    by (intro exI [of _ "opened_closed fs @ (if c < 0 then [] else [EvOpen c])"]) (simp add: trace_simps)
qed

lemma keeps_transferred:
  assumes "keeps w fs v" and "transferred C v bs u" and "C = EvRecv g \<or> C = EvSend g"
  shows "keeps w fs u"
proof -
  from assms(2) obtain cs where "did v (map C cs) u" by (rule transferredE)
  with assms(3) show ?thesis by (intro keeps_did [OF assms(1)]) (auto simp: trace_simps)
qed

lemma keeps_write:
  assumes "keeps w fs v" and "write_message os e g d t v = Some (st, u)"
  shows "keeps w fs u"
  using write_message_written [OF assms(2)] assms(1)
  by (auto simp: message_written_def split: if_splits intro: keeps_transferred)

lemma keeps_read:
  assumes "keeps w fs v" and "read_message os e g d mx t v = Some (st, o', u)" and "recv_bounded os"
  shows "keeps w fs u"
  using read_message_outcome [OF assms(3,2)] assms(1) by (auto intro: keeps_transferred)

lemma keeps_close:
  assumes "keeps w [c] v" and "safe_close os c v = Some u" and "0 \<le> c"
  shows "keeps w [] u"
  by (rule keeps_did [OF assms(1) safe_close_closes [OF assms(2,3)]]) (simp add: trace_simps)

lemma keeps_env [simp]: "keeps w fs (v\<lparr>env := x\<rparr>) \<longleftrightarrow> keeps w fs v"
  by (simp add: keeps_def)

lemma keeps_start: "did w [] v \<Longrightarrow> keeps v fs u \<Longrightarrow> keeps w fs u"
  unfolding keeps_def using did_silent by blast

lemma keeps_trans: "keeps w [] v \<Longrightarrow> keeps v [] u \<Longrightarrow> keeps w [] u"
  by (auto simp: keeps_def [of v] intro: keeps_did)

lemma client_round_ops:
  assumes "client_round os nd e h p payload w = Some (ops, w')"
  shows "request_ops ops"
  using assms no_connection outcome_request_ops
  by (auto simp: client_round_def Let_def split: prod.splits if_splits elim!: bind_SomeE)

lemma legacy_round_ops:
  assumes "legacy_round os nd e h p payload w = Some (ops, w')"
  shows "request_ops ops"
  using assms no_connection no_answer outcome_request_ops
  by (auto simp: legacy_round_def split: prod.splits if_splits elim!: bind_SomeE)

lemma client_round_keeps:
  assumes "client_round os nd e h p payload w = Some (ops, w')" and "recv_bounded os"
  shows "keeps w [] w'"
proof -
  obtain t0 w0 where c0: "sys_clock os w = (t0, w0)" by fastforce
  from assms(1) c0 obtain c w1 where d: "dial_tcp os nd h p 5000 w0 = Some (c, w1)"
    by (auto simp: client_round_def elim!: bind_SomeE)
  note k1 = keeps_start [OF did_clock [OF c0] keeps_dial [OF d]]
  show ?thesis
  proof (cases "c < 0")
    case True
    with assms(1) c0 d k1 show ?thesis by (auto simp: client_round_def)
  next
    case False
    let ?w2 = "w1\<lparr>env := nd_setsockopt nd c (env w1)\<rparr>"
    from k1 False have k2: "keeps w [c] ?w2" by simp
    from assms(1) c0 d False obtain wr w3 ok w4 w5 t1 where wr: "write_message os e c payload 30000 ?w2 = Some (wr, w3)"
      and rd: "(if wr = kOk then do { (rc, got, w4) \<leftarrow> read_message os e c [] (64 * 1024) 30000 w3;
          Some (rc = kOk \<and> got = payload, w4) } else Some (False, w3)) = Some (ok, w4)"
      and cl: "safe_close os c w4 = Some w5" and t1: "sys_clock os w5 = (t1, w')"
      by (auto simp: client_round_def Let_def split: prod.splits elim!: bind_SomeE)
    from rd keeps_write [OF k2 wr] assms(2) have "keeps w [c] w4"
      by (auto split: if_splits elim!: bind_SomeE intro: keeps_read)
    from keeps_close [OF this cl] False have "keeps w [] w5" by simp
    from keeps_silent [OF this did_clock [OF t1]] show ?thesis .
  qed
qed

lemma legacy_round_keeps:
  assumes "legacy_round os nd e h p payload w = Some (ops, w')" and "recv_bounded os"
  shows "keeps w [] w'"
proof -
  obtain t0 w0 where c0: "sys_clock os w = (t0, w0)" by fastforce
  from assms(1) c0 obtain c w1 where d: "dial_tcp os nd h p 2000 w0 = Some (c, w1)"
    by (auto simp: legacy_round_def elim!: bind_SomeE)
  note k1 = keeps_start [OF did_clock [OF c0] keeps_dial [OF d]]
  show ?thesis
  proof (cases "c < 0")
    case True
    with assms(1) c0 d k1 show ?thesis by (auto simp: legacy_round_def)
  next
    case False
    with k1 have k2: "keeps w [c] w1" by simp
    from assms(1) c0 d False obtain wr w2 where wr: "write_message os e c payload 5000 w1 = Some (wr, w2)"
      by (auto simp: legacy_round_def elim!: bind_SomeE)
    note k3 = keeps_write [OF k2 wr]
    show ?thesis
    proof (cases "wr = kOk")
      case bad: False
      with assms(1) c0 d False wr have "safe_close os c w2 = Some w'"
        by (auto simp: legacy_round_def elim!: bind_SomeE)
      with keeps_close [OF k3] False show ?thesis by simp
    next
      case True
      with assms(1) c0 d False wr obtain rc got w3 w4 t1 where
        rd: "read_message os e c [] (64 * 1024) 5000 w2 = Some (rc, got, w3)"
        and cl: "safe_close os c w3 = Some w4" and t1: "sys_clock os w4 = (t1, w')"
        by (auto simp: legacy_round_def split: prod.splits elim!: bind_SomeE)
      from keeps_close [OF keeps_read [OF k3 rd assms(2)] cl] False have "keeps w [] w4" by simp
      from keeps_silent [OF this did_clock [OF t1]] show ?thesis .
    qed
  qed
qed

lemma run_client_ops:
  "run_client os nd e h p payload n w = Some (ops, w') \<Longrightarrow> client_ops n ops"
proof (induction n arbitrary: w ops)
  case (Suc n)
  then obtain ops1 w1 ops2 where "client_round os nd e h p payload w = Some (ops1, w1)"
    "run_client os nd e h p payload n w1 = Some (ops2, w')" "ops = ops1 @ ops2"
    by (auto elim!: bind_SomeE)
  with client_ops_append [OF Suc.IH client_ops_one [OF client_round_ops]] show ?case by fastforce
qed (simp add: no_requests)

lemma run_client_keeps:
  "run_client os nd e h p payload n w = Some (ops, w') \<Longrightarrow> recv_bounded os \<Longrightarrow> keeps w [] w'"
proof (induction n arbitrary: w ops)
  case 0
  then show ?case by (auto simp: keeps_def trace_simps intro!: exI [of _ "[]"])
next
  case (Suc n)
  then show ?case by (auto elim!: bind_SomeE intro: keeps_trans dest!: client_round_keeps)
qed

lemmas legacy_loop_induct = legacy_loop.raw_induct [rotated, consumes 1, case_names step]

lemma legacy_loop_ops:
  "legacy_loop os nd e h p payload per dl k ops w = Some r \<Longrightarrow> client_ops (nat k) ops \<Longrightarrow> 0 \<le> k \<Longrightarrow> (0 < per \<longrightarrow> k \<le> per) \<Longrightarrow>
     \<exists>n. client_ops n (fst r) \<and> (0 < per \<longrightarrow> n = nat per)"
proof (induction rule: legacy_loop_induct)
  case (step g os nd e h p payload per dl k ops w r)
  obtain now w1 where c: "(if per < 0 then sys_clock os w else (0, w)) = (now, w1)" by fastforce
  show ?case
  proof (cases "0 < per \<and> per \<le> k \<or> per < 0 \<and> dl \<le> now")
    case True
    with step.hyps step.prems c show ?thesis by (auto split: if_splits intro!: exI [of _ "nat k"])
  next
    case False
    with step.hyps c obtain ops1 w2 where l: "legacy_round os nd e h p payload w1 = Some (ops1, w2)"
      "g os nd e h p payload per dl (k + 1) (ops @ ops1) w2 = Some r"
      by (auto split: if_splits elim!: bind_SomeE)
    have "client_ops (nat (k + 1)) (ops @ ops1)"
      using one_more [OF step.prems(1) legacy_round_ops [OF l(1)]] step.prems(2) by (simp add: nat_add_distrib)
    from step.IH [OF l(2) this] step.prems(2,3) False show ?thesis by auto
  qed
qed

text \<open>The two exits of the legacy loop are not for zero requests.\<close>

lemma legacy_loop_zero: "legacy_loop os nd e h p payload per dl k ops w = Some r \<Longrightarrow> per \<noteq> 0"
proof (induction rule: legacy_loop_induct)
  case (step g os nd e h p payload per dl k ops w r)
  show ?case
  proof
    assume "per = 0"
    with step.hyps obtain ops1 w2 where "g os nd e h p payload per dl (k + 1) (ops @ ops1) w2 = Some r"
      by (auto elim!: bind_SomeE)
    from step.IH [OF this] \<open>per = 0\<close> show False by simp
  qed
qed

section \<open>A request that is echoed\<close>

lemma echo_round_trip:
  "\<exists>w'. do { (wr, w3) \<leftarrow> write_message echo_os Little 9 [1, 2] t (emit evs (start (\<lambda>_. [])));
     (rc, got, w4) \<leftarrow> read_message echo_os Little 9 [] 65536 t w3; Some (wr, rc, got, w4) } =
     Some (kOk, kOk, [1, 2], w')"
  apply (simp add: echo_write_message)
  apply (subst echo_read_message [where p = "[1, 2]" and r = "[]"])
    apply (simp add: world_simps)
   apply (simp add: frame_fits_def numeral_2_eq_2)
  apply simp
  done

lemma demo_client_runs:
  "\<exists>us w'. run_client echo_os echo_nd Little ''h'' 1 [1, 2] 1 (start (\<lambda>_. [])) = Some ([OpConnect, OpOk us], w')"
proof -
  have e: "(emit evs (start (\<lambda>_. [])))\<lparr>env := nd_setsockopt echo_nd 9 (env (emit evs (start (\<lambda>_. []))))\<rparr> =
      emit evs (start (\<lambda>_. []))" for evs
    by (simp add: echo_nd_def emit_def)
  show ?thesis using echo_round_trip [of 30000 "[EvOpen 9]"]
    by (auto simp: client_round_def e outcome_op_def elim!: bind_SomeE)
qed

end
