(* ===== verification/Doubles.thy ===== *)
theory Doubles
  imports Complex_Main Text_Format "HOL-Library.Log_Nat"
begin

text \<open>
  The \<open>double\<close> arithmetic of \<open>src/bench/load.cpp\<close> and the \<open>float\<close> arithmetic of
  \<open>src/bench/regress.py\<close>: IEEE 754 binary64, rounding to nearest with ties to even, on exact
  rationals. Exponents are not bounded: the quantities the two programs compute with are
  zero or far from the ends of the range of binary64.
\<close>

section \<open>Rounding\<close>

text \<open>To the nearest integer, a tie to the even one.\<close>

definition round_even :: "rat \<Rightarrow> int" where
  "round_even x =
     (let n = \<lfloor>x\<rfloor>; d = x - of_int n in
      if d < 1 / 2 then n else if d > 1 / 2 then n + 1 else if even n then n else n + 1)"

text \<open>The exponent \<open>k\<close> with \<open>2^k \<le> x < 2^(k+1)\<close>, for a positive \<open>x\<close>.\<close>

definition binade :: "rat \<Rightarrow> int" where
  "binade x =
     (case quotient_of x of (a, b) \<Rightarrow>
        let k = bitlen a - bitlen b in if 2 powi k \<le> x then k else k - 1)"

definition round_pos :: "rat \<Rightarrow> rat" where
  "round_pos x = (let u = 2 powi (binade x - 52) in of_int (round_even (x / u)) * u)"

definition fl :: "rat \<Rightarrow> rat" where
  "fl x = (if x = 0 then 0 else if 0 < x then round_pos x else - round_pos (- x))"

lemma round_even_bounds: "\<bar>of_int (round_even x) - x\<bar> \<le> 1 / 2"
proof -
  have "of_int \<lfloor>x\<rfloor> \<le> x" "x < of_int \<lfloor>x\<rfloor> + 1" by linarith+
  then show ?thesis unfolding round_even_def Let_def by (simp split: if_splits)
qed

lemma round_even_of_int [simp]: "round_even (of_int n) = n"
  by (simp add: round_even_def)

lemma round_even_mono:
  assumes "x \<le> y"
  shows "round_even x \<le> round_even y"
proof (cases "\<lfloor>x\<rfloor> = \<lfloor>y\<rfloor>")
  case True
  with assms show ?thesis by (auto simp: round_even_def Let_def)
next
  case False
  with assms floor_mono [OF assms] have "\<lfloor>x\<rfloor> + 1 \<le> \<lfloor>y\<rfloor>" by linarith
  moreover have "round_even x \<le> \<lfloor>x\<rfloor> + 1" "\<lfloor>y\<rfloor> \<le> round_even y" by (simp_all add: round_even_def Let_def)
  ultimately show ?thesis by linarith
qed

lemma quotient_of_pos:
  assumes "0 < x" and "quotient_of x = (a, b)"
  shows "0 < a \<and> 0 < b \<and> x = of_int a / of_int b"
proof -
  have "x = of_int a / of_int b" "0 < b" using quotient_of_div [OF assms(2)] quotient_of_denom_pos [OF assms(2)] .
  with assms(1) show ?thesis by (simp add: zero_less_divide_iff)
qed

lemma bitlen_powi: 
  assumes "0 < a"
  shows "2 powi (bitlen a - 1) \<le> (of_int a :: rat) \<and> (of_int a :: rat) < 2 powi bitlen a"
proof -
  from bitlen_bounds [OF assms] have b: "2 ^ nat (bitlen a - 1) \<le> a" "a < 2 ^ nat (bitlen a)" by auto
  have "1 \<le> bitlen a" using assms by (simp add: bitlen_ge_iff_power)
  then have "2 powi (bitlen a - 1) = (of_int (2 ^ nat (bitlen a - 1)) :: rat)"
    "2 powi bitlen a = (of_int (2 ^ nat (bitlen a)) :: rat)"
    by (simp_all add: power_int_def)
  with b show ?thesis by (metis of_int_le_iff of_int_less_iff)
qed

lemma binade_bounds:
  assumes "0 < x"
  shows "2 powi binade x \<le> x \<and> x < 2 powi (binade x + 1)"
proof -
  obtain a b where q: "quotient_of x = (a, b)" by fastforce
  from quotient_of_pos [OF assms q] have p: "0 < a" "0 < b" "x = of_int a / of_int b" by auto
  let ?k = "bitlen a - bitlen b"
  have "2 powi (?k - 1) = 2 powi (bitlen a - 1) / (2 powi bitlen b :: rat)" 
    by (simp add: power_int_diff)
  moreover have "2 powi (?k + 1) = 2 powi bitlen a / (2 powi (bitlen b - 1) :: rat)" 
    by (simp add: power_int_diff power_int_add)
  moreover note bitlen_powi [OF p(1)] bitlen_powi [OF p(2)]
  ultimately have "2 powi (?k - 1) \<le> x" "x < 2 powi (?k + 1)"
    using p by (auto simp: intro!: frac_le frac_less)
  with q show ?thesis by (auto simp: binade_def Let_def)
qed

lemma powi_2_less_iff [simp]: "2 powi m < (2 powi n :: rat) \<longleftrightarrow> m < n"
  by (metis linorder_not_less one_less_numeral_iff order_less_imp_le power_int_increasing
      power_int_strict_increasing semiring_norm(76) one_le_numeral)

lemma powi_2_le_iff [simp]: "2 powi m \<le> (2 powi n :: rat) \<longleftrightarrow> m \<le> n"
  using powi_2_less_iff [of n m] by (simp add: linorder_not_less [symmetric] del: powi_2_less_iff)

lemma binade_eqI:
  assumes "2 powi k \<le> x" and "x < 2 powi (k + 1)"
  shows "binade x = k"
proof -
  have "(0 :: rat) < 2 powi k" by simp
  then have "0 < x" using assms(1) by linarith
  note b = binade_bounds [OF this]
  from b assms have "2 powi k < (2 powi (binade x + 1) :: rat)" "2 powi binade x < (2 powi (k + 1) :: rat)" by linarith+
  then show ?thesis by simp
qed

lemma binade_mono:
  assumes "0 < x" and "x \<le> y"
  shows "binade x \<le> binade y"
proof -
  from assms have "2 powi binade x < (2 powi (binade y + 1) :: rat)"
    using binade_bounds [of x] binade_bounds [of y] by linarith
  then show ?thesis by simp
qed

text \<open>The rounded value stays within the binade, its upper end included.\<close>

lemma powi_2_split: "2 powi (k + int n) = (2 ^ n * 2 powi k :: rat)"
  by (simp add: power_int_add)

lemma round_pos_bounds:
  assumes "0 < x"
  shows "2 powi binade x \<le> round_pos x \<and> round_pos x \<le> 2 powi (binade x + 1)"
proof -
  define u :: rat where "u = 2 powi (binade x - 52)"
  have u: "0 < u" by (simp add: u_def)
  have p: "2 powi binade x = 2 ^ 52 * u" "2 powi (binade x + 1) = 2 ^ 53 * u"
    using powi_2_split [of "binade x - 52" 52] powi_2_split [of "binade x - 52" 53] by (simp_all add: u_def add.commute)
  with binade_bounds [OF assms] u have "2 ^ 52 \<le> x / u" "x / u \<le> 2 ^ 53" by (simp_all add: field_simps)
  then have "round_even (of_int (2 ^ 52)) \<le> round_even (x / u)" "round_even (x / u) \<le> round_even (of_int (2 ^ 53))"
    by (intro round_even_mono; simp)+
  then have "of_int (2 ^ 52) \<le> (of_int (round_even (x / u)) :: rat)"
    "of_int (round_even (x / u)) \<le> (of_int (2 ^ 53) :: rat)"
    unfolding round_even_of_int of_int_le_iff .
  with u show ?thesis by (simp add: round_pos_def u_def [symmetric] p)
qed

lemma round_pos_mono:
  assumes "0 < x" and "x \<le> y"
  shows "round_pos x \<le> round_pos y"
proof (cases "binade x = binade y")
  case True
  have u: "(0 :: rat) < 2 powi (binade y - 52)" by simp
  with assms(2) have "round_even (x / 2 powi (binade y - 52)) \<le> round_even (y / 2 powi (binade y - 52))"
    by (intro round_even_mono divide_right_mono) simp_all
  with True u show ?thesis by (simp add: round_pos_def Let_def)
next
  case False
  with binade_mono [OF assms] have "2 powi (binade x + 1) \<le> (2 powi binade y :: rat)" by simp
  with round_pos_bounds [of x] round_pos_bounds [of y] assms show ?thesis by linarith
qed

lemma round_pos_pos: "0 < x \<Longrightarrow> 0 < round_pos x"
  using round_pos_bounds [of x] zero_less_power_int [of "2 :: rat" "binade x"] by linarith

lemma fl_mono: "x \<le> y \<Longrightarrow> fl x \<le> fl y"
  using round_pos_mono [of x y] round_pos_mono [of "- y" "- x"] round_pos_pos [of y] round_pos_pos [of "- x"]
  by (auto simp: fl_def)

lemma fl_0 [simp]: "fl 0 = 0"
  by (simp add: fl_def)

lemma fl_minus: "fl (- x) = - fl x"
  by (simp add: fl_def)

text \<open>Numbers with at most 53 significant bits are exact, in particular integers up to \<open>2^53\<close>.\<close>

lemma round_pos_exact:
  assumes "0 < m" and "m < 2 ^ 53"
  shows "round_pos (of_int m * 2 powi e) = of_int m * 2 powi e"
proof -
  let ?x = "of_int m * 2 powi e :: rat"
  have m: "(0 :: rat) < of_int m" using assms(1) by simp
  have x: "0 < ?x" using m by simp
  have "(of_int m :: rat) < of_int (2 ^ 53)" using assms(2) of_int_less_iff by blast
  then have "(of_int m :: rat) < 2 powi 53" by simp
  then have "?x < 2 powi 53 * 2 powi e" by simp
  then have "?x < 2 powi (53 + e)" by (simp add: power_int_add)
  moreover have "2 powi binade ?x \<le> ?x" using binade_bounds [OF x] by simp
  ultimately have "2 powi binade ?x < (2 powi (53 + e) :: rat)" by linarith
  then have "binade ?x \<le> 52 + e" by simp
  then obtain n where n: "e = binade ?x - 52 + int n" by (metis zle_iff_zadd add.commute diff_le_eq)
  have "?x = of_int (m * 2 ^ n) * 2 powi (binade ?x - 52)"
    using powi_2_split [of "binade ?x - 52" n] n by simp
  then have "?x / 2 powi (binade ?x - 52) = of_int (m * 2 ^ n)"
    by (metis nonzero_mult_div_cancel_right power_int_not_zero zero_neq_numeral)
  with \<open>?x = of_int (m * 2 ^ n) * _\<close> show ?thesis by (metis round_pos_def round_even_of_int)
qed

lemma fl_exact:
  assumes "\<bar>m\<bar> < 2 ^ 53"
  shows "fl (of_int m * 2 powi e) = of_int m * 2 powi e"
proof (cases m "0 :: int" rule: linorder_cases)
  case less
  then have "of_int m * 2 powi e < (0 :: rat)" by (simp add: mult_neg_pos)
  with less assms round_pos_exact [of "- m" e] show ?thesis by (simp add: fl_def)
next
  case greater
  with assms round_pos_exact [of m e] show ?thesis by (simp add: fl_def)
qed simp

lemma fl_of_int: "\<bar>m\<bar> < 2 ^ 53 \<Longrightarrow> fl (of_int m) = of_int m"
  using fl_exact [of m 0] by simp

lemma fl_of_nat: "n < 2 ^ 53 \<Longrightarrow> fl (of_nat n) = of_nat n"
  using fl_of_int [of "int n"] by simp

text \<open>The relative error.\<close>

lemma round_pos_error:
  assumes "0 < x"
  shows "\<bar>round_pos x - x\<bar> \<le> x / 2 ^ 53"
proof -
  define u :: rat where "u = 2 powi (binade x - 52)"
  have u: "0 < u" by (simp add: u_def)
  have "2 ^ 52 * u \<le> x" using binade_bounds [OF assms] powi_2_split [of "binade x - 52" 52] by (simp add: u_def)
  have "round_pos x - x = (of_int (round_even (x / u)) - x / u) * u"
    using u by (simp add: round_pos_def u_def [symmetric] algebra_simps)
  then have "\<bar>round_pos x - x\<bar> \<le> 1 / 2 * u"
    using round_even_bounds [of "x / u"] u by (simp add: abs_mult)
  also have "\<dots> \<le> x / 2 ^ 53" using \<open>2 ^ 52 * u \<le> x\<close> by simp
  finally show ?thesis .
qed

lemma fl_error: "\<bar>fl x - x\<bar> \<le> \<bar>x\<bar> / 2 ^ 53"
proof (cases x "0 :: rat" rule: linorder_cases)
  case less
  have "\<bar>fl x - x\<bar> = \<bar>round_pos (- x) - (- x)\<bar>" using less by (simp add: fl_def abs_minus_commute)
  with less round_pos_error [of "- x"] show ?thesis by simp
next
  case greater
  with round_pos_error [of x] show ?thesis by (simp add: fl_def)
qed simp

lemma fl_nonneg: "0 \<le> x \<Longrightarrow> 0 \<le> fl x"
  using fl_mono [of 0 x] by simp

lemma fl_pos: "0 < x \<Longrightarrow> 0 < fl x"
  by (simp add: fl_def round_pos_pos)

end
