(* ===== verification/Decimals.thy ===== *)
theory Decimals
  imports Doubles
begin

text \<open>
  Decimal text of \<open>double\<close>s as the benchmark writes it and as Python's \<open>json\<close> module reads it:
  \<open>%.1f\<close> of \<open>printf\<close>, the default format of \<open>std::ostream\<close> (\<open>%g\<close> with six significant digits), and
  JSON numbers. Output is for numbers that are not negative; the benchmark writes no others.
\<close>

section \<open>Output\<close>

text \<open>The exponent \<open>k\<close> with \<open>10^k \<le> x < 10^(k+1)\<close>, for a positive \<open>x\<close>.\<close>

definition decade :: "rat \<Rightarrow> int" where
  "decade x =
     (case quotient_of x of (a, b) \<Rightarrow>
        let k = int (length (show_nat (nat a))) - int (length (show_nat (nat b)))
        in if 10 powi k \<le> x then k else k - 1)"

text \<open>Six significant digits: \<open>x\<close> is about \<open>m * 10^(k-5)\<close>.\<close>

definition six_digits :: "rat \<Rightarrow> nat \<times> int" where
  "six_digits x =
     (let k = decade x; m = nat (round_even (x / 10 powi (k - 5)))
      in if m = 1000000 then (100000, k + 1) else (m, k))"

definition strip_zeros :: "string \<Rightarrow> string" where
  "strip_zeros ds = rev (dropWhile (\<lambda>c. c = CHR ''0'') (rev ds))"

definition point :: "string \<Rightarrow> string \<Rightarrow> string" where
  "point ip fp = (if strip_zeros fp = [] then ip else ip @ ''.'' @ strip_zeros fp)"

definition show_exponent :: "int \<Rightarrow> string" where
  "show_exponent k = (if k < 0 then ''-'' else ''+'') @ (if \<bar>k\<bar> < 10 then ''0'' else []) @ show_nat (nat \<bar>k\<bar>)"

definition show_g :: "rat \<Rightarrow> string" where
  "show_g x =
     (if x = 0 then ''0''
      else case six_digits x of (m, k) \<Rightarrow>
        let ds = show_nat m in
        if 0 \<le> k \<and> k < 6 then point (take (nat k + 1) ds) (drop (nat k + 1) ds)
        else if - 4 \<le> k \<and> k < 0 then point ''0'' (replicate (nat (- k) - 1) (CHR ''0'') @ ds)
        else point (take 1 ds) (drop 1 ds) @ ''e'' @ show_exponent k)"

definition show_fixed1 :: "rat \<Rightarrow> string" where
  "show_fixed1 x = (let n = nat (round_even (x * 10)) in show_nat (n div 10) @ ''.'' @ show_nat (n mod 10))"

section \<open>Input\<close>

text \<open>
  A JSON number: an optional minus, digits without superfluous zeros, optionally a point and
  digits, optionally an exponent. It is an \<open>int\<close> without the last two and a \<open>float\<close> otherwise.
\<close>

datatype json_number = JInt int | JFloat rat

fun split_digits :: "string \<Rightarrow> string \<times> string" where
  "split_digits s = (takeWhile is_digit s, dropWhile is_digit s)"

definition split_int :: "string \<Rightarrow> string \<times> string" where
  "split_int s = (case s of c # cs \<Rightarrow> if c = CHR ''0'' then ([c], cs) else split_digits s | [] \<Rightarrow> ([], []))"

definition split_fraction :: "string \<Rightarrow> string \<times> string" where
  "split_fraction s =
     (case s of
        c # cs \<Rightarrow> (case split_digits cs of (ds, rest) \<Rightarrow> if c = CHR ''.'' \<and> ds \<noteq> [] then (ds, rest) else ([], s))
      | [] \<Rightarrow> ([], s))"

definition split_sign :: "string \<Rightarrow> bool \<times> string" where
  "split_sign s =
     (case s of c # cs \<Rightarrow> if c = CHR ''-'' then (True, cs) else if c = CHR ''+'' then (False, cs) else (False, s)
      | [] \<Rightarrow> (False, s))"

definition split_exponent :: "string \<Rightarrow> int option \<times> string" where
  "split_exponent s =
     (case s of
        c # cs \<Rightarrow>
          (case split_sign cs of (neg, r) \<Rightarrow> case split_digits r of (ds, rest) \<Rightarrow>
             if (c = CHR ''e'' \<or> c = CHR ''E'') \<and> ds \<noteq> []
             then (Some ((if neg then - 1 else 1) * int (digits_value 0 ds)), rest) else (None, s))
      | [] \<Rightarrow> (None, s))"

definition decimal :: "string \<Rightarrow> string \<Rightarrow> int \<Rightarrow> rat" where
  "decimal ip fp e = of_nat (digits_value 0 (ip @ fp)) * 10 powi (e - int (length fp))"

definition json_number :: "string \<Rightarrow> (json_number \<times> string) option" where
  "json_number s =
     (let (neg, s1) = (case s of c # cs \<Rightarrow> if c = CHR ''-'' then (True, cs) else (False, s) | [] \<Rightarrow> (False, s));
          (ip, s2) = split_int s1; (fp, s3) = split_fraction s2; (ex, s4) = split_exponent s3
      in if ip = [] then None
         else if fp = [] \<and> ex = None then Some (JInt ((if neg then - 1 else 1) * int (digits_value 0 ip)), s4)
         else Some (JFloat ((if neg then - 1 else 1) * fl (decimal ip fp (case ex of None \<Rightarrow> 0 | Some e \<Rightarrow> e))), s4))"

text \<open>Python's \<open>float\<close> of it.\<close>

fun py_float :: "json_number \<Rightarrow> rat" where
  "py_float (JInt n) = fl (of_int n)"
| "py_float (JFloat x) = x"

section \<open>Digits\<close>

lemma show_nat_bounds:
  assumes "0 < n"
  shows "10 ^ (length (show_nat n) - 1) \<le> n \<and> n < 10 ^ length (show_nat n)"
  using assms
proof (induction n rule: show_nat.induct)
  case (1 n)
  show ?case
  proof (cases "n < 10")
    case True
    with 1(2) show ?thesis by (simp add: show_nat.simps [of n])
  next
    case False
    then have "0 < n div 10" by simp
    with 1(1) [OF False] have IH: "10 ^ (length (show_nat (n div 10)) - 1) \<le> n div 10" "n div 10 < 10 ^ length (show_nat (n div 10))"
      by auto
    obtain l where l: "length (show_nat (n div 10)) = Suc l" by (cases "show_nat (n div 10)") auto
    from IH l have "10 ^ Suc l \<le> n" "n < 10 ^ Suc (Suc l)" by (auto simp: less_eq_div_iff_mult_less_eq)
    with False l show ?thesis by (simp add: show_nat.simps [of n])
  qed
qed

lemma show_nat_powi:
  assumes "0 < a"
  shows "10 powi (int (length (show_nat (nat a))) - 1) \<le> (of_int a :: rat) \<and>
    (of_int a :: rat) < 10 powi int (length (show_nat (nat a)))"
proof -
  let ?l = "length (show_nat (nat a))"
  from show_nat_bounds [of "nat a"] assms have b: "10 ^ (?l - 1) \<le> nat a" "nat a < 10 ^ ?l" by auto
  have "1 \<le> ?l" by (simp add: Suc_leI)
  then have "10 powi (int ?l - 1) = (of_nat (10 ^ (?l - 1)) :: rat)"
    by (simp add: power_int_def nat_diff_distrib del: length_greater_0_conv)
  moreover have "10 powi int ?l = (of_nat (10 ^ ?l) :: rat)" by simp
  moreover have "(of_int a :: rat) = of_nat (nat a)" using assms by simp
  ultimately show ?thesis using b by (metis of_nat_le_iff of_nat_less_iff)
qed

lemma decade_bounds:
  assumes "0 < x"
  shows "10 powi decade x \<le> x \<and> x < 10 powi (decade x + 1)"
proof -
  obtain a b where q: "quotient_of x = (a, b)" by fastforce
  from quotient_of_pos [OF assms q] have p: "0 < a" "0 < b" "x = of_int a / of_int b" by auto
  let ?la = "int (length (show_nat (nat a)))" and ?lb = "int (length (show_nat (nat b)))"
  have "10 powi (?la - ?lb - 1) = 10 powi (?la - 1) / (10 powi ?lb :: rat)"
    by (simp add: power_int_diff)
  moreover have "10 powi (?la - ?lb + 1) = 10 powi ?la / (10 powi (?lb - 1) :: rat)"
    by (simp add: power_int_diff power_int_add)
  moreover note show_nat_powi [OF p(1)] show_nat_powi [OF p(2)]
  ultimately have "10 powi (?la - ?lb - 1) \<le> x" "x < 10 powi (?la - ?lb + 1)"
    using p by (auto intro!: frac_le frac_less)
  with q show ?thesis by (auto simp: decade_def Let_def)
qed

text \<open>What six digits say of a number.\<close>

definition six_value :: "rat \<Rightarrow> rat" where
  "six_value x = (case six_digits x of (m, k) \<Rightarrow> of_nat m * 10 powi (k - 5))"

lemma powi_10_split: "10 powi (k + int n) = (10 ^ n * 10 powi k :: rat)"
  by (simp add: power_int_add)

lemma six_digits_mantissa:
  assumes "0 < x"
  shows "100000 \<le> round_even (x / 10 powi (decade x - 5)) \<and> round_even (x / 10 powi (decade x - 5)) \<le> 1000000"
proof -
  define u :: rat where "u = 10 powi (decade x - 5)"
  have u: "0 < u" by (simp add: u_def)
  have "10 powi decade x = 100000 * u" "10 powi (decade x + 1) = 1000000 * u"
    using powi_10_split [of "decade x - 5" 5] powi_10_split [of "decade x - 5" 6] by (simp_all add: u_def add.commute)
  with decade_bounds [OF assms] u have "of_int 100000 \<le> x / u" "x / u \<le> of_int 1000000" by (simp_all add: field_simps)
  from round_even_mono [OF this(1)] round_even_mono [OF this(2)]
  show ?thesis unfolding round_even_of_int u_def by simp
qed

lemma six_digits_bounds:
  assumes "0 < x" and "six_digits x = (m, k)"
  shows "100000 \<le> m \<and> m < 1000000"
  using six_digits_mantissa [OF assms(1)] assms(2) by (auto simp: six_digits_def Let_def split: if_splits)

lemma six_value_eq:
  assumes "0 < x"
  shows "six_value x = of_int (round_even (x / 10 powi (decade x - 5))) * 10 powi (decade x - 5)"
proof -
  have "10 powi (decade x + 1 - 5) = (10 * 10 powi (decade x - 5) :: rat)"
    using powi_10_split [of "decade x - 5" 1] by (simp add: algebra_simps)
  then show ?thesis using six_digits_mantissa [OF assms] by (auto simp: six_value_def six_digits_def Let_def)
qed

lemma decade_unit:
  assumes "0 < x"
  shows "100000 * 10 powi (decade x - 5) \<le> x \<and> x < 1000000 * 10 powi (decade x - 5)"
  using decade_bounds [OF assms] powi_10_split [of "decade x - 5" 5] powi_10_split [of "decade x - 5" 6]
  by (simp add: add.commute)

lemma six_value_error:
  assumes "0 < x"
  shows "\<bar>six_value x - x\<bar> \<le> x / 200000"
proof -
  define u :: rat where "u = 10 powi (decade x - 5)"
  have u: "0 < u" by (simp add: u_def)
  have "100000 * u \<le> x" using decade_unit [OF assms] by (simp add: u_def)
  have "six_value x - x = (of_int (round_even (x / u)) - x / u) * u"
    using u by (simp add: six_value_eq [OF assms] u_def [symmetric] algebra_simps)
  then have "\<bar>six_value x - x\<bar> \<le> 1 / 2 * u"
    using round_even_bounds [of "x / u"] u by (simp add: abs_mult)
  also have "\<dots> \<le> x / 200000" using \<open>100000 * u \<le> x\<close> by simp
  finally show ?thesis .
qed

lemma six_value_range:
  assumes "0 < x"
  shows "10 powi decade x \<le> six_value x \<and> six_value x \<le> 10 powi (decade x + 1)"
proof -
  define u :: rat where "u = 10 powi (decade x - 5)"
  have p: "10 powi decade x = 100000 * u" "10 powi (decade x + 1) = 1000000 * u"
    using powi_10_split [of "decade x - 5" 5] powi_10_split [of "decade x - 5" 6] by (simp_all add: u_def add.commute)
  have "of_int 100000 \<le> (of_int (round_even (x / u)) :: rat)" "of_int (round_even (x / u)) \<le> (of_int 1000000 :: rat)"
    using six_digits_mantissa [OF assms] unfolding of_int_le_iff u_def by simp_all
  moreover have "0 < u" by (simp add: u_def)
  ultimately show ?thesis unfolding p six_value_eq [OF assms] u_def [symmetric] by simp
qed

lemma powi_10_mono: "m \<le> n \<Longrightarrow> 10 powi m \<le> (10 powi n :: rat)"
  by (rule power_int_increasing) simp_all

lemma decade_mono:
  assumes "0 < x" and "x \<le> y"
  shows "decade x \<le> decade y"
proof (rule ccontr)
  assume "\<not> decade x \<le> decade y"
  then have "10 powi (decade y + 1) \<le> (10 powi decade x :: rat)" by (intro powi_10_mono) simp
  with decade_bounds [of x] decade_bounds [of y] assms show False by linarith
qed

lemma six_value_0: "six_value 0 = 0"
  by (simp add: six_value_def six_digits_def Let_def round_even_def)

lemma six_value_mono:
  assumes "0 \<le> x" and "x \<le> y"
  shows "six_value x \<le> six_value y"
proof (cases "x = 0")
  case True
  have "0 \<le> six_value y" if "0 < y"
    using six_value_range [OF that] zero_less_power_int [of "10 :: rat" "decade y"] by linarith
  with True assms show ?thesis by (cases "y = 0") (auto simp: six_value_0)
next
  case False
  with assms have x: "0 < x" "0 < y" by simp_all
  show ?thesis
  proof (cases "decade x = decade y")
    case True
    have "round_even (x / 10 powi (decade y - 5)) \<le> round_even (y / 10 powi (decade y - 5))"
      using assms(2) by (intro round_even_mono divide_right_mono) simp_all
    then show ?thesis by (simp add: six_value_eq x True)
  next
    case False
    with decade_mono [OF x(1) assms(2)] have "10 powi (decade x + 1) \<le> (10 powi decade y :: rat)"
      by (intro powi_10_mono) simp
    with six_value_range [OF x(1)] six_value_range [OF x(2)] show ?thesis by linarith
  qed
qed

section \<open>Reading what was written\<close>

text \<open>What may follow a number in a JSON text without being taken for a part of it.\<close>

definition ends_number :: "string \<Rightarrow> bool" where
  "ends_number rest \<longleftrightarrow> (case rest of [] \<Rightarrow> True | c # cs \<Rightarrow> \<not> is_digit c \<and> c \<notin> {CHR ''.'', CHR ''e'', CHR ''E''})"

definition int_part :: "string \<Rightarrow> bool" where
  "int_part ip \<longleftrightarrow> list_all is_digit ip \<and> ip \<noteq> [] \<and> (hd ip = CHR ''0'' \<longrightarrow> ip = ''0'')"

lemma split_digits_append:
  assumes "list_all is_digit ds" and "rest = [] \<or> \<not> is_digit (hd rest)"
  shows "split_digits (ds @ rest) = (ds, rest)"
proof -
  have "takeWhile is_digit rest = []" "dropWhile is_digit rest = rest" using assms(2) by (cases rest; simp)+
  then show ?thesis using assms(1) by (simp add: list_all_iff takeWhile_append2 dropWhile_append2)
qed

lemma split_int_append:
  assumes "int_part ip" and "rest = [] \<or> \<not> is_digit (hd rest)"
  shows "split_int (ip @ rest) = (ip, rest)"
  using assms split_digits_append [of ip rest]
  by (cases ip) (auto simp: split_int_def int_part_def simp del: split_digits.simps)

lemma split_fraction_append:
  assumes "list_all is_digit fp" and "fp \<noteq> []" and "rest = [] \<or> \<not> is_digit (hd rest)"
  shows "split_fraction (''.'' @ fp @ rest) = (fp, rest)"
  using assms split_digits_append [of fp rest] by (simp add: split_fraction_def del: split_digits.simps)

lemma split_fraction_none: "rest = [] \<or> hd rest \<noteq> CHR ''.'' \<Longrightarrow> split_fraction rest = ([], rest)"
  by (cases rest) (auto simp: split_fraction_def)

lemma split_exponent_none: "rest = [] \<or> hd rest \<notin> {CHR ''e'', CHR ''E''} \<Longrightarrow> split_exponent rest = (None, rest)"
  by (cases rest) (auto simp: split_exponent_def split: prod.splits)

lemma split_exponent_show:
  assumes "rest = [] \<or> \<not> is_digit (hd rest)"
  shows "split_exponent (''e'' @ show_exponent k @ rest) = (Some k, rest)"
proof -
  define ds where "ds = (if \<bar>k\<bar> < 10 then ''0'' else []) @ show_nat (nat \<bar>k\<bar>)"
  have z: "is_digit (CHR ''0'')" "digit_value (CHR ''0'') = 0" by (simp_all add: is_digit_def digit_value_def)
  have "list_all is_digit ds" using z is_digit_show_nat by (simp add: ds_def)
  moreover have "ds \<noteq> []" by (simp add: ds_def)
  moreover have "digits_value 0 ds = nat \<bar>k\<bar>" using z by (simp add: ds_def digits_value_show_nat)
  moreover have "show_exponent k = (if k < 0 then ''-'' else ''+'') @ ds" by (simp add: show_exponent_def ds_def)
  ultimately show ?thesis using split_digits_append [of ds rest] assms
    by (simp add: split_exponent_def split_sign_def del: split_digits.simps)
qed

lemma int_part_not_minus: "int_part ip \<Longrightarrow> \<exists>c cs. ip = c # cs \<and> c \<noteq> CHR ''-''"
  by (cases ip) (auto simp: int_part_def is_digit_def)

text \<open>The four shapes: with and without a fraction, with and without an exponent.\<close>

lemma json_number_shapes:
  assumes "int_part ip" and "list_all is_digit fp" and "ends_number rest"
  shows "json_number (ip @ rest) = Some (JInt (int (digits_value 0 ip)), rest)"
    and "fp \<noteq> [] \<Longrightarrow> json_number (ip @ ''.'' @ fp @ rest) = Some (JFloat (fl (decimal ip fp 0)), rest)"
    and "json_number (ip @ ''e'' @ show_exponent k @ rest) = Some (JFloat (fl (decimal ip [] k)), rest)"
    and "fp \<noteq> [] \<Longrightarrow> json_number (ip @ ''.'' @ fp @ ''e'' @ show_exponent k @ rest) = Some (JFloat (fl (decimal ip fp k)), rest)"
proof -
  obtain c cs where c: "ip = c # cs" "c \<noteq> CHR ''-''" using int_part_not_minus [OF assms(1)] by blast
  have r: "rest = [] \<or> \<not> is_digit (hd rest)" "rest = [] \<or> hd rest \<noteq> CHR ''.''"
    "rest = [] \<or> hd rest \<notin> {CHR ''e'', CHR ''E''}"
    using assms(3) by (cases rest; simp add: ends_number_def)+
  have n: "\<not> is_digit (CHR ''.'')" "\<not> is_digit (CHR ''e'')" by (simp_all add: is_digit_def)
  note e = split_exponent_show [OF r(1), of k]
  show "json_number (ip @ rest) = Some (JInt (int (digits_value 0 ip)), rest)"
    using c split_int_append [OF assms(1) r(1)] split_fraction_none [OF r(2)] split_exponent_none [OF r(3)]
    by (simp add: json_number_def)
  show "json_number (ip @ ''e'' @ show_exponent k @ rest) = Some (JFloat (fl (decimal ip [] k)), rest)"
    using c n e split_int_append [OF assms(1), of "''e'' @ show_exponent k @ rest"]
      split_fraction_none [of "''e'' @ show_exponent k @ rest"]
    by (simp add: json_number_def)
  assume fp: "fp \<noteq> []"
  show "json_number (ip @ ''.'' @ fp @ rest) = Some (JFloat (fl (decimal ip fp 0)), rest)"
    using c n fp split_int_append [OF assms(1), of "''.'' @ fp @ rest"] split_fraction_append [OF assms(2) fp r(1)]
      split_exponent_none [OF r(3)]
    by (simp add: json_number_def)
  show "json_number (ip @ ''.'' @ fp @ ''e'' @ show_exponent k @ rest) = Some (JFloat (fl (decimal ip fp k)), rest)"
    using c n e fp split_int_append [OF assms(1), of "''.'' @ fp @ ''e'' @ show_exponent k @ rest"]
      split_fraction_append [OF assms(2) fp, of "''e'' @ show_exponent k @ rest"]
    by (simp add: json_number_def)
qed

text \<open>Trailing zeros of a fraction do not count.\<close>

lemma strip_zeros_decomp: "\<exists>z. ds = strip_zeros ds @ replicate z (CHR ''0'')"
proof (induction ds rule: rev_induct)
  case (snoc c ds)
  then obtain z where z: "ds = strip_zeros ds @ replicate z (CHR ''0'')" by blast
  show ?case
  proof (cases "c = CHR ''0''")
    case True
    then have "strip_zeros (ds @ [c]) = strip_zeros ds" by (simp add: strip_zeros_def)
    moreover have "ds @ [c] = strip_zeros ds @ replicate (Suc z) (CHR ''0'')"
      using arg_cong [OF z, of "\<lambda>xs. xs @ [c]"] True by (simp add: replicate_append_same)
    ultimately show ?thesis by metis
  next
    case False
    then show ?thesis by (auto simp: strip_zeros_def intro: exI [of _ 0])
  qed
qed (simp add: strip_zeros_def)

lemma digits_value_zeros: "digits_value a (replicate z (CHR ''0'')) = a * 10 ^ z"
  by (induction z arbitrary: a) (simp_all add: is_digit_def digit_value_def)

lemma decimal_strip:
  assumes "list_all is_digit ip" and "list_all is_digit fp"
  shows "decimal ip (strip_zeros fp) e = decimal ip fp e"
proof -
  from strip_zeros_decomp obtain z where z: "fp = strip_zeros fp @ replicate z (CHR ''0'')" by blast
  then have "list_all is_digit (ip @ strip_zeros fp)" using assms by (metis list_all_append)
  from digits_value_append [OF this, of 0 "replicate z (CHR ''0'')"] z
  have v: "digits_value 0 (ip @ fp) = digits_value 0 (ip @ strip_zeros fp) * 10 ^ z"
    by (metis append.assoc digits_value_zeros)
  have l: "length fp = length (strip_zeros fp) + z" using z by (metis length_append length_replicate)
  then have "10 powi (e - int (length (strip_zeros fp))) = (10 ^ z * 10 powi (e - int (length fp)) :: rat)"
    using powi_10_split [of "e - int (length fp)" z] by simp
  then show ?thesis by (simp add: decimal_def v)
qed

lemma strip_zeros_digits: "list_all is_digit fp \<Longrightarrow> list_all is_digit (strip_zeros fp)"
  using strip_zeros_decomp [of fp] by (metis list_all_append)

lemma decimal_nil: "decimal ip [] 0 = of_nat (digits_value 0 ip)"
  by (simp add: decimal_def)

text \<open>\<open>number_text t v\<close>: the text \<open>t\<close> is read as \<open>v\<close>, whatever follows it.\<close>

definition number_text :: "string \<Rightarrow> json_number \<Rightarrow> bool" where
  "number_text t v \<longleftrightarrow> (\<forall>rest. ends_number rest \<longrightarrow> json_number (t @ rest) = Some (v, rest))"

lemma number_text_point:
  assumes "int_part ip" and "list_all is_digit fp"
  shows "\<exists>v. number_text (point ip fp) v \<and> py_float v = fl (decimal ip fp 0)"
    and "\<exists>v. number_text (point ip fp @ ''e'' @ show_exponent k) v \<and> py_float v = fl (decimal ip fp k)"
proof -
  have d: "list_all is_digit ip" using assms(1) by (simp add: int_part_def)
  note strip = decimal_strip [OF d assms(2)]
  note shapes = json_number_shapes [OF assms(1) strip_zeros_digits [OF assms(2)]]
  show "\<exists>v. number_text (point ip fp) v \<and> py_float v = fl (decimal ip fp 0)"
  proof (cases "strip_zeros fp = []")
    case True
    with shapes(1) strip [of 0] decimal_nil [of ip] show ?thesis
      by (intro exI [of _ "JInt (int (digits_value 0 ip))"]) (auto simp: point_def number_text_def)
  next
    case False
    with shapes(2) strip [of 0] show ?thesis
      by (intro exI [of _ "JFloat (fl (decimal ip fp 0))"]) (auto simp: point_def number_text_def)
  qed
  show "\<exists>v. number_text (point ip fp @ ''e'' @ show_exponent k) v \<and> py_float v = fl (decimal ip fp k)"
    using shapes(3,4) strip [of k]
    by (intro exI [of _ "JFloat (fl (decimal ip fp k))"]) (auto simp: point_def number_text_def)
qed

lemma show_nat_hd:
  assumes "0 < n"
  shows "hd (show_nat n) \<noteq> CHR ''0''"
  using assms
proof (induction n rule: show_nat.induct)
  case (1 n)
  have "digit_char n \<noteq> CHR ''0''" if "n < 10" "0 < n"
    using digit_value_digit_char [OF that(1)] that(2) by (auto simp: digit_value_def)
  with 1 show ?case by (cases "n < 10") (simp_all add: show_nat.simps [of n])
qed

lemma length_show_six: "100000 \<le> m \<Longrightarrow> m < 1000000 \<Longrightarrow> length (show_nat m) = 6"
proof -
  assume m: "100000 \<le> m" "m < 1000000"
  from show_nat_bounds [of m] m have "10 ^ 5 < (10 :: nat) ^ length (show_nat m)"
    "10 ^ (length (show_nat m) - 1) < (10 :: nat) ^ 6" by simp_all
  then have "5 < length (show_nat m)" "length (show_nat m) - 1 < 6"
    by (simp_all only: power_strict_increasing_iff [of "10 :: nat"])
  then show ?thesis by simp
qed

lemma six_digit_text:
  assumes "100000 \<le> m" and "m < 1000000" and "0 < n"
  shows "int_part (take n (show_nat m))" and "list_all is_digit (drop n (show_nat m))"
    and "n \<le> 6 \<Longrightarrow> decimal (take n (show_nat m)) (drop n (show_nat m)) e = of_nat m * 10 powi (e - (6 - int n))"
proof -
  have d: "list_all is_digit (show_nat m)" by (rule is_digit_show_nat)
  have "hd (take n (show_nat m)) = hd (show_nat m)" using assms(3) by (simp add: hd_take)
  with d assms show_nat_hd [of m] show "int_part (take n (show_nat m))"
    by (auto simp: int_part_def list_all_iff dest: in_set_takeD)
  from d show "list_all is_digit (drop n (show_nat m))" by (auto simp: list_all_iff dest: in_set_dropD)
  show "decimal (take n (show_nat m)) (drop n (show_nat m)) e = of_nat m * 10 powi (e - (6 - int n))" if "n \<le> 6"
    using that length_show_six [OF assms(1,2)] by (simp add: decimal_def digits_value_show_nat of_nat_diff)
qed

text \<open>
  The text of a number is read as the nearest \<open>double\<close> to the six digits that were written.
\<close>

lemma show_g_read:
  assumes "0 \<le> x"
  shows "\<exists>v. number_text (show_g x) v \<and> py_float v = fl (six_value x)"
proof (cases "x = 0")
  case True
  have "int_part ''0''" by (simp add: int_part_def is_digit_def)
  from json_number_shapes(1) [OF this, of "[]"] True show ?thesis
    by (intro exI [of _ "JInt 0"]) (auto simp: number_text_def show_g_def six_value_0 is_digit_def digit_value_def)
next
  case False
  with assms(1) have x: "0 < x" by simp
  obtain m k where mk: "six_digits x = (m, k)" by fastforce
  note b = six_digits_bounds [OF x mk]
  have v: "six_value x = of_nat m * 10 powi (k - 5)" by (simp add: six_value_def mk)
  note t = six_digit_text [OF conjunct1 [OF b] conjunct2 [OF b]]
  consider (whole) "0 \<le> k" "k < 6" | (small) "- 4 \<le> k" "k < 0" | (scientific) "k < - 4 \<or> 6 \<le> k" by linarith
  then show ?thesis
  proof cases
    case whole
    then have "nat k + 1 \<le> 6" "0 - (6 - int (nat k + 1)) = k - 5" by auto
    with t(3) [of "nat k + 1" 0] number_text_point(1) [OF t(1,2) [of "nat k + 1"]] whole False
    show ?thesis by (auto simp: show_g_def mk v Let_def)
  next
    case small
    let ?z = "replicate (nat (- k) - 1) (CHR ''0'')"
    have z: "int_part ''0''" "list_all is_digit (?z @ show_nat m)"
      using is_digit_show_nat by (auto simp: int_part_def is_digit_def list_all_iff)
    have "digits_value 0 (''0'' @ ?z @ show_nat m) = digits_value (digits_value 0 (replicate (Suc (nat (- k) - 1)) (CHR ''0''))) (show_nat m)"
      using digits_value_append [of "''0'' @ ?z" 0 "show_nat m"] by (simp add: list_all_iff is_digit_def)
    then have "digits_value 0 (''0'' @ ?z @ show_nat m) = m" unfolding digits_value_zeros by (simp add: digits_value_show_nat)
    then have "decimal ''0'' (?z @ show_nat m) 0 = of_nat m * 10 powi (k - 5)"
      using small length_show_six [of m] b by (simp add: decimal_def of_nat_diff algebra_simps)
    then show ?thesis
      using number_text_point(1) [OF z] small False by (auto simp: show_g_def mk v Let_def)
  next
    case scientific
    with t(3) [of 1 k] number_text_point(2) [OF t(1,2) [of 1], of k] False
    show ?thesis by (auto simp: show_g_def mk v Let_def)
  qed
qed

end
