(* ===== verification/Timestamps.thy ===== *)
theory Timestamps
  imports Text_Format "HOL-Library.List_Lexorder" "HOL-Library.Char_ord"
begin

text \<open>
  The names \<open>src/bench/load.cpp\<close> gives its result files: \<open>gmtime_r\<close> of the seconds since 1970 and
  \<open>strftime\<close> with \<open>%Y%m%dT%H%M%SZ\<close>. The calendar is the proleptic Gregorian one without leap
  seconds, as POSIX defines \<open>gmtime\<close>; times are not before 1970.
\<close>

section \<open>The calendar\<close>

definition leap_year :: "nat \<Rightarrow> bool" where
  "leap_year y \<longleftrightarrow> y mod 4 = 0 \<and> (y mod 100 \<noteq> 0 \<or> y mod 400 = 0)"

definition year_days :: "nat \<Rightarrow> nat" where
  "year_days y = (if leap_year y then 366 else 365)"

text \<open>The days of the month \<open>m\<close>, from 0, of a year; from 12 on a number that no day exceeds.\<close>

definition month_days :: "nat \<Rightarrow> nat \<Rightarrow> nat" where
  "month_days y m =
     (if m = 1 then (if leap_year y then 29 else 28)
      else if m \<in> {3, 5, 8, 10} then 30 else 31)"

text \<open>Count off whole periods of given lengths: the number of the last one begun, and the rest.\<close>

function count_off :: "(nat \<Rightarrow> nat) \<Rightarrow> nat \<Rightarrow> nat \<Rightarrow> nat \<times> nat" where
  "count_off len k d = (if len k \<le> d \<and> 0 < len k then count_off len (k + 1) (d - len k) else (k, d))"
  by pat_completeness auto
termination by (relation "measure (\<lambda>(len, k, d). d)") auto

declare count_off.simps [simp del]

record tm =
  tm_year :: nat
  tm_mon :: nat
  tm_mday :: nat
  tm_hour :: nat
  tm_min :: nat
  tm_sec :: nat

definition gmtime :: "nat \<Rightarrow> tm" where
  "gmtime t =
     (let days = t div 86400; r = t mod 86400;
          (y, yday) = count_off year_days 1970 days;
          (m, mday) = count_off (month_days y) 0 yday
      in \<lparr>tm_year = y, tm_mon = m + 1, tm_mday = mday + 1, tm_hour = r div 3600, tm_min = r div 60 mod 60,
         tm_sec = r mod 60\<rparr>)"

section \<open>The text\<close>

text \<open>A number with at least \<open>w\<close> digits.\<close>

definition pad :: "nat \<Rightarrow> nat \<Rightarrow> string" where
  "pad w n = replicate (w - length (show_nat n)) (CHR ''0'') @ show_nat n"

definition stamp :: "nat \<Rightarrow> string" where
  "stamp t =
     (let g = gmtime t in
      pad 4 (tm_year g) @ pad 2 (tm_mon g) @ pad 2 (tm_mday g) @ ''T'' @
      pad 2 (tm_hour g) @ pad 2 (tm_min g) @ pad 2 (tm_sec g) @ ''Z'')"

section \<open>Counting off\<close>

lemma count_off_rest: "0 < len (fst (count_off len k d)) \<Longrightarrow> snd (count_off len k d) < len (fst (count_off len k d))"
proof (induction len k d rule: count_off.induct)
  case (1 len k d)
  then show ?case by (cases "len k \<le> d \<and> 0 < len k") (auto simp: count_off.simps [of len k d])
qed

lemma count_off_start: "k \<le> fst (count_off len k d)"
proof (induction len k d rule: count_off.induct)
  case (1 len k d)
  then show ?case by (cases "len k \<le> d \<and> 0 < len k") (auto simp: count_off.simps [of len k d])
qed

text \<open>A later day is in a later period, or later in the same one.\<close>

lemma count_off_strict_mono:
  assumes "d < d'" and "\<And>i. 0 < len i"
  shows "fst (count_off len k d) < fst (count_off len k d') \<or>
    fst (count_off len k d) = fst (count_off len k d') \<and> snd (count_off len k d) < snd (count_off len k d')"
  using assms(1)
proof (induction len k d arbitrary: d' rule: count_off.induct)
  case (1 len k d)
  show ?case
  proof (cases "len k \<le> d \<and> 0 < len k")
    case True
    with 1(2) have "d - len k < d' - len k" "len k \<le> d'" by auto
    with 1(1) [OF True, of "d' - len k"] True show ?thesis
      by (simp add: count_off.simps [of len k d] count_off.simps [of len k d'])
  next
    case False
    then have "count_off len k d = (k, d)" by (subst count_off.simps) (simp only: if_False)
    moreover have "k + 1 \<le> fst (count_off len (k + 1) (d' - len k))" by (rule count_off_start)
    ultimately show ?thesis using 1(2) by (auto simp: count_off.simps [of len k d'])
  qed
qed

lemma count_off_sum: "d = (\<Sum>i = k..<fst (count_off len k d). len i) + snd (count_off len k d)"
proof (induction len k d rule: count_off.induct)
  case (1 len k d)
  show ?case
  proof (cases "len k \<le> d \<and> 0 < len k")
    case True
    let ?j = "fst (count_off len (k + 1) (d - len k))"
    have "k < ?j" using count_off_start [of "k + 1" len "d - len k"] by simp
    then have "(\<Sum>i = k..<?j. len i) = len k + (\<Sum>i = k + 1..<?j. len i)" by (simp add: sum.atLeast_Suc_lessThan)
    moreover have "count_off len k d = count_off len (k + 1) (d - len k)"
      using True by (subst count_off.simps) (simp only: if_True simp_thms)
    ultimately show ?thesis using 1 [OF True] True by (metis add.assoc le_add_diff_inverse)
  qed (auto simp: count_off.simps [of len k d])
qed

lemma month_days_pos [simp]: "0 < month_days y m"
  by (simp add: month_days_def)

lemma year_days_pos [simp]: "0 < year_days y"
  by (simp add: year_days_def)

lemma months_of_year: "(\<Sum>i = 0..<12. month_days y i) = year_days y"
  by (simp add: month_days_def year_days_def numeral_eq_Suc sum.atLeast0_lessThan_Suc)

lemma month_in_year:
  assumes "d < year_days y"
  shows "fst (count_off (month_days y) 0 d) < 12"
proof (rule ccontr)
  let ?m = "fst (count_off (month_days y) 0 d)"
  assume "\<not> ?m < 12"
  then have "(\<Sum>i = 0..<12. month_days y i) \<le> (\<Sum>i = 0..<?m. month_days y i)" by (intro sum_mono2) auto
  with count_off_sum [where k = 0 and d = d and len = "month_days y"] assms show False by (simp add: months_of_year)
qed

lemma gmtime_fields:
  "0 < tm_mon (gmtime t) \<and> tm_mon (gmtime t) \<le> 12 \<and> 0 < tm_mday (gmtime t) \<and>
   tm_mday (gmtime t) \<le> month_days (tm_year (gmtime t)) (tm_mon (gmtime t) - 1) \<and>
   tm_hour (gmtime t) < 24 \<and> tm_min (gmtime t) < 60 \<and> tm_sec (gmtime t) < 60"
proof -
  obtain y d where y: "count_off year_days 1970 (t div 86400) = (y, d)" by fastforce
  with count_off_rest [of year_days 1970 "t div 86400"] have "d < year_days y" by simp
  moreover obtain m r where m: "count_off (month_days y) 0 d = (m, r)" by fastforce
  ultimately have "m < 12" "r < month_days y m"
    using month_in_year [of d y] count_off_rest [of "month_days y" 0 d] by simp_all
  moreover have "t mod 86400 div 3600 < 24" by (simp add: less_mult_imp_div_less)
  ultimately show ?thesis by (simp add: gmtime_def Let_def y m Suc_le_eq)
qed

section \<open>The order of the names\<close>

lemma lex_append:
  "length xs = length ys \<Longrightarrow> xs < ys \<or> xs = ys \<and> us < vs \<Longrightarrow> xs @ us < ys @ vs" for xs :: "'a :: order list"
  by (induction xs ys rule: list_induct2) auto

lemma digits_value_acc: "list_all is_digit xs \<Longrightarrow> digits_value a xs = a * 10 ^ length xs + digits_value 0 xs"
proof (induction xs arbitrary: a)
  case (Cons c xs)
  from Cons.prems have "list_all is_digit xs" "is_digit c" by simp_all
  with Cons.IH [of "10 * a + digit_value c"] Cons.IH [of "digit_value c"] show ?case
    by (simp only: digits_value.simps if_True length_Cons power_Suc) (simp add: algebra_simps)
qed simp

lemma digits_value_less: "list_all is_digit xs \<Longrightarrow> digits_value 0 xs < 10 ^ length xs"
proof (induction xs)
  case (Cons c xs)
  then have "digit_value c \<le> 9" by (auto simp: is_digit_def digit_value_def)
  then have "digit_value c * 10 ^ length xs \<le> 9 * 10 ^ length xs" by (rule mult_le_mono1)
  moreover have "digits_value 0 (c # xs) = digit_value c * 10 ^ length xs + digits_value 0 xs"
    using Cons.prems digits_value_acc [of xs "digit_value c"] by simp
  moreover have "digits_value 0 xs < 10 ^ length xs" using Cons by simp
  ultimately show ?case by (simp only: length_Cons power_Suc)
qed simp

lemma digits_less:
  "length xs = length ys \<Longrightarrow> list_all is_digit xs \<Longrightarrow> list_all is_digit ys \<Longrightarrow>
     digits_value 0 xs < digits_value 0 ys \<Longrightarrow> xs < ys"
proof (induction xs ys rule: list_induct2)
  case (Cons x xs y ys)
  define p :: nat where "p = 10 ^ length ys"
  have d: "is_digit x" "is_digit y" "list_all is_digit xs" "list_all is_digit ys" using Cons.prems by simp_all
  have "digit_value x * p + digits_value 0 xs < digit_value y * p + digits_value 0 ys"
    using Cons.prems Cons.hyps d digits_value_acc [OF d(3), of "digit_value x"] digits_value_acc [OF d(4), of "digit_value y"]
    by (simp add: p_def)
  moreover have "digits_value 0 ys < p" using digits_value_less [OF d(4)] by (simp add: p_def)
  moreover have "(digit_value y + 1) * p \<le> digit_value x * p" if "digit_value y < digit_value x"
    using that by (intro mult_le_mono1) simp
  ultimately consider "digit_value x < digit_value y" | "digit_value x = digit_value y" "digits_value 0 xs < digits_value 0 ys"
    by (cases "digit_value x" "digit_value y" rule: linorder_cases) (auto simp: algebra_simps)
  then show ?case
  proof cases
    case 1
    with d have "(of_char x :: nat) < of_char y" by (auto simp: digit_value_def is_digit_def)
    then show ?thesis by (simp add: less_char_def)
  next
    case 2
    with d have "x = y" by (auto simp: digit_value_def is_digit_def eq_diff_iff)
    with Cons.IH [OF d(3,4) 2(2)] show ?thesis by simp
  qed
qed simp

lemma pad_digits: "list_all is_digit (pad w n)" "digits_value 0 (pad w n) = n"
proof -
  have z: "list_all is_digit (replicate k (CHR ''0''))" "digits_value 0 (replicate k (CHR ''0'')) = 0" for k
    by (induction k) (simp_all add: is_digit_def digit_value_def)
  show "list_all is_digit (pad w n)" using z is_digit_show_nat by (simp add: pad_def)
  show "digits_value 0 (pad w n) = n" using z by (simp add: pad_def digits_value_append digits_value_show_nat)
qed

lemma length_pad: "n < 10 ^ w \<Longrightarrow> 0 < w \<Longrightarrow> length (pad w n) = w"
  using length_show_nat [of n w] by (simp add: pad_def)

lemma pad_less: "n < n' \<Longrightarrow> n' < 10 ^ w \<Longrightarrow> 0 < w \<Longrightarrow> pad w n < pad w n'"
  by (rule digits_less) (simp_all add: pad_digits length_pad)

lemma pad_append_less:
  assumes "n < n' \<or> n = n' \<and> us < vs" and "n' < 10 ^ w" and "0 < w"
  shows "pad w n @ us < pad w n' @ vs"
  using assms pad_less [of n n' w] by (intro lex_append) (auto simp: length_pad)

text \<open>Within the years of four digits, later times have later names.\<close>

lemma day_less:
  assumes "t div 86400 < t' div 86400"
  shows "tm_year (gmtime t) < tm_year (gmtime t') \<or> tm_year (gmtime t) = tm_year (gmtime t') \<and>
    (tm_mon (gmtime t) < tm_mon (gmtime t') \<or> tm_mon (gmtime t) = tm_mon (gmtime t') \<and> tm_mday (gmtime t) < tm_mday (gmtime t'))"
proof -
  obtain y d y' d' where y: "count_off year_days 1970 (t div 86400) = (y, d)"
    "count_off year_days 1970 (t' div 86400) = (y', d')" by fastforce
  obtain m r m' r' where m: "count_off (month_days y) 0 d = (m, r)" "count_off (month_days y') 0 d' = (m', r')" by fastforce
  from count_off_strict_mono [OF assms, of year_days 1970] y have "y < y' \<or> y = y' \<and> d < d'" by simp
  moreover from count_off_strict_mono [of d d' "month_days y" 0] m have "y = y' \<Longrightarrow> d < d' \<Longrightarrow> m < m' \<or> m = m' \<and> r < r'"
    by simp
  ultimately show ?thesis by (auto simp: gmtime_def Let_def y m)
qed

lemma clock_less:
  assumes "r < (r' :: nat)"
  shows "r div 3600 < r' div 3600 \<or> r div 3600 = r' div 3600 \<and>
    (r div 60 mod 60 < r' div 60 mod 60 \<or> r div 60 mod 60 = r' div 60 mod 60 \<and> r mod 60 < r' mod 60)"
proof -
  have s: "r = 60 * (r div 60) + r mod 60" "r' = 60 * (r' div 60) + r' mod 60" "r mod 60 < 60" "r' mod 60 < 60"
    by simp_all
  have m: "r div 60 = 60 * (r div 3600) + r div 60 mod 60" "r' div 60 = 60 * (r' div 3600) + r' div 60 mod 60"
    "r div 60 mod 60 < 60" "r' div 60 mod 60 < 60"
    using div_mult2_eq [of r 60 60] div_mult2_eq [of r' 60 60] by simp_all
  have h: "r div 3600 = r div 60 div 60" "r' div 3600 = r' div 60 div 60"
    using div_mult2_eq [of r 60 60] div_mult2_eq [of r' 60 60] by simp_all
  from s assms have "r div 60 < r' div 60 \<or> r div 60 = r' div 60 \<and> r mod 60 < r' mod 60" by linarith
  then show ?thesis
  proof
    assume "r div 60 < r' div 60"
    with m show ?thesis by (cases "r div 3600" "r' div 3600" rule: linorder_cases) linarith+
  next
    assume "r div 60 = r' div 60 \<and> r mod 60 < r' mod 60"
    with h show ?thesis by simp
  qed
qed

lemma fields_less:
  assumes "y < y' \<or> y = y' \<and> (m < m' \<or> m = m' \<and> (d < d' \<or> d = d' \<and> (h < h' \<or> h = h' \<and> (i < i' \<or> i = i' \<and> s < s'))))"
    and "y' < 10 ^ 4" "m' < 10 ^ 2" "d' < 10 ^ 2" "h' < 10 ^ 2" "i' < 10 ^ 2" "s' < 10 ^ 2"
  shows "pad 4 y @ pad 2 m @ pad 2 d @ ''T'' @ pad 2 h @ pad 2 i @ pad 2 s @ ''Z'' <
    pad 4 y' @ pad 2 m' @ pad 2 d' @ ''T'' @ pad 2 h' @ pad 2 i' @ pad 2 s' @ ''Z''"
proof -
  have s: "pad 2 s @ ''Z'' < pad 2 s' @ ''Z''" if "s < s'"
    using that assms(7) by (intro pad_append_less) simp_all
  have i: "pad 2 i @ pad 2 s @ ''Z'' < pad 2 i' @ pad 2 s' @ ''Z''" if "i < i' \<or> i = i' \<and> s < s'"
    by (rule pad_append_less) (use that s assms(6) in auto)
  have h: "pad 2 h @ pad 2 i @ pad 2 s @ ''Z'' < pad 2 h' @ pad 2 i' @ pad 2 s' @ ''Z''"
    if "h < h' \<or> h = h' \<and> (i < i' \<or> i = i' \<and> s < s')"
    by (rule pad_append_less) (use that i assms(5) in auto)
  have d: "pad 2 d @ ''T'' @ pad 2 h @ pad 2 i @ pad 2 s @ ''Z'' < pad 2 d' @ ''T'' @ pad 2 h' @ pad 2 i' @ pad 2 s' @ ''Z''"
    if "d < d' \<or> d = d' \<and> (h < h' \<or> h = h' \<and> (i < i' \<or> i = i' \<and> s < s'))"
    by (rule pad_append_less) (use that h assms(4) in auto)
  have m: "pad 2 m @ pad 2 d @ ''T'' @ pad 2 h @ pad 2 i @ pad 2 s @ ''Z'' <
      pad 2 m' @ pad 2 d' @ ''T'' @ pad 2 h' @ pad 2 i' @ pad 2 s' @ ''Z''"
    if "m < m' \<or> m = m' \<and> (d < d' \<or> d = d' \<and> (h < h' \<or> h = h' \<and> (i < i' \<or> i = i' \<and> s < s')))"
    by (rule pad_append_less) (use that d assms(3) in auto)
  show ?thesis by (rule pad_append_less) (use m assms(1,2) in auto)
qed

lemma month_days_le: "month_days y m \<le> 31"
  by (simp add: month_days_def)

lemma stamp_less:
  assumes "t < t'" and "tm_year (gmtime t') \<le> 9999"
  shows "stamp t < stamp t'"
proof -
  let ?g = "gmtime t" and ?g' = "gmtime t'"
  have day: "tm_hour (gmtime u) = u mod 86400 div 3600" "tm_min (gmtime u) = u mod 86400 div 60 mod 60"
    "tm_sec (gmtime u) = u mod 86400 mod 60" for u
    by (simp_all add: gmtime_def Let_def split: prod.splits)
  have "tm_year ?g < tm_year ?g' \<or> tm_year ?g = tm_year ?g' \<and> (tm_mon ?g < tm_mon ?g' \<or> tm_mon ?g = tm_mon ?g' \<and>
      (tm_mday ?g < tm_mday ?g' \<or> tm_mday ?g = tm_mday ?g' \<and> (tm_hour ?g < tm_hour ?g' \<or> tm_hour ?g = tm_hour ?g' \<and>
      (tm_min ?g < tm_min ?g' \<or> tm_min ?g = tm_min ?g' \<and> tm_sec ?g < tm_sec ?g'))))"
  proof (cases "t div 86400 = t' div 86400")
    case True
    then have "t mod 86400 < t' mod 86400" using assms(1) by (metis mult_div_mod_eq nat_add_left_cancel_less)
    from clock_less [OF this] True show ?thesis unfolding day
      by (simp add: gmtime_def Let_def split: prod.splits)
  next
    case False
    then have "t div 86400 < t' div 86400" using assms(1) by (meson div_le_mono le_neq_implies_less less_imp_le_nat)
    from day_less [OF this] show ?thesis by blast
  qed
  moreover from gmtime_fields [of t'] month_days_le [of "tm_year ?g'" "tm_mon ?g' - 1"] assms(2)
  have "tm_year ?g' < 10 ^ 4" "tm_mon ?g' < 10 ^ 2" "tm_mday ?g' < 10 ^ 2" "tm_hour ?g' < 10 ^ 2" "tm_min ?g' < 10 ^ 2"
    "tm_sec ?g' < 10 ^ 2" by simp_all
  ultimately show ?thesis unfolding stamp_def Let_def by (rule fields_less)
qed

text \<open>A name begins with the digits of a year.\<close>

lemma stamp_hd: "\<exists>c cs. stamp t = c # cs \<and> is_digit c"
proof -
  obtain c cs where c: "pad 4 (tm_year (gmtime t)) = c # cs" by (cases "pad 4 (tm_year (gmtime t))") (auto simp: pad_def)
  with pad_digits(1) [of 4 "tm_year (gmtime t)"] have "is_digit c" by simp
  with c show ?thesis by (simp add: stamp_def Let_def)
qed

lemma year_mono:
  assumes "t \<le> t'"
  shows "tm_year (gmtime t) \<le> tm_year (gmtime t')"
proof (cases "t div 86400 = t' div 86400")
  case True
  then show ?thesis by (simp add: gmtime_def Let_def split: prod.splits)
next
  case False
  with div_le_mono [OF assms, of 86400] have "t div 86400 < t' div 86400" by simp
  from day_less [OF this] show ?thesis by auto
qed

lemma length_stamp:
  assumes "tm_year (gmtime t) \<le> 9999"
  shows "length (stamp t) = 16"
proof -
  have "length (pad 4 (tm_year (gmtime t))) = 4" using assms by (intro length_pad) simp_all
  moreover have "length (pad 2 n) = 2" if "n < 60" for n using that by (intro length_pad) simp_all
  moreover note gmtime_fields [of t] month_days_le [of "tm_year (gmtime t)" "tm_mon (gmtime t) - 1"]
  ultimately show ?thesis by (simp add: stamp_def Let_def)
qed

end
