(* ===== verification/Bench_Report.thy ===== *)
theory Bench_Report
  imports Load_Bench Decimals Timestamps "HOL-Library.Multiset"
begin

text \<open>
  The end of \<open>main\<close> in \<open>src/bench/load.cpp\<close>: from the counters and the latencies of the threads
  to the percentiles, the rates, the line on standard output and the result file.
\<close>

section \<open>Percentiles and rates\<close>

definition all_latencies :: "u64 list list \<Rightarrow> u64 list" where
  "all_latencies per_thread_lat = sort (concat per_thread_lat)"

definition pct_index :: "rat \<Rightarrow> nat \<Rightarrow> nat" where
  "pct_index q n = nat \<lfloor>fl (q * fl (of_nat (n - 1)))\<rfloor>"

definition pct :: "u64 list \<Rightarrow> rat \<Rightarrow> u64" where
  "pct all q = (if all = [] then 0 else all ! pct_index q (length all))"

definition rate :: "u64 \<Rightarrow> int \<Rightarrow> rat" where
  "rate n total_ms =
     (if 0 < total_ms then fl (fl (1000 * fl (of_nat (unat n))) / fl (of_int total_ms)) else 0)"

text \<open>The four literals.\<close>

definition q50 :: rat where "q50 = fl (50 / 100)"
definition q95 :: rat where "q95 = fl (95 / 100)"
definition q99 :: rat where "q99 = fl (99 / 100)"
definition q999 :: rat where "q999 = fl (999 / 1000)"

section \<open>The report\<close>

definition show_u64 :: "u64 \<Rightarrow> string" where "show_u64 x = show_nat (unat x)"

definition show_int :: "int \<Rightarrow> string" where
  "show_int n = (if n < 0 then ''-'' @ show_nat (nat (- n)) else show_nat (nat n))"

record bench_outcome =
  o_ok :: u64
  o_err :: u64
  o_connects :: u64
  o_connect_failed :: u64
  o_lat :: "u64 list list"
  o_total_ms :: int

definition clients_mode :: "bench_args \<Rightarrow> bool" where
  "clients_mode a \<longleftrightarrow> 0 < clients a"

definition summary_line :: "bench_outcome \<Rightarrow> string" where
  "summary_line r =
     (let all = all_latencies (o_lat r) in
      ''ok='' @ show_u64 (o_ok r) @ '' err='' @ show_u64 (o_err r) @ '' connects='' @ show_u64 (o_connects r) @
      '' connect_failed='' @ show_u64 (o_connect_failed r) @ '' ms='' @ show_int (o_total_ms r) @
      '' throughput_rps='' @ show_fixed1 (rate (o_ok r) (o_total_ms r)) @
      '' connect_rate_per_s='' @ show_fixed1 (rate (o_connects r) (o_total_ms r)) @
      '' p50_us='' @ show_u64 (pct all q50) @ '' p95_us='' @ show_u64 (pct all q95) @
      '' p99_us='' @ show_u64 (pct all q99) @ '' p999_us='' @ show_u64 (pct all q999) @ [CHR 0x0A])"

definition quoted :: "string \<Rightarrow> string" where "quoted s = [CHR 0x22] @ s @ [CHR 0x22]"

definition result_members :: "bench_args \<Rightarrow> bench_outcome \<Rightarrow> (string \<times> string) list" where
  "result_members a r =
     (let all = all_latencies (o_lat r) in
      [(''schema'', quoted ''inference-router.bench.v2''),
       (''mode'', quoted (if clients_mode a then ''clients'' else ''legacy'')),
       (''ok'', show_u64 (o_ok r)),
       (''err'', show_u64 (o_err r)),
       (''connects'', show_u64 (o_connects r)),
       (''connect_failed'', show_u64 (o_connect_failed r)),
       (''total_ms'', show_int (o_total_ms r)),
       (''throughput_rps'', show_g (rate (o_ok r) (o_total_ms r))),
       (''connect_rate_per_s'', show_g (rate (o_connects r) (o_total_ms r))),
       (''p50_us'', show_u64 (pct all q50)),
       (''p95_us'', show_u64 (pct all q95)),
       (''p99_us'', show_u64 (pct all q99)),
       (''p999_us'', show_u64 (pct all q999)),
       (''concurrency'', show_int (concurrency a)),
       (''clients'', show_int (clients a)),
       (''reqs_per_client'', show_int (reqs_per_client a)),
       (''router_threads'', show_int (router_threads a)),
       (''router_pool'', show_int (router_pool a)),
       (''payload_bytes'', show_int (payload_bytes a))])"

text \<open>Every line but the last ends with a comma.\<close>

fun member_lines :: "(string \<times> string) list \<Rightarrow> string" where
  "member_lines [] = []"
| "member_lines ((k, v) # rest) =
     ''  '' @ quoted k @ '': '' @ v @ (if rest = [] then [] else '','') @ [CHR 0x0A] @ member_lines rest"

definition result_file :: "bench_args \<Rightarrow> bench_outcome \<Rightarrow> string" where
  "result_file a r = ''{'' @ [CHR 0x0A] @ member_lines (result_members a r) @ ''}'' @ [CHR 0x0A]"

text \<open>Where it goes: \<open>now\<close> is \<open>time(nullptr)\<close>.\<close>

definition result_path :: "bench_args \<Rightarrow> nat \<Rightarrow> string" where
  "result_path a now =
     (if clients_mode a \<and> out_path a = ''bench/bench-result.json''
      then ''bench/results/'' @ stamp now @ ''.json'' else out_path a)"

text \<open>
  The end of \<open>main\<close>: what goes to the file, to standard error and to standard output. \<open>opened\<close> is whether
  the stream could be opened; the last line is printed in both cases.
\<close>

definition bench_write :: "bool \<Rightarrow> bench_args \<Rightarrow> bench_outcome \<Rightarrow> nat \<Rightarrow> string option \<times> string \<times> string" where
  "bench_write opened a r now =
     (let path = result_path a now in
      (if opened then Some (result_file a r) else None,
       if opened then [] else ''warning: could not open '' @ path @ '' for write'' @ [CHR 0x0A],
       ''wrote '' @ path @ [CHR 0x0A]))"

definition total_ms_between :: "int \<Rightarrow> int \<Rightarrow> int" where
  "total_ms_between run_start run_end = (run_end - run_start) sdiv ns_per_ms"

text \<open>
  The last line names the file as written although nothing was written.
\<close>

lemma bench_write_claims:
  "fst (bench_write False a r now) = None \<and> snd (snd (bench_write False a r now)) = snd (snd (bench_write True a r now))"
  by (simp add: bench_write_def Let_def)

section \<open>The index of a percentile\<close>

text \<open>The literals are between 0 and 1 and in this order.\<close>

lemma literals: "0 \<le> q50" "q50 \<le> q95" "q95 \<le> q99" "q99 \<le> q999" "q999 \<le> 1"
proof -
  have "fl 1 = 1" using fl_of_int [of 1] by simp
  then show "0 \<le> q50" "q50 \<le> q95" "q95 \<le> q99" "q99 \<le> q999" "q999 \<le> 1"
    using fl_mono [of "999 / 1000" 1] fl_mono [of 0 "50 / 100"]
    by (simp_all add: q50_def q95_def q99_def q999_def fl_mono)
qed

lemma pct_index_mono: "q \<le> q' \<Longrightarrow> pct_index q n \<le> pct_index q' n"
  unfolding pct_index_def by (intro nat_mono floor_mono fl_mono mult_right_mono fl_nonneg) simp_all

lemma pct_index_bounds:
  assumes "0 \<le> q" and "q \<le> 1" and "0 < n" and "n \<le> 2 ^ 53"
  shows "pct_index q n < n" and "of_nat (pct_index q n) \<le> q * of_nat (n - 1) * (1 + 1 / 2 ^ 53)"
    and "q * of_nat (n - 1) * (1 - 1 / 2 ^ 53) < of_nat (pct_index q n) + 1"
proof -
  let ?x = "q * of_nat (n - 1)"
  have e: "fl (of_nat (n - 1)) = of_nat (n - 1)" using assms(3,4) by (intro fl_of_nat) simp
  have x: "0 \<le> ?x" "?x \<le> of_nat (n - 1)" using assms mult_left_le_one_le [of "of_nat (n - 1)" q] by simp_all
  have i: "pct_index q n = nat \<lfloor>fl ?x\<rfloor>" by (simp only: pct_index_def e)
  have "fl ?x \<le> of_nat (n - 1)" using fl_mono [OF x(2)] e by simp
  then have "\<lfloor>fl ?x\<rfloor> \<le> int (n - 1)" by linarith
  with assms(3) show "pct_index q n < n" by (simp add: i)
  have "0 \<le> fl ?x" using x(1) by (rule fl_nonneg)
  then have f: "of_nat (pct_index q n) \<le> fl ?x" "fl ?x < of_nat (pct_index q n) + 1" by (simp_all add: i) linarith+
  define d where "d = ?x / 2 ^ 53"
  have "\<bar>fl ?x - ?x\<bar> \<le> d" using fl_error [of ?x] x(1) by (simp add: d_def)
  with f have "of_nat (pct_index q n) \<le> ?x + d" "?x - d < of_nat (pct_index q n) + 1" by linarith+
  moreover have "?x * (1 + 1 / 2 ^ 53) = ?x + d" "?x * (1 - 1 / 2 ^ 53) = ?x - d"
    by (simp_all only: d_def distrib_left right_diff_distrib mult_1_right times_divide_eq_right)
  ultimately show "of_nat (pct_index q n) \<le> ?x * (1 + 1 / 2 ^ 53)" "?x * (1 - 1 / 2 ^ 53) < of_nat (pct_index q n) + 1"
    by (simp_all only:)
qed

section \<open>Order statistics\<close>

lemma sorted_rank:
  assumes "sorted xs" and "i < length xs"
  shows "i + 1 \<le> length (filter (\<lambda>x. x \<le> xs ! i) xs)" and "length xs - i \<le> length (filter (\<lambda>x. xs ! i \<le> x) xs)"
proof -
  have t: "filter (\<lambda>x. x \<le> xs ! i) (take (i + 1) xs) = take (i + 1) xs"
    using assms by (auto simp: filter_id_conv in_set_conv_nth sorted_iff_nth_mono)
  have "length (filter (\<lambda>x. x \<le> xs ! i) xs) =
      length (filter (\<lambda>x. x \<le> xs ! i) (take (i + 1) xs)) + length (filter (\<lambda>x. x \<le> xs ! i) (drop (i + 1) xs))"
    by (metis append_take_drop_id filter_append length_append)
  with t assms(2) show "i + 1 \<le> length (filter (\<lambda>x. x \<le> xs ! i) xs)" by simp
  have d: "filter (\<lambda>x. xs ! i \<le> x) (drop i xs) = drop i xs"
    using assms by (auto simp: filter_id_conv in_set_conv_nth sorted_iff_nth_mono)
  have "length (filter (\<lambda>x. xs ! i \<le> x) xs) =
      length (filter (\<lambda>x. xs ! i \<le> x) (take i xs)) + length (filter (\<lambda>x. xs ! i \<le> x) (drop i xs))"
    by (metis append_take_drop_id filter_append length_append)
  with d show "length xs - i \<le> length (filter (\<lambda>x. xs ! i \<le> x) xs)" by simp
qed

text \<open>How many of the latencies are at most, and at least, a given one.\<close>

definition at_most :: "u64 list list \<Rightarrow> u64 \<Rightarrow> nat" where
  "at_most lats p = length (filter (\<lambda>x. x \<le> p) (concat lats))"

definition at_least :: "u64 list list \<Rightarrow> u64 \<Rightarrow> nat" where
  "at_least lats p = length (filter (\<lambda>x. p \<le> x) (concat lats))"

lemma length_filter_sort: "length (filter P (sort xs)) = length (filter P xs)" for xs :: "'a :: linorder list"
  by (simp add: filter_sort)

lemma all_latencies_simps:
  "length (all_latencies lats) = length (concat lats)" "sorted (all_latencies lats)"
  "set (all_latencies lats) = set (concat lats)"
  by (simp_all add: all_latencies_def)

lemma pct_rank:
  assumes "0 \<le> q" and "q \<le> 1" and "concat lats \<noteq> []" and "length (concat lats) \<le> 2 ^ 53"
  shows "pct (all_latencies lats) q \<in> set (concat lats)"
    and "pct_index q (length (concat lats)) + 1 \<le> at_most lats (pct (all_latencies lats) q)"
    and "length (concat lats) - pct_index q (length (concat lats)) \<le> at_least lats (pct (all_latencies lats) q)"
proof -
  let ?all = "all_latencies lats" and ?n = "length (concat lats)"
  note n = all_latencies_simps [of lats]
  have "0 < ?n" using assms(3) by (simp only: length_greater_0_conv not_False_eq_True)
  then have ne: "?all \<noteq> []" using n(1) by (metis length_greater_0_conv)
  note \<open>0 < ?n\<close>
  from pct_index_bounds(1) [OF assms(1,2) this assms(4)] have i: "pct_index q ?n < length ?all" by (simp only: n)
  have p: "pct ?all q = ?all ! pct_index q ?n" using ne by (simp only: pct_def if_False n(1))
  show "pct ?all q \<in> set (concat lats)" unfolding p n(3) [symmetric] using i by (rule nth_mem)
  from sorted_rank [OF n(2) i] show "pct_index q ?n + 1 \<le> at_most lats (pct ?all q)"
    "?n - pct_index q ?n \<le> at_least lats (pct ?all q)"
    unfolding p n(1) by (simp_all only: at_most_def at_least_def all_latencies_def length_filter_sort)
qed

lemma pct_mono:
  assumes "q \<le> q'" and "0 \<le> q" and "q' \<le> 1" and "length (concat lats) \<le> 2 ^ 53"
  shows "pct (all_latencies lats) q \<le> pct (all_latencies lats) q'"
proof (cases "concat lats = []")
  case False
  let ?all = "all_latencies lats"
  let ?n = "length (concat lats)"
  note s = all_latencies_simps [of lats]
  have n: "0 < ?n" using False by (simp only: length_greater_0_conv not_False_eq_True)
  then have ne: "?all \<noteq> []" using s(1) by (metis length_greater_0_conv)
  have "pct_index q' ?n < length ?all"
    unfolding s(1) using assms n by (intro pct_index_bounds(1)) (simp_all only: order.trans [of 0 q q'])
  from sorted_nth_mono [OF s(2) pct_index_mono [OF assms(1)] this] ne show ?thesis
    by (simp only: pct_def if_False s(1))
next
  case True
  show ?thesis unfolding pct_def all_latencies_def True by simp
qed

text \<open>
  The percentiles of the report are order statistics of the measured latencies, in spite of
  the floating-point index: \<open>x\<close> is one of the latencies, and there is a position \<open>i\<close>, within one of
  \<open>q * (n - 1)\<close> up to the rounding of a \<open>double\<close>, such that at least \<open>i + 1\<close> latencies are not above
  \<open>x\<close> and at least \<open>n - i\<close> not below.
\<close>

definition order_statistic :: "rat \<Rightarrow> u64 list list \<Rightarrow> u64 \<Rightarrow> bool" where
  "order_statistic q lats x \<longleftrightarrow> x \<in> set (concat lats) \<and>
     (\<exists>i < length (concat lats). of_nat i \<le> q * of_nat (length (concat lats) - 1) * (1 + 1 / 2 ^ 53) \<and>
        q * of_nat (length (concat lats) - 1) * (1 - 1 / 2 ^ 53) < of_nat i + 1 \<and>
        i + 1 \<le> at_most lats x \<and> length (concat lats) - i \<le> at_least lats x)"

lemma percentiles_are_order_statistics:
  assumes "length (concat lats) \<le> 2 ^ 53"
  shows "concat lats = [] \<Longrightarrow> pct (all_latencies lats) q = 0"
    and "q \<in> {q50, q95, q99, q999} \<Longrightarrow> concat lats \<noteq> [] \<Longrightarrow> order_statistic q lats (pct (all_latencies lats) q)"
    and "pct (all_latencies lats) q50 \<le> pct (all_latencies lats) q95"
    and "pct (all_latencies lats) q95 \<le> pct (all_latencies lats) q99"
    and "pct (all_latencies lats) q99 \<le> pct (all_latencies lats) q999"
proof -
  show "pct (all_latencies lats) q = 0" if "concat lats = []"
    unfolding pct_def all_latencies_def that by simp
  show "order_statistic q lats (pct (all_latencies lats) q)" if "q \<in> {q50, q95, q99, q999}" and ne: "concat lats \<noteq> []"
  proof -
    from that literals have q: "0 \<le> q" "q \<le> 1" by auto
    from ne have "0 < length (concat lats)" by simp
    from pct_index_bounds [OF q this assms] pct_rank [OF q ne assms] show ?thesis
      unfolding order_statistic_def by blast
  qed
qed (use literals assms in \<open>auto intro: pct_mono\<close>)

end
