(* ===== verification/Bench_Run.thy ===== *)
theory Bench_Run
  imports Bench_Report
begin

text \<open>
  The function \<open>main\<close> of \<open>src/bench/load.cpp\<close>: its early exits, the plan it makes of the options, and
  the client threads together. A thread's effect on the others is the sequence of its atomic
  increments; a run is an interleaving of these sequences.
\<close>

section \<open>Before the clients\<close>

text \<open>
  How \<open>main\<close> can end: with an exit code; with \<open>std::terminate\<close>, when an exception is not caught or a
  joinable \<open>std::thread\<close> is destroyed; with the trap of an integer division by zero.
\<close>

datatype bench_end = BenchExit nat | BenchTerminate | BenchTrap

text \<open>Returning from \<open>main\<close> destroys the \<open>EchoBackend\<close>, which has no destructor that joins its thread.\<close>

definition leave_main :: "bool \<Rightarrow> nat \<Rightarrow> bench_end" where
  "leave_main thread_joinable code = (if thread_joinable then BenchTerminate else BenchExit code)"

text \<open>
  From the options to the port the clients dial. A negative number of router threads is a
  \<open>std::length_error\<close> of the pool's vector of threads.
\<close>

definition bench_setup ::
    "'e os \<Rightarrow> ('a, 'e) netdb \<Rightarrow> 'e epoll \<Rightarrow> endian \<Rightarrow> bench_args \<Rightarrow> 'e world \<Rightarrow> ((bench_end + u16) \<times> 'e world) option"
    where
  "bench_setup os nd ep e a w =
     (if spawn_inproc a then do {
        (ok, l, p, w1) \<leftarrow> bench_backend_start os nd ep e w;
        if \<not> ok then Some (Inl (leave_main False 1), w1)
        else if router_threads a < 0 then Some (Inl BenchTerminate, w1)
        else do {
          (started, acc, w2) \<leftarrow> acceptor_start os nd ep (new_acceptor bench_acceptor_options) w1;
          if \<not> started then Some (Inl (leave_main True 1), w2)
          else Some (Inr (bound_port e ep acc w2), w2)
        }
      }
      else if bench_port a = 0 then Some (Inl (leave_main False 2), w)
      else Some (Inr (bench_port a), w))"

text \<open>
  The threads and what each does: a number of requests, or the number \<open>per_thread_requests\<close> of the legacy
  loop. A negative number of threads is a \<open>std::length_error\<close> of the vector of latencies, a negative
  size of the payload or number of requests one in the first thread.
\<close>

datatype bench_plan = Clients nat nat | Legacy nat int

definition n_workers :: "bench_args \<Rightarrow> int" where
  "n_workers a = (if clients_mode a then clients a else concurrency a)"

definition make_plan :: "bench_args \<Rightarrow> bench_end + bench_plan" where
  "make_plan a =
     (if n_workers a < 0 then Inl BenchTerminate
      else case per_thread_requests a of
        None \<Rightarrow> Inl BenchTrap
      | Some per \<Rightarrow>
          if 0 < n_workers a \<and> (payload_bytes a < 0 \<or> clients_mode a \<and> reqs_per_client a < 0) then Inl BenchTerminate
          else Inr (if clients_mode a then Clients (nat (n_workers a)) (nat (reqs_per_client a))
               else Legacy (nat (n_workers a)) per))"

text \<open>
  The threads of the clients' mode. Their stack is at least \<open>PTHREAD_STACK_MIN\<close> bytes; \<open>create i\<close> is
  whether the \<open>i\<close>-th \<open>pthread_create\<close> succeeds, and after the first that fails no more are made.
\<close>

definition client_stack_bytes :: "u64 \<Rightarrow> bench_args \<Rightarrow> u64" where
  "client_stack_bytes stack_min a =
     (let stack_bytes = of_int (client_stack_kb a) * 1024 in
      if stack_bytes < stack_min then stack_min else stack_bytes)"

function spawn_loop :: "(nat \<Rightarrow> bool) \<Rightarrow> nat \<Rightarrow> nat \<Rightarrow> nat \<Rightarrow> nat" where
  "spawn_loop create n i made =
     (if i < n then (if create i then spawn_loop create n (i + 1) (made + 1) else made) else made)"
  by pat_completeness auto
termination by (relation "measure (\<lambda>(create, n, i, made). n - i)") auto

declare spawn_loop.simps [simp del]

definition spawned :: "(nat \<Rightarrow> bool) \<Rightarrow> nat \<Rightarrow> nat" where
  "spawned create n = spawn_loop create n 0 0"

section \<open>The threads\<close>

text \<open>The increment by the thread \<open>i\<close>; a latency goes to the thread's own list.\<close>

fun apply_op :: "nat \<Rightarrow> count_op \<Rightarrow> bench_outcome \<Rightarrow> bench_outcome" where
  "apply_op i OpConnect r = r\<lparr>o_connects := o_connects r + 1\<rparr>"
| "apply_op i OpConnectFailed r = r\<lparr>o_connect_failed := o_connect_failed r + 1\<rparr>"
| "apply_op i OpErr r = r\<lparr>o_err := o_err r + 1\<rparr>"
| "apply_op i (OpOk us) r = r\<lparr>o_ok := o_ok r + 1, o_lat := (o_lat r)[i := o_lat r ! i @ [us]]\<rparr>"

record bench_run =
  to_do :: "count_op list list"
  outcome :: bench_outcome

definition bench_init :: "count_op list list \<Rightarrow> bench_run" where
  "bench_init progs = \<lparr>to_do = progs, outcome = \<lparr>o_ok = 0, o_err = 0, o_connects = 0, o_connect_failed = 0,
     o_lat = replicate (length progs) [], o_total_ms = 0\<rparr>\<rparr>"

inductive bench_step :: "bench_run \<Rightarrow> nat \<Rightarrow> bench_run \<Rightarrow> bool" where
  thread_counts: "i < length (to_do s) \<Longrightarrow> to_do s ! i = op # rest \<Longrightarrow>
    bench_step s i (s\<lparr>to_do := (to_do s)[i := rest], outcome := apply_op i op (outcome s)\<rparr>)"

text \<open>The threads have been joined.\<close>

definition joined :: "bench_run \<Rightarrow> bool" where
  "joined s \<longleftrightarrow> list_all (\<lambda>ops. ops = []) (to_do s)"

section \<open>What a run adds up to\<close>

fun latency_of :: "count_op \<Rightarrow> u64 option" where
  "latency_of (OpOk us) = Some us"
| "latency_of _ = None"

definition latencies :: "count_op list \<Rightarrow> u64 list" where
  "latencies ops = List.map_filter latency_of ops"

lemma latencies_simps [simp]:
  "latencies [] = []" "latencies (OpOk us # ops) = us # latencies ops" "latencies (OpErr # ops) = latencies ops"
  "latencies (OpConnect # ops) = latencies ops" "latencies (OpConnectFailed # ops) = latencies ops"
  "latencies (xs @ ys) = latencies xs @ latencies ys"
  by (simp_all add: latencies_def List.map_filter_def)

text \<open>How often an operation is still to come.\<close>

definition pending_ops :: "(count_op \<Rightarrow> bool) \<Rightarrow> bench_run \<Rightarrow> nat" where
  "pending_ops P s = sum_list (map (\<lambda>ops. length (filter P ops)) (to_do s))"

lemma pending_ops_step:
  assumes "i < length (to_do s)" and "to_do s ! i = op # rest"
  shows "pending_ops P s = pending_ops P (s\<lparr>to_do := (to_do s)[i := rest], outcome := r\<rparr>) + (if P op then 1 else 0)"
proof -
  let ?f = "\<lambda>ops. length (filter P ops)"
  have "sum_list ((map ?f (to_do s))[i := ?f rest]) + map ?f (to_do s) ! i = sum_list (map ?f (to_do s)) + ?f rest"
    using assms(1) by (intro sum_list_update_add) simp
  with assms show ?thesis by (cases "P op") (simp_all add: pending_ops_def map_update)
qed

fun is_ok :: "count_op \<Rightarrow> bool" where
  "is_ok (OpOk us) = True"
| "is_ok _ = False"

text \<open>The counters and what is still to come, together, do not change.\<close>

definition books :: "bench_run \<Rightarrow> u64 list" where
  "books s = [o_ok (outcome s) + of_nat (pending_ops is_ok s), o_err (outcome s) + of_nat (pending_ops (\<lambda>op. op = OpErr) s),
     o_connects (outcome s) + of_nat (pending_ops (\<lambda>op. op = OpConnect) s),
     o_connect_failed (outcome s) + of_nat (pending_ops (\<lambda>op. op = OpConnectFailed) s)]"

definition thread_latencies :: "bench_run \<Rightarrow> u64 list list" where
  "thread_latencies s = map2 (\<lambda>l ops. l @ latencies ops) (o_lat (outcome s)) (to_do s)"

lemma bench_step_keeps:
  assumes "bench_step s i t" and "length (o_lat (outcome s)) = length (to_do s)"
  shows "books t = books s \<and> thread_latencies t = thread_latencies s \<and> length (to_do t) = length (to_do s) \<and>
    length (o_lat (outcome t)) = length (o_lat (outcome s))"
  using assms(1)
proof cases
  case (thread_counts op rest)
  note p = pending_ops_step [OF thread_counts(2,3), of _ "apply_op i op (outcome s)"]
  have "books t = books s"
    unfolding thread_counts(1) books_def p [of is_ok] p [of "\<lambda>op. op = OpErr"] p [of "\<lambda>op. op = OpConnect"]
      p [of "\<lambda>op. op = OpConnectFailed"]
    by (cases op) (simp_all add: algebra_simps)
  moreover have "thread_latencies t = thread_latencies s"
  proof (rule nth_equalityI)
    show "length (thread_latencies t) = length (thread_latencies s)"
      unfolding thread_counts(1) thread_latencies_def by (cases op) simp_all
    fix j assume "j < length (thread_latencies t)"
    then have "j < length (to_do s)" "j < length (o_lat (outcome s))"
      unfolding thread_counts(1) thread_latencies_def by (cases op; simp)+
    with thread_counts(2,3) assms(2) show "thread_latencies t ! j = thread_latencies s ! j"
      unfolding thread_counts(1) thread_latencies_def by (cases op) (auto simp: nth_list_update)
  qed
  moreover have "length (to_do t) = length (to_do s)" "length (o_lat (outcome t)) = length (o_lat (outcome s))"
    unfolding thread_counts(1) by (cases op; simp)+
  ultimately show ?thesis by simp
qed

interpretation bench_inv: machine_invariant bench_step
  "\<lambda>s. books s = b \<and> thread_latencies s = l \<and> length (to_do s) = n \<and> length (o_lat (outcome s)) = n" for b l n
  by unfold_locales (auto dest: bench_step_keeps)

lemma joined_pending: "joined s \<Longrightarrow> pending_ops P s = 0"
  by (auto simp: joined_def pending_ops_def list_all_iff sum_list_eq_0_iff)

lemma joined_latencies:
  assumes "joined s" and "length (o_lat (outcome s)) = length (to_do s)"
  shows "thread_latencies s = o_lat (outcome s)"
proof (rule nth_equalityI)
  show "length (thread_latencies s) = length (o_lat (outcome s))" using assms(2) by (simp add: thread_latencies_def)
  fix j assume "j < length (thread_latencies s)"
  with assms(2) have j: "j < length (to_do s)" "j < length (o_lat (outcome s))" by (simp_all add: thread_latencies_def)
  with assms(1) have "to_do s ! j = []" by (auto simp: joined_def list_all_iff)
  with j show "thread_latencies s ! j = o_lat (outcome s) ! j" by (simp add: thread_latencies_def)
qed

lemma pending_init: "pending_ops P (bench_init progs) = (\<Sum>ops\<leftarrow>progs. length (filter P ops))"
  by (simp add: pending_ops_def bench_init_def)

lemma outcome_init: "outcome (bench_init progs) = \<lparr>o_ok = 0, o_err = 0, o_connects = 0, o_connect_failed = 0,
    o_lat = replicate (length progs) [], o_total_ms = 0\<rparr>"
  by (simp add: bench_init_def)

text \<open>The whole outcome is determined by what the threads do, whatever the schedule.\<close>

lemma run_outcome:
  assumes "runs bench_step (bench_init progs) acts s" and "joined s"
  shows "o_ok (outcome s) = of_nat (\<Sum>ops\<leftarrow>progs. length (filter is_ok ops))"
    and "o_err (outcome s) = of_nat (\<Sum>ops\<leftarrow>progs. length (filter (\<lambda>op. op = OpErr) ops))"
    and "o_connects (outcome s) = of_nat (\<Sum>ops\<leftarrow>progs. length (filter (\<lambda>op. op = OpConnect) ops))"
    and "o_connect_failed (outcome s) = of_nat (\<Sum>ops\<leftarrow>progs. length (filter (\<lambda>op. op = OpConnectFailed) ops))"
    and "o_lat (outcome s) = map latencies progs"
proof -
  let ?s0 = "bench_init progs"
  have "thread_latencies ?s0 = map latencies progs"
    by (rule nth_equalityI) (simp_all add: thread_latencies_def bench_init_def)
  moreover have "length (to_do ?s0) = length progs" "length (o_lat (outcome ?s0)) = length progs" by (simp_all add: bench_init_def)
  ultimately have k: "books s = books ?s0" "thread_latencies s = map latencies progs"
    "length (to_do s) = length progs" "length (o_lat (outcome s)) = length progs"
    using bench_inv.ok_runs [OF assms(1), of "books ?s0" "map latencies progs" "length progs"] by simp_all
  from k(1) show "o_ok (outcome s) = of_nat (\<Sum>ops\<leftarrow>progs. length (filter is_ok ops))"
    "o_err (outcome s) = of_nat (\<Sum>ops\<leftarrow>progs. length (filter (\<lambda>op. op = OpErr) ops))"
    "o_connects (outcome s) = of_nat (\<Sum>ops\<leftarrow>progs. length (filter (\<lambda>op. op = OpConnect) ops))"
    "o_connect_failed (outcome s) = of_nat (\<Sum>ops\<leftarrow>progs. length (filter (\<lambda>op. op = OpConnectFailed) ops))"
    by (simp_all add: books_def joined_pending [OF assms(2)] pending_init outcome_init)
  from k joined_latencies [OF assms(2)] show "o_lat (outcome s) = map latencies progs" by simp
qed

lemma client_ops_counts:
  "client_ops n ops \<Longrightarrow> length (filter is_ok ops) + length (filter (\<lambda>op. op = OpErr) ops) = n \<and>
     length (filter (\<lambda>op. op = OpConnect) ops) + length (filter (\<lambda>op. op = OpConnectFailed) ops) = n \<and>
     length (latencies ops) = length (filter is_ok ops)"
  by (induction rule: client_ops.induct) (auto elim!: request_ops.cases)

text \<open>
  What a thread of a plan can have done: in the clients' mode it was not created, or ran \<open>run_client\<close>;
  in the legacy mode it ran the loop.
\<close>

definition thread_ran ::
    "'e os \<Rightarrow> ('a, 'e) netdb \<Rightarrow> endian \<Rightarrow> bench_plan \<Rightarrow> count_op list \<Rightarrow> bool" where
  "thread_ran os nd e plan ops =
     (case plan of
        Clients n reqs \<Rightarrow> ops = [] \<or> (\<exists>h p payload w w'. run_client os nd e h p payload reqs w = Some (ops, w'))
      | Legacy n per \<Rightarrow> \<exists>h p payload dl w w'. legacy_loop os nd e h p payload per dl 0 [] w = Some (ops, w'))"

lemma thread_ran_ops:
  assumes "thread_ran os nd e plan ops"
  shows "\<exists>n. client_ops n ops \<and> (case plan of Clients _ reqs \<Rightarrow> n = (if ops = [] then 0 else reqs) | Legacy _ per \<Rightarrow> 0 < per \<longrightarrow> n = nat per)"
proof (cases plan)
  case (Clients m reqs)
  have "client_ops 0 []" by (rule no_requests)
  with assms Clients show ?thesis by (auto simp: thread_ran_def dest: run_client_ops)
next
  case (Legacy m per)
  with assms obtain h p payload dl w w' where "legacy_loop os nd e h p payload per dl 0 [] w = Some (ops, w')"
    by (auto simp: thread_ran_def)
  from legacy_loop_ops [OF this] show ?thesis by (auto simp: Legacy no_requests)
qed

text \<open>
  What the threads of a plan have done together: the clients that were created have run, the others
  have done nothing.
\<close>

definition threads_ran ::
    "'e os \<Rightarrow> ('a, 'e) netdb \<Rightarrow> endian \<Rightarrow> (nat \<Rightarrow> bool) \<Rightarrow> bench_plan \<Rightarrow> count_op list list \<Rightarrow> bool" where
  "threads_ran os nd e create plan progs =
     (case plan of
        Clients n reqs \<Rightarrow> length progs = n \<and>
          (\<forall>i < n. if i < spawned create n
             then \<exists>h p payload w w'. run_client os nd e h p payload reqs w = Some (progs ! i, w')
             else progs ! i = [])
      | Legacy n per \<Rightarrow> length progs = n \<and> list_all (thread_ran os nd e plan) progs)"

lemma spawn_loop_counts: "spawn_loop create n i made = made + length (takeWhile create [i..<n])"
  by (induction create n i made rule: spawn_loop.induct) (subst spawn_loop.simps, simp add: upt_conv_Cons)

lemma spawned_le: "spawned create n \<le> n"
  using length_takeWhile_le [of create "[0..<n]"] by (simp add: spawned_def spawn_loop_counts)

lemma threads_ran_each:
  assumes "threads_ran os nd e create plan progs"
  shows "list_all (thread_ran os nd e plan) progs"
proof (cases plan)
  case (Clients n reqs)
  with assms have *: "length progs = n" "i < n \<Longrightarrow> if i < spawned create n
      then \<exists>h p payload w w'. run_client os nd e h p payload reqs w = Some (progs ! i, w') else progs ! i = []" for i
    by (auto simp: threads_ran_def)
  have "thread_ran os nd e plan (progs ! i)" if "i < length progs" for i
    using *(2) [of i] that *(1) by (auto simp: thread_ran_def Clients split: if_splits)
  then show ?thesis by (simp add: list_all_length)
qed (use assms in \<open>simp add: threads_ran_def\<close>)

text \<open>The requests that the threads of a plan have made, when \<open>progs\<close> is what they did, and the plan.\<close>

definition requests_made :: "count_op list list \<Rightarrow> nat" where
  "requests_made progs = (\<Sum>ops\<leftarrow>progs. length (filter is_ok ops) + length (filter (\<lambda>op. op = OpErr) ops))"

fun planned :: "(nat \<Rightarrow> bool) \<Rightarrow> bench_plan \<Rightarrow> nat" where
  "planned create (Clients n reqs) = reqs * spawned create n"
| "planned create (Legacy n per) = nat per * n"

lemma sum_list_first:
  assumes "\<And>i. i < length xs \<Longrightarrow> f (xs ! i) = (if i < k then c else (0 :: nat))" and "k \<le> length xs"
  shows "sum_list (map f xs) = c * k"
proof -
  have "sum_list (map f xs) = (\<Sum>i = 0..<length xs. if i < k then c else 0)"
    by (simp add: sum_list_sum_nth assms(1))
  also have "\<dots> = (\<Sum>i \<in> {0..<length xs} \<inter> {i. i < k}. c)" by (simp add: sum.If_cases)
  also have "{0..<length xs} \<inter> {i. i < k} = {0..<k}" using assms(2) by auto
  finally show ?thesis by simp
qed

lemma requests_made_planned:
  assumes "threads_ran os nd e create plan progs" and "case plan of Clients n reqs \<Rightarrow> True | Legacy n per \<Rightarrow> 0 < per"
  shows "requests_made progs = planned create plan"
proof (cases plan)
  case (Clients n reqs)
  let ?f = "\<lambda>ops. length (filter is_ok ops) + length (filter (\<lambda>op. op = OpErr) ops)"
  have "?f (progs ! i) = (if i < spawned create n then reqs else 0)" if "i < length progs" for i
  proof (cases "i < spawned create n")
    case True
    with assms(1) that Clients obtain h p payload w w' where
      "run_client os nd e h p payload reqs w = Some (progs ! i, w')" by (fastforce simp: threads_ran_def)
    from client_ops_counts [OF run_client_ops [OF this]] True show ?thesis by simp
  qed (use assms(1) that Clients in \<open>auto simp: threads_ran_def\<close>)
  from sum_list_first [OF this] assms(1) Clients spawned_le [of create n] show ?thesis
    by (simp add: requests_made_def threads_ran_def)
next
  case (Legacy n per)
  have "length (filter is_ok (progs ! i)) + length (filter (\<lambda>op. op = OpErr) (progs ! i)) =
      (if i < length progs then nat per else 0)" if "i < length progs" for i
  proof -
    from that assms(1) Legacy have "thread_ran os nd e plan (progs ! i)"
      by (simp add: threads_ran_def list_all_length)
    from thread_ran_ops [OF this] assms(2) Legacy obtain m where "client_ops m (progs ! i)" "m = nat per" by auto
    with client_ops_counts that show ?thesis by simp
  qed
  from sum_list_first [OF this] assms(1) Legacy show ?thesis by (simp add: requests_made_def threads_ran_def)
qed

lemma threads_connect:
  assumes "list_all (thread_ran os nd e plan) progs"
  shows "(\<Sum>ops\<leftarrow>progs. length (filter (\<lambda>op. op = OpConnect) ops)) + (\<Sum>ops\<leftarrow>progs. length (filter (\<lambda>op. op = OpConnectFailed) ops)) = requests_made progs"
    and "(\<Sum>ops\<leftarrow>progs. length (latencies ops)) = (\<Sum>ops\<leftarrow>progs. length (filter is_ok ops))"
  using assms
proof (induction progs)
  case (Cons ops progs)
  {
    case 1
    from 1 thread_ran_ops [of os nd e plan ops] obtain n where "client_ops n ops" by auto
    from client_ops_counts [OF this] Cons.IH(1) 1 show ?case by (simp add: requests_made_def)
  next
    case 2
    from 2 thread_ran_ops [of os nd e plan ops] obtain n where "client_ops n ops" by auto
    from client_ops_counts [OF this] Cons.IH(2) 2 show ?case by simp
  }
qed (simp_all add: requests_made_def)

text \<open>
  C34: the benchmark's books are right for every schedule and every network. When the threads of a run
  have been joined, \<open>ok\<close> plus \<open>err\<close> and \<open>connects\<close> plus \<open>connect_failed\<close> are the number of requests made:
  the requests per client times the clients created before the first \<open>pthread_create\<close> that failed, or the requests per thread times
  the threads; there is exactly one latency for each \<open>ok\<close>; the latencies of every thread are its own, in
  order; and the percentiles that are reported, computed in floating point, are order statistics of
  exactly these latencies, in order, or zero when there are none.
\<close>

theorem bench_run_accounts:
  assumes "threads_ran os nd e create plan progs" and "runs bench_step (bench_init progs) acts s" and "joined s"
  shows "\<exists>k. k \<le> requests_made progs \<and> o_ok (outcome s) = of_nat k \<and> o_err (outcome s) = of_nat (requests_made progs - k) \<and>
      o_connects (outcome s) + o_connect_failed (outcome s) = of_nat (requests_made progs) \<and>
      length (concat (o_lat (outcome s))) = k \<and> o_lat (outcome s) = map latencies progs \<and>
      (case plan of Clients n reqs \<Rightarrow> requests_made progs = planned create plan
       | Legacy n per \<Rightarrow> 0 < per \<longrightarrow> requests_made progs = planned create plan) \<and>
      (k \<le> 2 ^ 53 \<longrightarrow> (let all = all_latencies (o_lat (outcome s)) in
         (\<forall>q \<in> {q50, q95, q99, q999}.
            if k = 0 then pct all q = 0 else order_statistic q (map latencies progs) (pct all q)) \<and>
         pct all q50 \<le> pct all q95 \<and> pct all q95 \<le> pct all q99 \<and> pct all q99 \<le> pct all q999))"
proof -
  let ?k = "\<Sum>ops\<leftarrow>progs. length (filter is_ok ops)" and ?e = "\<Sum>ops\<leftarrow>progs. length (filter (\<lambda>op. op = OpErr) ops)"
  note o = run_outcome [OF assms(2,3)]
  have N: "requests_made progs = ?k + ?e" by (simp add: requests_made_def sum_list_addf)
  have c: "length (concat (map latencies progs)) = ?k"
    using threads_connect(2) [OF threads_ran_each [OF assms(1)]] by (simp add: length_concat comp_def)
  have p: "?k \<le> 2 ^ 53 \<longrightarrow> (let all = all_latencies (o_lat (outcome s)) in
      (\<forall>q \<in> {q50, q95, q99, q999}.
         if ?k = 0 then pct all q = 0 else order_statistic q (map latencies progs) (pct all q)) \<and>
      pct all q50 \<le> pct all q95 \<and> pct all q95 \<le> pct all q99 \<and> pct all q99 \<le> pct all q999)"
    unfolding o(5) Let_def if_bool_eq_conj
  proof (intro impI conjI ballI)
    assume n: "?k \<le> 2 ^ 53"
    note perc = percentiles_are_order_statistics [of "map latencies progs", unfolded c, OF n]
    show "pct (all_latencies (map latencies progs)) q50 \<le> pct (all_latencies (map latencies progs)) q95"
      "pct (all_latencies (map latencies progs)) q95 \<le> pct (all_latencies (map latencies progs)) q99"
      "pct (all_latencies (map latencies progs)) q99 \<le> pct (all_latencies (map latencies progs)) q999"
      by (rule perc)+
    fix q assume q: "q \<in> {q50, q95, q99, q999}"
    show "pct (all_latencies (map latencies progs)) q = 0" if "?k = 0"
      by (rule perc(1)) (use that c in \<open>simp only: length_0_conv [symmetric]\<close>)
    show "order_statistic q (map latencies progs) (pct (all_latencies (map latencies progs)) q)" if "?k \<noteq> 0"
      by (rule perc(2) [OF q]) (use that c in \<open>metis list.size(3)\<close>)
  qed
  from c have "length (concat (map latencies progs)) = ?k" .
  moreover have "o_connects (outcome s) + o_connect_failed (outcome s) = of_nat (requests_made progs)"
    using threads_connect(1) [OF threads_ran_each [OF assms(1)]] by (simp add: o(3,4) flip: of_nat_add)
  moreover have "case plan of Clients n reqs \<Rightarrow> requests_made progs = planned create plan
      | Legacy n per \<Rightarrow> 0 < per \<longrightarrow> requests_made progs = planned create plan"
    using requests_made_planned [OF assms(1)] by (cases plan) auto
  ultimately show ?thesis using o N p by (intro exI [of _ ?k] conjI) simp_all
qed

theorem bench_run_accounts_witness:
  "\<exists>us s. runs bench_step (bench_init [[OpConnect, OpOk us], []]) [0, 0] s \<and> o_ok (outcome s) = 1 \<and>
     length (concat (o_lat (outcome s))) = 1"
proof -
  obtain us w' where "run_client echo_os echo_nd Little ''h'' 1 [1, 2] 1 (start (\<lambda>_. [])) = Some ([OpConnect, OpOk us], w')"
    using demo_client_runs by blast
  moreover have "spawned (\<lambda>i. i = 0) 2 = 1" by (simp add: spawned_def spawn_loop_counts upt_conv_Cons)
  ultimately have t: "threads_ran echo_os echo_nd Little (\<lambda>i. i = 0) (Clients 2 1) [[OpConnect, OpOk us], []]"
    by (fastforce simp: threads_ran_def less_2_cases_iff)
  let ?s = "\<lparr>to_do = [[], []], outcome = \<lparr>o_ok = 1, o_err = 0, o_connects = 1, o_connect_failed = 0,
    o_lat = [[us], []], o_total_ms = 0\<rparr>\<rparr>"
  have r: "runs bench_step (bench_init [[OpConnect, OpOk us], []]) [0, 0] ?s"
    by (auto simp: runs_Cons_iff bench_step.simps bench_init_def numeral_2_eq_2)
  have "joined ?s" by (simp add: joined_def)
  from bench_run_accounts [OF t r this] r show ?thesis by (intro exI [of _ us] exI [of _ ?s]) auto
qed



end
