(* ===== verification/Regress.thy ===== *)
theory Regress
  imports Bench_Report
begin

text \<open>
  \<open>src/bench/regress.py\<close>: the gate that compares two results of the benchmark. The file system is a
  parameter (\<open>read\<close>: the text of a file, \<open>glob\<close>: the JSON files of a directory), and so is Python's
  conversion of text to \<open>float\<close>, which only a malformed result would need. What the script prints is
  not modelled.
\<close>

section \<open>Reading a result\<close>

text \<open>
  \<open>json.load\<close> for the documents that results are: an object of numbers and of strings without
  escapes. Other documents are not modelled (None).
\<close>

datatype json_value = JNum json_number | JStr string

definition json_space :: "char \<Rightarrow> bool" where
  "json_space c \<longleftrightarrow> c \<in> {CHR '' '', CHR 0x09, CHR 0x0A, CHR 0x0D}"

definition skip_space :: "string \<Rightarrow> string" where "skip_space s = dropWhile json_space s"

definition expect :: "char \<Rightarrow> string \<Rightarrow> string option" where
  "expect c s = (case s of [] \<Rightarrow> None | d # ds \<Rightarrow> if d = c then Some ds else None)"

definition plain_char :: "char \<Rightarrow> bool" where
  "plain_char c \<longleftrightarrow> c \<noteq> CHR 0x22 \<and> c \<noteq> CHR 0x5C \<and> 32 \<le> (of_char c :: nat)"

definition json_string :: "string \<Rightarrow> (string \<times> string) option" where
  "json_string s =
     do {
       s1 \<leftarrow> expect (CHR 0x22) s;
       s2 \<leftarrow> expect (CHR 0x22) (dropWhile plain_char s1);
       Some (takeWhile plain_char s1, s2)
     }"

definition json_scalar :: "string \<Rightarrow> (json_value \<times> string) option" where
  "json_scalar s =
     (if s \<noteq> [] \<and> hd s = CHR 0x22 then map_option (\<lambda>(t, r). (JStr t, r)) (json_string s)
      else map_option (\<lambda>(n, r). (JNum n, r)) (json_number s))"

text \<open>The members up to the closing brace; every member takes a character, so the length of the text is enough fuel.\<close>

fun json_members :: "nat \<Rightarrow> string \<Rightarrow> ((string \<times> json_value) list \<times> string) option" where
  "json_members 0 s = None"
| "json_members (Suc n) s =
     do {
       (k, s1) \<leftarrow> json_string s;
       s2 \<leftarrow> expect (CHR '':'') (skip_space s1);
       (v, s3) \<leftarrow> json_scalar (skip_space s2);
       (case skip_space s3 of
          [] \<Rightarrow> None
        | c # s4 \<Rightarrow>
            if c = CHR ''}'' then Some ([(k, v)], s4)
            else if c = CHR '','' then do { (ms, r) \<leftarrow> json_members n (skip_space s4); Some ((k, v) # ms, r) }
            else None)
     }"

definition json_load :: "string \<Rightarrow> (string \<times> json_value) list option" where
  "json_load s =
     do {
       s1 \<leftarrow> expect (CHR ''{'') (skip_space s);
       (case skip_space s1 of
          [] \<Rightarrow> None
        | c # cs \<Rightarrow>
            if c = CHR ''}'' then (if skip_space cs = [] then Some [] else None)
            else do {
              (ms, r) \<leftarrow> json_members (length s) (c # cs);
              (if skip_space r = [] then Some ms else None)
            })
     }"

definition load :: "(string \<Rightarrow> string option) \<Rightarrow> string \<Rightarrow> (string \<times> json_value) list option" where
  "load read path = Option.bind (read path) json_load"

text \<open>\<open>dict.get (key, 0)\<close>; of equal keys the last counts.\<close>

definition get0 :: "(string \<times> json_value) list \<Rightarrow> string \<Rightarrow> json_value" where
  "get0 d k = (case map_of (rev d) k of None \<Rightarrow> JNum (JInt 0) | Some v \<Rightarrow> v)"

section \<open>The gate\<close>

record regress_args =
  baseline :: string
  candidate :: "string option"
  candidate_latest :: bool
  results_dir :: string
  threshold :: rat

definition default_threshold :: rat where "default_threshold = fl (30 / 100)"

datatype regress_failure = Throughput_regressed rat | P99_regressed rat

text \<open>\<open>float(v)\<close>; \<open>f"{v:.1f}"\<close> raises for a string.\<close>

fun to_float :: "(string \<Rightarrow> rat option) \<Rightarrow> json_value \<Rightarrow> rat option" where
  "to_float str_float (JNum n) = Some (py_float n)"
| "to_float str_float (JStr s) = str_float s"

fun check_format :: "json_value \<Rightarrow> unit option" where
  "check_format (JNum n) = Some ()"
| "check_format (JStr s) = None"

definition failures_of :: "rat \<Rightarrow> rat \<Rightarrow> rat \<Rightarrow> rat \<Rightarrow> rat \<Rightarrow> regress_failure list" where
  "failures_of base_tp cand_tp base_p99 cand_p99 t =
     (if 0 < base_tp then
        let tp_drift = fl (fl (base_tp - cand_tp) / base_tp) in
        if t < tp_drift then [Throughput_regressed tp_drift] else []
      else []) @
     (let p99_drift = fl (fl (cand_p99 - base_p99) / base_p99) in
      if t < p99_drift then [P99_regressed p99_drift] else [])"

definition compare_results ::
    "(string \<Rightarrow> rat option) \<Rightarrow> (string \<times> json_value) list \<Rightarrow> (string \<times> json_value) list \<Rightarrow> rat \<Rightarrow> regress_failure list option"
    where
  "compare_results str_float base cand t =
     do {
       check_format (get0 base ''throughput_rps'');
       check_format (get0 cand ''throughput_rps'');
       base_tp \<leftarrow> to_float str_float (get0 base ''throughput_rps'');
       cand_tp \<leftarrow> to_float str_float (get0 cand ''throughput_rps'');
       base_p99 \<leftarrow> to_float str_float (get0 base ''p99_us'');
       cand_p99 \<leftarrow> to_float str_float (get0 cand ''p99_us'');
       Some (failures_of base_tp cand_tp (if base_p99 = 0 then 1 else base_p99) cand_p99 t)
     }"

definition find_latest :: "(string \<Rightarrow> string list) \<Rightarrow> string \<Rightarrow> string option" where
  "find_latest glob dir = (let candidates = sort (glob dir) in if candidates = [] then None else Some (last candidates))"

text \<open>The exit code, a usage error of \<open>argparse\<close> (which also exits), or an exception.\<close>

datatype regress_end = Returned nat | UsageError | Raised

definition regress_main ::
    "(string \<Rightarrow> string option) \<Rightarrow> (string \<Rightarrow> string list) \<Rightarrow> (string \<Rightarrow> rat option) \<Rightarrow> regress_args \<Rightarrow> regress_end"
    where
  "regress_main read glob str_float args =
     (let given = (case candidate args of None \<Rightarrow> None | Some p \<Rightarrow> if p = [] then None else Some p) in
      if given = None \<and> \<not> candidate_latest args then UsageError
      else case (case given of Some p \<Rightarrow> Some p | None \<Rightarrow> find_latest glob (results_dir args)) of
        None \<Rightarrow> Returned 2
      | Some cand_path \<Rightarrow>
          (case do {
              base \<leftarrow> load read (baseline args);
              cand \<leftarrow> load read cand_path;
              compare_results str_float base cand (threshold args)
            } of
             None \<Rightarrow> Raised
           | Some failures \<Rightarrow> Returned (if failures \<noteq> [] then 1 else 0)))"

section \<open>A result file is read back\<close>

text \<open>\<open>reads v x\<close>: the text \<open>v\<close> is the value \<open>x\<close>, wherever it stands.\<close>

definition reads :: "string \<Rightarrow> json_value \<Rightarrow> bool" where
  "reads v x \<longleftrightarrow> (\<forall>rest. ends_number rest \<longrightarrow> json_scalar (v @ rest) = Some (x, rest)) \<and> v \<noteq> [] \<and> \<not> json_space (hd v)"

lemma number_hd:
  assumes "int_part ip"
  shows "hd ip \<noteq> CHR 0x22" "\<not> json_space (hd ip)"
  using assms by (cases ip; auto simp: int_part_def is_digit_def json_space_def)+

lemma json_string_quoted:
  assumes "list_all plain_char t"
  shows "json_string (quoted t @ rest) = Some (t, rest)"
proof -
  have "takeWhile plain_char (t @ CHR 0x22 # rest) = t" "dropWhile plain_char (t @ CHR 0x22 # rest) = CHR 0x22 # rest"
    using assms by (simp_all add: list_all_iff takeWhile_append2 dropWhile_append2 plain_char_def)
  then show ?thesis by (simp add: json_string_def quoted_def expect_def)
qed

lemma reads_quoted: "list_all plain_char t \<Longrightarrow> reads (quoted t) (JStr t)"
  using json_string_quoted by (simp add: reads_def json_scalar_def quoted_def json_space_def)

lemma int_part_show_nat: "int_part (show_nat n)"
proof (cases "n = 0")
  case True
  then show ?thesis by (simp add: int_part_def show_nat.simps [of 0] digit_char_def is_digit_def)
next
  case False
  then show ?thesis using show_nat_hd [of n] is_digit_show_nat by (simp add: int_part_def)
qed

lemma readsI:
  assumes "\<And>rest. ends_number rest \<Longrightarrow> json_number (v @ rest) = Some (x, rest)"
    and "v \<noteq> []" and "hd v \<noteq> CHR 0x22" and "\<not> json_space (hd v)"
  shows "reads v (JNum x)"
  using assms by (auto simp: reads_def json_scalar_def)

lemma reads_nat: "reads (show_nat n) (JNum (JInt (int n)))"
proof (rule readsI)
  show "json_number (show_nat n @ rest) = Some (JInt (int n), rest)" if "ends_number rest" for rest
    using json_number_shapes(1) [OF int_part_show_nat _ that, of "[]"] by (simp add: digits_value_show_nat)
qed (use number_hd [OF int_part_show_nat, of n] in simp_all)

lemma json_number_minus:
  assumes "int_part ip" and "ends_number rest"
  shows "json_number (''-'' @ ip @ rest) = Some (JInt (- int (digits_value 0 ip)), rest)"
proof -
  have r: "rest = [] \<or> \<not> is_digit (hd rest)" "rest = [] \<or> hd rest \<noteq> CHR ''.''"
    "rest = [] \<or> hd rest \<notin> {CHR ''e'', CHR ''E''}"
    using assms(2) by (cases rest; simp add: ends_number_def)+
  have "ip \<noteq> []" using assms(1) by (simp add: int_part_def)
  with split_int_append [OF assms(1) r(1)] split_fraction_none [OF r(2)] split_exponent_none [OF r(3)] show ?thesis
    by (simp add: json_number_def)
qed

lemma reads_int: "reads (show_int n) (JNum (JInt n))"
proof (cases "n < 0")
  case True
  show ?thesis
  proof (rule readsI)
    show "json_number (show_int n @ rest) = Some (JInt n, rest)" if "ends_number rest" for rest
      using json_number_minus [OF int_part_show_nat that, of "nat (- n)"] True
      by (simp add: show_int_def digits_value_show_nat)
  qed (use True in \<open>simp_all add: show_int_def json_space_def\<close>)
next
  case False
  then show ?thesis using reads_nat [of "nat n"] by (simp add: show_int_def)
qed

lemma point_hd:
  assumes "int_part ip"
  shows "point ip fp @ r \<noteq> []" "hd (point ip fp @ r) \<noteq> CHR 0x22" "\<not> json_space (hd (point ip fp @ r))"
  using assms number_hd [OF assms] by (cases ip; auto simp: point_def int_part_def)+

lemma show_g_hd:
  assumes "0 \<le> x"
  shows "show_g x \<noteq> [] \<and> hd (show_g x) \<noteq> CHR 0x22 \<and> \<not> json_space (hd (show_g x))"
proof (cases "x = 0")
  case True
  then show ?thesis by (simp add: show_g_def json_space_def)
next
  case False
  with assms have x: "0 < x" by simp
  obtain m k where mk: "six_digits x = (m, k)" by fastforce
  note b = six_digits_bounds [OF x mk]
  have z: "int_part ''0''" by (simp add: int_part_def is_digit_def)
  have ip: "int_part (take (nat k + 1) (show_nat m))" "int_part (take 1 (show_nat m))"
    using six_digit_text(1) [of m] b by simp_all
  note h = point_hd [OF z, where r = "[]"] point_hd [OF ip(1), where r = "[]"] point_hd [OF ip(2)]
  then show ?thesis using False by (simp add: show_g_def mk Let_def)
qed

lemma reads_g:
  assumes "0 \<le> x"
  obtains n where "reads (show_g x) (JNum n)" and "py_float n = fl (six_value x)"
proof -
  from show_g_read [OF assms] obtain v where v: "number_text (show_g x) v" "py_float v = fl (six_value x)" by blast
  from v(1) have "reads (show_g x) (JNum v)"
    using show_g_hd [OF assms] by (intro readsI) (auto simp: number_text_def)
  from that [OF this v(2)] show ?thesis .
qed

text \<open>The members of a printed object come back in order.\<close>

definition member_reads :: "string \<times> string \<Rightarrow> string \<times> json_value \<Rightarrow> bool" where
  "member_reads m x \<longleftrightarrow> fst m = fst x \<and> list_all plain_char (fst m) \<and> reads (snd m) (snd x)"

lemma skip_space_simps [simp]:
  "json_space c \<Longrightarrow> skip_space (c # s) = skip_space s" "\<not> json_space c \<Longrightarrow> skip_space (c # s) = c # s" "skip_space [] = []"
  by (simp_all add: skip_space_def)

lemma json_space_simps [simp]: "json_space (CHR '' '')" "json_space (CHR 0x0A)" "\<not> json_space (CHR '':'')"
  "\<not> json_space (CHR '','')" "\<not> json_space (CHR ''{'')" "\<not> json_space (CHR ''}'')" "\<not> json_space (CHR 0x22)"
  by (simp_all add: json_space_def)

lemma json_members_printed:
  "list_all2 member_reads ms xs \<Longrightarrow> ms \<noteq> [] \<Longrightarrow> length ms \<le> n \<Longrightarrow>
     json_members n (skip_space (member_lines ms @ ''}'' @ rest)) = Some (xs, rest)"
proof (induction ms xs arbitrary: n rule: list_all2_induct)
  case (Cons m ms x xs)
  obtain k v where m: "m = (k, v)" by fastforce
  obtain y where x: "x = (k, y)" and k: "list_all plain_char k" and v: "reads v y"
    using Cons.hyps(1) by (cases x) (auto simp: member_reads_def m)
  obtain n' where n: "n = Suc n'" using Cons.prems(2) by (cases n) auto
  let ?tail = "(if ms = [] then [] else '','') @ [CHR 0x0A] @ member_lines ms @ ''}'' @ rest"
  have "ends_number ?tail" by (simp add: ends_number_def is_digit_def)
  with v have "json_scalar (v @ ?tail) = Some (y, ?tail)" by (simp only: reads_def)
  moreover have "skip_space (CHR '' '' # v @ ?tail) = v @ ?tail"
    using v by (cases v) (simp_all add: reads_def)
  moreover have "skip_space (member_lines ((k, v) # ms) @ ''}'' @ rest) = quoted k @ '':'' @ CHR '' '' # v @ ?tail"
    by (simp add: quoted_def)
  moreover note json_string_quoted [OF k, of "'':'' @ CHR '' '' # v @ ?tail"]
  ultimately have step: "json_members n (skip_space (member_lines ((k, v) # ms) @ ''}'' @ rest)) =
      (case skip_space ?tail of [] \<Rightarrow> None | c # s4 \<Rightarrow> if c = CHR ''}'' then Some ([(k, y)], s4)
        else if c = CHR '','' then do { (ms, r) \<leftarrow> json_members n' (skip_space s4); Some ((k, y) # ms, r) } else None)"
    by (simp only: n json_members.simps Option.bind.bind_lunit prod.case)
      (simp add: expect_def)
  show ?case
  proof (cases "ms = []")
    case True
    with Cons.hyps(2) show ?thesis unfolding m step x by simp
  next
    case False
    with Cons.IH [of n'] Cons.prems n show ?thesis unfolding m step x by simp
  qed
qed simp

lemma length_member_lines: "length ms \<le> length (member_lines ms)"
  by (induction ms rule: member_lines.induct) auto

lemma json_load_printed:
  assumes "list_all2 member_reads ms xs" and "ms \<noteq> []"
  shows "json_load (''{'' @ [CHR 0x0A] @ member_lines ms @ ''}'' @ [CHR 0x0A]) = Some xs"
proof -
  let ?s = "''{'' @ [CHR 0x0A] @ member_lines ms @ ''}'' @ [CHR 0x0A]"
  have "length ms \<le> length ?s" using length_member_lines [of ms] by simp
  from json_members_printed [OF assms this, of "[CHR 0x0A]"]
  have "json_members (length ?s) (skip_space (member_lines ms @ ''}'' @ [CHR 0x0A])) = Some (xs, [CHR 0x0A])" .
  moreover obtain cs where "skip_space (member_lines ms @ ''}'' @ [CHR 0x0A]) = CHR 0x22 # cs"
    using assms(2) by (cases ms) (auto simp: quoted_def)
  ultimately show ?thesis by (simp add: json_load_def expect_def del: json_members.simps)
qed

lemma rate_nonneg: "0 \<le> rate n ms"
  unfolding rate_def by (auto intro!: fl_nonneg divide_nonneg_nonneg mult_nonneg_nonneg simp del: of_nat_unat)

text \<open>What the script sees of a result.\<close>

definition seen_rate :: "bench_outcome \<Rightarrow> rat" where
  "seen_rate r = fl (six_value (rate (o_ok r) (o_total_ms r)))"

definition p99_of :: "bench_outcome \<Rightarrow> u64" where
  "p99_of r = pct (all_latencies (o_lat r)) q99"

lemma result_file_loads:
  "\<exists>d n. json_load (result_file a r) = Some d \<and> get0 d ''throughput_rps'' = JNum n \<and> py_float n = seen_rate r \<and>
     get0 d ''p99_us'' = JNum (JInt (int (unat (p99_of r))))"
proof -
  obtain n1 where n1: "reads (show_g (rate (o_ok r) (o_total_ms r))) (JNum n1)" "py_float n1 = seen_rate r"
    using reads_g [OF rate_nonneg] unfolding seen_rate_def by blast
  obtain n2 where n2: "reads (show_g (rate (o_connects r) (o_total_ms r))) (JNum n2)"
    using reads_g [OF rate_nonneg] by blast
  define u where "u = (\<lambda>x :: u64. JNum (JInt (int (unat x))))"
  define i where "i = (\<lambda>x. JNum (JInt x))"
  have ru: "reads (show_u64 x) (u x)" for x using reads_nat [of "unat x"] by (simp add: show_u64_def u_def)
  have ri: "reads (show_int x) (i x)" for x using reads_int by (simp add: i_def)
  have rq: "reads (quoted ''inference-router.bench.v2'') (JStr ''inference-router.bench.v2'')"
    "reads (quoted ''clients'') (JStr ''clients'')" "reads (quoted ''legacy'') (JStr ''legacy'')"
    by (intro reads_quoted; simp add: plain_char_def)+
  let ?all = "all_latencies (o_lat r)"
  let ?d = "[(''schema'', JStr ''inference-router.bench.v2''), (''mode'', JStr (if clients_mode a then ''clients'' else ''legacy'')),
    (''ok'', u (o_ok r)), (''err'', u (o_err r)), (''connects'', u (o_connects r)), (''connect_failed'', u (o_connect_failed r)),
    (''total_ms'', i (o_total_ms r)), (''throughput_rps'', JNum n1), (''connect_rate_per_s'', JNum n2),
    (''p50_us'', u (pct ?all q50)), (''p95_us'', u (pct ?all q95)), (''p99_us'', u (pct ?all q99)), (''p999_us'', u (pct ?all q999)),
    (''concurrency'', i (concurrency a)), (''clients'', i (clients a)), (''reqs_per_client'', i (reqs_per_client a)),
    (''router_threads'', i (router_threads a)), (''router_pool'', i (router_pool a)), (''payload_bytes'', i (payload_bytes a))]"
  have m: "list_all2 member_reads (result_members a r) ?d"
    by (simp add: result_members_def Let_def member_reads_def n1(1) n2 ru ri rq plain_char_def)
  have "json_load (result_file a r) = Some ?d"
    unfolding result_file_def by (rule json_load_printed [OF m]) (simp add: result_members_def Let_def)
  moreover have "get0 ?d ''throughput_rps'' = JNum n1" "get0 ?d ''p99_us'' = u (p99_of r)"
    by (simp_all add: get0_def p99_of_def)
  ultimately show ?thesis using n1(2) unfolding u_def by blast
qed

section \<open>What the gate decides\<close>

text \<open>Rounding, to the accuracy that matters here.\<close>

lemma fl_within:
  assumes "0 \<le> y"
  shows "999 / 1000 * y \<le> fl y" and "fl y \<le> 1001 / 1000 * y"
proof -
  define d where "d = y / 2 ^ 53"
  have "\<bar>fl y - y\<bar> \<le> d" using fl_error [of y] assms by (simp add: d_def)
  moreover have "d \<le> y / 1000" unfolding d_def using assms by (intro divide_left_mono) simp_all
  ultimately show "999 / 1000 * y \<le> fl y" "fl y \<le> 1001 / 1000 * y" using assms by linarith+
qed

definition drift :: "rat \<Rightarrow> rat \<Rightarrow> rat" where
  "drift x b = fl (fl x / b)"

lemma drift_le:
  assumes "0 < b" and "x \<le> s * b" and "0 \<le> s"
  shows "drift x b \<le> 1001 / 1000 * (1001 / 1000 * s)"
proof -
  have "0 \<le> s * b" using assms(1,3) by simp
  then have "fl x \<le> 1001 / 1000 * (s * b)" using fl_mono [OF assms(2)] fl_within(2) [of "s * b"] by linarith
  then have q: "fl x / b \<le> 1001 / 1000 * s" using assms(1) by (simp add: pos_divide_le_eq)
  have "0 \<le> 1001 / 1000 * s" using assms(3) by simp
  with fl_mono [OF q] fl_within(2) [of "1001 / 1000 * s"] show ?thesis unfolding drift_def by linarith
qed

lemma drift_ge:
  assumes "0 < b" and "s * b \<le> x" and "0 \<le> s"
  shows "999 / 1000 * (999 / 1000 * s) \<le> drift x b"
proof -
  have "0 \<le> s * b" using assms(1,3) by simp
  then have "999 / 1000 * (s * b) \<le> fl x" using fl_mono [OF assms(2)] fl_within(1) [of "s * b"] by linarith
  then have q: "999 / 1000 * s \<le> fl x / b" using assms(1) by (simp add: pos_le_divide_eq)
  have "0 \<le> 999 / 1000 * s" using assms(3) by simp
  with fl_mono [OF q] fl_within(1) [of "999 / 1000 * s"] show ?thesis unfolding drift_def by linarith
qed

lemma threshold_bounds: "2997 / 10000 \<le> default_threshold" "default_threshold \<le> 3003 / 10000"
  using fl_within [of "30 / 100"] by (simp_all add: default_threshold_def)

lemma drift_passes: "0 < b \<Longrightarrow> x \<le> 295 / 1000 * b \<Longrightarrow> \<not> default_threshold < drift x b"
  using drift_le [of b x "295 / 1000"] threshold_bounds by simp

lemma drift_fails: "0 < b \<Longrightarrow> 305 / 1000 * b \<le> x \<Longrightarrow> default_threshold < drift x b"
  using drift_ge [of b "305 / 1000" x] threshold_bounds by simp

lemma failures_of_drift:
  "failures_of bt ct bp cp t =
     (if 0 < bt \<and> t < drift (bt - ct) bt then [Throughput_regressed (drift (bt - ct) bt)] else []) @
     (if t < drift (cp - bp) bp then [P99_regressed (drift (cp - bp) bp)] else [])"
  by (simp add: failures_of_def drift_def)

lemma seen_rate_within:
  "998 / 1000 * rate (o_ok r) (o_total_ms r) \<le> seen_rate r" "seen_rate r \<le> 1002 / 1000 * rate (o_ok r) (o_total_ms r)"
proof -
  let ?x = "rate (o_ok r) (o_total_ms r)"
  have "\<bar>six_value ?x - ?x\<bar> \<le> ?x / 200000"
    using six_value_error [of ?x] six_value_0 rate_nonneg [of "o_ok r" "o_total_ms r"] by (cases "?x = 0") auto
  moreover have "0 \<le> six_value ?x" using six_value_mono [of 0 ?x] rate_nonneg [of "o_ok r" "o_total_ms r"] by (simp add: six_value_0)
  ultimately show "998 / 1000 * ?x \<le> seen_rate r" "seen_rate r \<le> 1002 / 1000 * ?x"
    using fl_within [of "six_value ?x"] rate_nonneg [of "o_ok r" "o_total_ms r"] unfolding seen_rate_def by linarith+
qed

definition seen_p99 :: "bench_outcome \<Rightarrow> rat" where
  "seen_p99 r = fl (of_nat (unat (p99_of r)))"

lemma seen_p99_within:
  "999 / 1000 * of_nat (unat (p99_of r)) \<le> seen_p99 r" "seen_p99 r \<le> 1001 / 1000 * of_nat (unat (p99_of r))"
  using fl_within [of "of_nat (unat (p99_of r))"] by (simp_all add: seen_p99_def del: of_nat_unat)

lemma regress_main_on_results:
  assumes "read p0 = Some (result_file a0 r0)" and "read p1 = Some (result_file a1 r1)" and "p1 \<noteq> []"
  shows "regress_main read glob str_float \<lparr>baseline = p0, candidate = Some p1, candidate_latest = l, results_dir = dir, threshold = t\<rparr> =
    Returned (if failures_of (seen_rate r0) (seen_rate r1) (if seen_p99 r0 = 0 then 1 else seen_p99 r0) (seen_p99 r1) t \<noteq> []
      then 1 else 0)"
proof -
  obtain d0 n0 where d0: "json_load (result_file a0 r0) = Some d0" "get0 d0 ''throughput_rps'' = JNum n0" "py_float n0 = seen_rate r0"
    "get0 d0 ''p99_us'' = JNum (JInt (int (unat (p99_of r0))))"
    using result_file_loads [of a0 r0] by blast
  obtain d1 n1 where d1: "json_load (result_file a1 r1) = Some d1" "get0 d1 ''throughput_rps'' = JNum n1" "py_float n1 = seen_rate r1"
    "get0 d1 ''p99_us'' = JNum (JInt (int (unat (p99_of r1))))"
    using result_file_loads [of a1 r1] by blast
  show ?thesis using assms d0 d1 by (simp add: regress_main_def load_def compare_results_def seen_p99_def)
qed

text \<open>
  C35: the regression gate decides what it promises on the files that the benchmark writes, through
  six digits of text and two layers of rounding. With the default threshold of 30 percent, a candidate
  with at least 71 percent of the baseline's throughput and at most 129 percent of its 99th percentile
  passes (exit code 0); one with at most 69 percent of a positive throughput, or with at least 131 percent
  of a positive 99th percentile, fails (exit code 1).
\<close>

theorem regress_gate_decides:
  assumes "read p0 = Some (result_file a0 r0)" and "read p1 = Some (result_file a1 r1)" and "p1 \<noteq> []"
  shows "let result = regress_main read glob str_float \<lparr>baseline = p0, candidate = Some p1, candidate_latest = l,
        results_dir = dir, threshold = default_threshold\<rparr>;
      x0 = rate (o_ok r0) (o_total_ms r0); x1 = rate (o_ok r1) (o_total_ms r1);
      y0 = of_nat (unat (p99_of r0)) :: rat; y1 = of_nat (unat (p99_of r1)) :: rat in
    (71 / 100 * x0 \<le> x1 \<and> y1 \<le> 129 / 100 * y0 \<longrightarrow> result = Returned 0) \<and>
    (0 < x0 \<and> x1 \<le> 69 / 100 * x0 \<longrightarrow> result = Returned 1) \<and>
    (0 < y0 \<and> 131 / 100 * y0 \<le> y1 \<longrightarrow> result = Returned 1)"
proof -
  let ?bt = "seen_rate r0" and ?ct = "seen_rate r1" and ?cp = "seen_p99 r1"
  define bp where "bp = (if seen_p99 r0 = 0 then 1 else seen_p99 r0)"
  define x0 x1 where "x0 = rate (o_ok r0) (o_total_ms r0)" and "x1 = rate (o_ok r1) (o_total_ms r1)"
  define y0 y1 :: rat where "y0 = of_nat (unat (p99_of r0))" and "y1 = of_nat (unat (p99_of r1))"
  note x = seen_rate_within [of r0, folded x0_def] seen_rate_within [of r1, folded x1_def]
  note y = seen_p99_within [of r0, folded y0_def] seen_p99_within [of r1, folded y1_def]
  have nonneg: "0 \<le> x0" "0 \<le> x1" "0 \<le> y0" "0 \<le> y1"
    using rate_nonneg by (simp_all add: x0_def x1_def y0_def y1_def del: of_nat_unat)
  have bp: "0 < bp" "999 / 1000 * y0 \<le> bp" "bp \<le> 1001 / 1000 * y0 \<or> y0 = 0"
    using y(1,2) nonneg by (auto simp: bp_def)
  have pass: "\<not> default_threshold < drift (?bt - ?ct) ?bt" if "71 / 100 * x0 \<le> x1" "0 < ?bt"
    using that x nonneg by (intro drift_passes) linarith+
  have pass': "\<not> default_threshold < drift (?cp - bp) bp" if "y1 \<le> 129 / 100 * y0"
    using that y nonneg bp by (intro drift_passes) linarith+
  have fail: "default_threshold < drift (?bt - ?ct) ?bt \<and> 0 < ?bt" if "0 < x0" "x1 \<le> 69 / 100 * x0"
    using that x nonneg drift_fails [of ?bt "?bt - ?ct"] by linarith
  have fail': "default_threshold < drift (?cp - bp) bp" if "0 < y0" "131 / 100 * y0 \<le> y1"
    using that y nonneg bp by (intro drift_fails) linarith+
  show ?thesis
    unfolding Let_def regress_main_on_results [OF assms] bp_def [symmetric] failures_of_drift
      x0_def [symmetric] x1_def [symmetric] y0_def [symmetric] y1_def [symmetric]
    using pass pass' fail fail' by auto
qed

text \<open>Two runs of one request in one second, with latencies of one and of two milliseconds.\<close>

definition demo_outcome :: "u64 \<Rightarrow> bench_outcome" where
  "demo_outcome us = \<lparr>o_ok = 1, o_err = 0, o_connects = 1, o_connect_failed = 0, o_lat = [[us]], o_total_ms = 1000\<rparr>"

lemma p99_of_demo: "p99_of (demo_outcome us) = us"
  by (simp add: p99_of_def demo_outcome_def all_latencies_def pct_def pct_index_def)

definition demo_read :: "string \<Rightarrow> string option" where
  "demo_read p = Some (result_file default_bench_args (demo_outcome (if p = ''base'' then 1000 else 2000)))"

theorem regress_gate_decides_witness:
  "regress_main demo_read (\<lambda>_. []) (\<lambda>_. None) \<lparr>baseline = ''base'', candidate = Some ''cand'', candidate_latest = False,
     results_dir = [], threshold = default_threshold\<rparr> = Returned 1 \<and>
   regress_main demo_read (\<lambda>_. []) (\<lambda>_. None) \<lparr>baseline = ''cand'', candidate = Some ''base'', candidate_latest = False,
     results_dir = [], threshold = default_threshold\<rparr> = Returned 0"
proof -
  have r: "demo_read ''base'' = Some (result_file default_bench_args (demo_outcome 1000))"
    "demo_read ''cand'' = Some (result_file default_bench_args (demo_outcome 2000))"
    by (simp_all add: demo_read_def)
  have same: "rate (o_ok (demo_outcome 1000)) (o_total_ms (demo_outcome 1000)) =
      rate (o_ok (demo_outcome 2000)) (o_total_ms (demo_outcome 2000))" by (simp add: demo_outcome_def)
  from regress_gate_decides [OF r, of "\<lambda>_. []" "\<lambda>_. None" False "[]"]
    regress_gate_decides [OF r(2,1), of "\<lambda>_. []" "\<lambda>_. None" False "[]"]
    rate_nonneg [of "o_ok (demo_outcome 2000)" "o_total_ms (demo_outcome 2000)"] same
  show ?thesis by (simp add: p99_of_demo Let_def)
qed

section \<open>The newest result\<close>

lemma last_sort:
  fixes xs :: "'a :: linorder list"
  assumes "xs \<noteq> []"
  shows "last (sort xs) = Max (set xs)"
proof (rule Max_eqI [symmetric])
  have ne: "sort xs \<noteq> []" using assms by (metis length_0_conv length_sort)
  then show "last (sort xs) \<in> set xs" using last_in_set [of "sort xs"] by simp
  fix y assume "y \<in> set xs"
  then have "y \<in> set (sort xs)" by simp
  then obtain i where "i < length (sort xs)" "y = sort xs ! i" by (metis in_set_conv_nth)
  with ne show "y \<le> last (sort xs)" by (simp add: last_conv_nth sorted_nth_mono)
qed simp

lemma find_latest_eq:
  assumes "m \<in> set (glob dir)" and "\<And>p. p \<in> set (glob dir) \<Longrightarrow> p \<le> m"
  shows "find_latest glob dir = Some m"
proof -
  have ne: "glob dir \<noteq> []" using assms(1) by auto
  then have "sort (glob dir) \<noteq> []" by (metis length_0_conv length_sort)
  moreover have "Max (set (glob dir)) = m" using assms by (intro Max_eqI) auto
  ultimately show ?thesis by (simp add: find_latest_def Let_def last_sort [OF ne])
qed

lemma result_path_mono:
  assumes "clients_mode a" and "out_path a = ''bench/bench-result.json''"
    and "t \<le> t'" and "tm_year (gmtime t') \<le> 9999"
  shows "result_path a t \<le> result_path a t'"
proof (cases "t = t'")
  case False
  with assms(3) have "t < t'" by simp
  from stamp_less [OF this assms(4)] have "stamp t < stamp t'" .
  moreover have "length (stamp t) = length (stamp t')"
    using length_stamp [of t] length_stamp [OF assms(4)] year_mono [OF assms(3)] assms(4) by simp
  ultimately have "stamp t @ ''.json'' < stamp t' @ ''.json''" by (intro lex_append) simp_all
  then show ?thesis using assms(1,2) by (simp add: result_path_def)
qed simp

lemma result_path_below:
  assumes "clients_mode a" and "out_path a = ''bench/bench-result.json''"
  shows "result_path a t < ''bench/results/bench-10k.json''"
proof -
  obtain c cs where c: "stamp t = c # cs" "is_digit c" using stamp_hd [of t] by blast
  then have "c < CHR ''b''" by (simp add: is_digit_def less_char_def)
  with c(1) assms show ?thesis by (simp add: result_path_def)
qed

text \<open>
  The option \<open>--candidate-latest\<close> of the regression gate, documented to use the newest file in
  \<open>bench/results/\<close>. Up to the year 9999 the names that the benchmark gives its results sort by time,
  so in a directory with nothing else the script takes the newest. But it takes the last name of all, and the
  repository keeps \<open>baseline.json\<close> and \<open>bench-10k.json\<close> there: with these two, it takes the old
  \<open>bench-10k.json\<close>, whatever results are newer.
\<close>

lemma latest_result_shadowed:
  assumes "clients_mode a" and "out_path a = ''bench/bench-result.json''" and "ts \<noteq> []"
    and "tm_year (gmtime (Max (set ts))) \<le> 9999"
  shows "(set (glob dir) = result_path a ` set ts \<longrightarrow> find_latest glob dir = Some (result_path a (Max (set ts)))) \<and>
    (set (glob dir) = result_path a ` set ts \<union> {''bench/results/baseline.json'', ''bench/results/bench-10k.json''} \<longrightarrow>
      find_latest glob dir = Some ''bench/results/bench-10k.json'')"
proof (intro conjI impI)
  assume g: "set (glob dir) = result_path a ` set ts"
  have "Max (set ts) \<in> set ts" using assms(3) by simp
  moreover have "result_path a t \<le> result_path a (Max (set ts))" if "t \<in> set ts" for t
    using that assms by (intro result_path_mono) simp_all
  ultimately show "find_latest glob dir = Some (result_path a (Max (set ts)))"
    unfolding g [symmetric] by (intro find_latest_eq) (auto simp: g)
next
  assume g: "set (glob dir) = result_path a ` set ts \<union> {''bench/results/baseline.json'', ''bench/results/bench-10k.json''}"
  have "''bench/results/baseline.json'' < ''bench/results/bench-10k.json''" by (simp add: less_char_def)
  with result_path_below [OF assms(1,2)] show "find_latest glob dir = Some ''bench/results/bench-10k.json''"
    by (intro find_latest_eq) (auto simp: g less_imp_le)
qed

end
