(* ===== verification/Router.thy ===== *)
theory Router
  imports Thread_Pool Metrics
begin

text \<open>
  The process of \<open>src/src/main.cpp\<close>: the acceptor's thread that submits connections, the
  workers that run \<open>handle_one\<close> on them, and the main thread that waits for the shutdown
  request and drains. The threads share the worker pool, which is the machine of
  \<open>Thread_Pool\<close> with descriptors as tasks, and the atomic counters. The theory \<open>Handler\<close>
  shows what one call of \<open>handle_one\<close> does; here a call is what the other threads can see of
  it: it enters (\<open>in_flight\<close>), counts its outcome, and leaves, in this order.
\<close>

section \<open>State\<close>

text \<open>
  The main thread's position: waiting for the request, in \<open>acceptor.stop()\<close>, in the loop
  that polls \<open>in_flight\<close>, after that loop with the deadline passed, about to read how many
  requests to drop, counting them, in \<open>pool.stop()\<close>, in \<open>backend_set.shutdown()\<close>, returned.
\<close>

datatype main_pos =
  Serving | StoppingAcceptor | Draining | GraceOver | DropsDue | CountDrops nat | StoppingPool
| StoppingBackends | Exited

text \<open>
  \<open>accepting\<close>: the connection that the acceptor's thread is in the callback with. The
  tasks that workers run are split by how far they are: \<open>entered\<close> have incremented
  \<open>in_flight\<close>, \<open>counted\<close> have counted their outcome, \<open>left\<close> have decremented \<open>in_flight\<close>; the
  other running ones have not begun.
\<close>

record router =
  main_at :: main_pos
  acceptor_alive :: bool
  accepting :: "fd option"
  workers :: "fd tp_state"
  counters :: metrics
  entered :: "fd multiset"
  counted :: "fd multiset"
  left :: "fd multiset"

definition router_init :: "tp_options \<Rightarrow> router" where
  "router_init o' = \<lparr>main_at = Serving, acceptor_alive = True, accepting = None, workers = tp_init o',
     counters = metrics_init, entered = {#}, counted = {#}, left = {#}\<rparr>"

section \<open>Steps\<close>

text \<open>Steps of the pool that no other part of the process notices.\<close>

fun silent :: "fd tp_action \<Rightarrow> bool" where
  "silent (SubmitPass f r) = (r = Blocked)"
| "silent (WorkerPass r) = True"
| "silent SpuriousWorker = True"
| "silent (SpuriousSubmit f) = True"
| "silent NotifyAll = True"
| "silent JoinAll = True"
| "silent _ = False"

datatype router_action =
  Accept fd | Handed fd | Turned fd | AcceptorEnds | PoolStep "fd tp_action"
| Enter fd | Outcome fd bool | Leave fd | TaskReturns fd
| ShutdownSeen | AcceptorStopped | InFlightZero | Deadline | NoneInFlight | SomeInFlight | ReadRemaining
| DropOne | DropsCounted | PoolStop | PoolStopped | BackendsDown

inductive router_step :: "router \<Rightarrow> router_action \<Rightarrow> router \<Rightarrow> bool" where
  accept: "acceptor_alive s \<Longrightarrow> accepting s = None \<Longrightarrow> tp_step (workers s) (CallSubmit f) p \<Longrightarrow>
    router_step s (Accept f) (s\<lparr>accepting := Some f, workers := p, counters := inc_accepted (counters s)\<rparr>)"
| handed: "accepting s = Some f \<Longrightarrow> tp_step (workers s) (SubmitPass f Accepted) p \<Longrightarrow>
    router_step s (Handed f) (s\<lparr>accepting := None, workers := p\<rparr>)"
| turned: "accepting s = Some f \<Longrightarrow> tp_step (workers s) (SubmitPass f Rejected) p \<Longrightarrow>
    router_step s (Turned f) (s\<lparr>accepting := None, workers := p, counters := inc_errored (counters s)\<rparr>)"
| acceptor_ends: "acceptor_alive s \<Longrightarrow> accepting s = None \<Longrightarrow>
    router_step s AcceptorEnds (s\<lparr>acceptor_alive := False\<rparr>)"
| pool_step: "silent a \<Longrightarrow> tp_step (workers s) a p \<Longrightarrow> router_step s (PoolStep a) (s\<lparr>workers := p\<rparr>)"
| enter: "f \<in># running (workers s) - (entered s + counted s + left s) \<Longrightarrow>
    router_step s (Enter f) (s\<lparr>entered := add_mset f (entered s), counters := inc_in_flight (counters s)\<rparr>)"
| outcome: "f \<in># entered s \<Longrightarrow>
    router_step s (Outcome f ok) (s\<lparr>entered := entered s - {#f#}, counted := add_mset f (counted s),
      counters := (if ok then inc_completed (counters s) else inc_errored (counters s))\<rparr>)"
| leave: "f \<in># counted s \<Longrightarrow>
    router_step s (Leave f) (s\<lparr>counted := counted s - {#f#}, left := add_mset f (left s),
      counters := dec_in_flight (counters s)\<rparr>)"
| task_returns: "f \<in># left s \<Longrightarrow> tp_step (workers s) (TaskDone f) p \<Longrightarrow>
    router_step s (TaskReturns f) (s\<lparr>left := left s - {#f#}, workers := p\<rparr>)"
| shutdown_seen: "main_at s = Serving \<Longrightarrow> router_step s ShutdownSeen (s\<lparr>main_at := StoppingAcceptor\<rparr>)"
| acceptor_stopped: "main_at s = StoppingAcceptor \<Longrightarrow> \<not> acceptor_alive s \<Longrightarrow>
    router_step s AcceptorStopped (s\<lparr>main_at := Draining\<rparr>)"
| in_flight_zero: "main_at s = Draining \<Longrightarrow> in_flight (counters s) = 0 \<Longrightarrow>
    router_step s InFlightZero (s\<lparr>main_at := GraceOver\<rparr>)"
| deadline: "main_at s = Draining \<Longrightarrow> router_step s Deadline (s\<lparr>main_at := GraceOver\<rparr>)"
| none_in_flight: "main_at s = GraceOver \<Longrightarrow> in_flight (counters s) = 0 \<Longrightarrow>
    router_step s NoneInFlight (s\<lparr>main_at := StoppingPool\<rparr>)"
| some_in_flight: "main_at s = GraceOver \<Longrightarrow> in_flight (counters s) \<noteq> 0 \<Longrightarrow>
    router_step s SomeInFlight (s\<lparr>main_at := DropsDue\<rparr>)"
| read_remaining: "main_at s = DropsDue \<Longrightarrow>
    router_step s ReadRemaining (s\<lparr>main_at := CountDrops (unat (in_flight (counters s)))\<rparr>)"
| drop_one: "main_at s = CountDrops (Suc n) \<Longrightarrow>
    router_step s DropOne (s\<lparr>main_at := CountDrops n, counters := inc_dropped (counters s)\<rparr>)"
| drops_counted: "main_at s = CountDrops 0 \<Longrightarrow> router_step s DropsCounted (s\<lparr>main_at := StoppingPool\<rparr>)"
| pool_stop: "main_at s = StoppingPool \<Longrightarrow> stop_at (workers s) = Open \<Longrightarrow> tp_step (workers s) CallStop p \<Longrightarrow>
    router_step s PoolStop (s\<lparr>workers := p\<rparr>)"
| pool_stopped: "main_at s = StoppingPool \<Longrightarrow> stop_at (workers s) = Joined \<Longrightarrow>
    router_step s PoolStopped (s\<lparr>main_at := StoppingBackends\<rparr>)"
| backends_down: "main_at s = StoppingBackends \<Longrightarrow> router_step s BackendsDown (s\<lparr>main_at := Exited\<rparr>)"

section \<open>The invariant\<close>

text \<open>Every call of \<open>submit\<close> is the acceptor's, and it never happens after a stop.\<close>

definition submit_ok :: "router \<Rightarrow> bool" where
  "submit_ok s \<longleftrightarrow> trying (workers s) + blocked (workers s) = (case accepting s of None \<Rightarrow> {#} | Some f \<Rightarrow> {#f#}) \<and>
     (\<not> acceptor_alive s \<longrightarrow> accepting s = None) \<and>
     (main_at s \<noteq> Serving \<and> main_at s \<noteq> StoppingAcceptor \<longrightarrow> \<not> acceptor_alive s) \<and>
     \<not> reject_on_full (topts (tp (workers s))) \<and> refused (workers s) = {#} \<and> discarded (workers s) = [] \<and>
     (stop_at (workers s) \<noteq> Open \<longrightarrow>
        main_at s = StoppingPool \<or> main_at s = StoppingBackends \<or> main_at s = Exited) \<and>
     (main_at s = StoppingBackends \<or> main_at s = Exited \<longrightarrow> stop_at (workers s) = Joined)"

text \<open>The counters say how far the connections are.\<close>

definition counts_ok :: "router \<Rightarrow> bool" where
  "counts_ok s \<longleftrightarrow> entered s + counted s + left s \<subseteq># running (workers s) \<and>
     in_flight (counters s) = of_nat (size (entered s) + size (counted s)) \<and>
     completed (counters s) + errored (counters s) =
       of_nat (size (counted s) + size (left s) + size (finished (workers s)) + size (refused (workers s))) \<and>
     accepted (counters s) = of_nat (length (accepted_log (workers s)) + size (refused (workers s)) +
       (case accepting s of None \<Rightarrow> 0 | Some f \<Rightarrow> 1))"

inductive_simps tp_step_iffs:
  "tp_step s (CallSubmit t) s'" "tp_step s (SubmitPass t Accepted) s'" "tp_step s (SubmitPass t Rejected) s'"
  "tp_step s (TaskDone t) s'" "tp_step s CallStop s'"

text \<open>What a silent step leaves alone.\<close>

definition unnoticed :: "'t tp_state \<Rightarrow> 't tp_state \<Rightarrow> bool" where
  "unnoticed p p' \<longleftrightarrow> finished p' = finished p \<and> refused p' = refused p \<and> accepted_log p' = accepted_log p \<and>
     discarded p' = discarded p \<and> trying p' + blocked p' = trying p + blocked p \<and> running p \<subseteq># running p' \<and>
     topts (tp p') = topts (tp p) \<and> (stop_at p' = Open \<longleftrightarrow> stop_at p = Open) \<and>
     (stop_at p = Joined \<longrightarrow> stop_at p' = Joined)"

lemma silent_unnoticed:
  assumes "tp_step p a p'" and "silent a"
  shows "unnoticed p p'"
  using assms(1)
proof cases
  case (worker_takes t q)
  with wakes_submitter_simps [OF worker_takes(4)] show ?thesis by (auto simp: unnoticed_def worker_locked_iff)
qed (use assms(2) in \<open>auto simp: unnoticed_def tp_locked_iffs notify_all_def\<close>)

lemma pool_ok_step:
  assumes "router_step s a t" and "tasks_ok (workers s)" and "wakeups_ok (workers s)"
  shows "tasks_ok (workers t) \<and> wakeups_ok (workers t)"
  using assms by (cases rule: router_step.cases) (auto dest: tasks_ok_step wakeups_ok_step)

lemma submit_ok_step:
  assumes "router_step s a t" and ok: "submit_ok s" and w: "wakeups_ok (workers s)"
  shows "submit_ok t"
  using assms(1)
proof cases
  case (handed f p)
  with ok show ?thesis by (auto simp: submit_ok_def tp_step_iffs submit_locked_iff)
next
  case (turned f p)
  then have "stop_flag (tp (workers s))" using ok by (auto simp: submit_ok_def tp_step_iffs submit_locked_iff)
  then have "stop_at (workers s) \<noteq> Open" using w by (simp add: wakeups_ok_def phase_ok_def)
  with ok turned show ?thesis by (auto simp: submit_ok_def)
next
  case (pool_step b p)
  with silent_unnoticed [OF pool_step(4,3)] ok show ?thesis by (auto simp: submit_ok_def unnoticed_def)
qed (use ok in \<open>auto simp: submit_ok_def tp_step_iffs stop_locked_iff\<close>)

lemma add_fresh:
  assumes "f \<in># R - M" and "M \<subseteq># R"
  shows "add_mset f M \<subseteq># R"
proof -
  from assms(2) obtain D where "R = M + D" by (auto simp: mset_subset_eq_exists_conv)
  with assms(1) show ?thesis by (auto dest: multi_member_split)
qed

lemma counts_ok_step:
  assumes "router_step s a t" and ok: "counts_ok s"
  shows "counts_ok t"
  using assms(1)
proof cases
  case (pool_step b p)
  with silent_unnoticed [OF pool_step(4,3)] ok show ?thesis
    by (auto simp: counts_ok_def unnoticed_def elim: subset_mset.trans)
next
  case (enter f)
  then have "add_mset f (entered s + counted s + left s) \<subseteq># running (workers s)"
    using ok by (intro add_fresh) (simp_all add: counts_ok_def)
  with enter ok show ?thesis by (simp add: counts_ok_def metric_simps)
next
  case (outcome f b)
  then obtain E where "entered s = add_mset f E" by (blast dest: multi_member_split)
  with outcome ok show ?thesis by (simp add: counts_ok_def metric_simps algebra_simps)
next
  case (leave f)
  then obtain C where "counted s = add_mset f C" by (blast dest: multi_member_split)
  with leave ok show ?thesis by (simp add: counts_ok_def metric_simps algebra_simps)
next
  case (task_returns f p)
  then obtain L where "left s = add_mset f L" by (blast dest: multi_member_split)
  with task_returns ok show ?thesis
    by (auto simp: counts_ok_def tp_step_iffs algebra_simps insert_subset_eq_iff)
next
  case (turned f p)
  then show ?thesis using ok by (auto simp: counts_ok_def tp_step_iffs submit_locked_iff metric_simps algebra_simps)
qed (use ok in \<open>auto simp: counts_ok_def tp_step_iffs stop_locked_iff submit_locked_iff metric_simps algebra_simps\<close>)

definition router_ok :: "router \<Rightarrow> bool" where
  "router_ok s \<longleftrightarrow> tasks_ok (workers s) \<and> wakeups_ok (workers s) \<and> submit_ok s \<and> counts_ok s"

interpretation router_inv: machine_invariant router_step router_ok
  by unfold_locales (auto simp: router_ok_def dest: pool_ok_step submit_ok_step counts_ok_step)

lemma router_init_ok: "\<not> reject_on_full o' \<Longrightarrow> router_ok (router_init o')"
  by (simp add: router_ok_def tp_init_ok submit_ok_def counts_ok_def router_init_def metrics_init_def)
    (simp add: tp_init_def new_thread_pool_def)

lemma router_runs_ok:
  "runs router_step (router_init o') acts s \<Longrightarrow> \<not> reject_on_full o' \<Longrightarrow> router_ok s"
  using router_inv.ok_runs router_init_ok by blast

section \<open>A run\<close>

inductive_simps tp_run_iffs:
  "tp_step s (CallSubmit t) s'" "tp_step s (SubmitPass t Accepted) s'" "tp_step s (WorkerPass (Take t)) s'"
  "tp_step s (WorkerPass Return) s'" "tp_step s (TaskDone t) s'" "tp_step s CallStop s'" "tp_step s NotifyAll s'"
  "tp_step s JoinAll s'"

inductive_simps router_run_iffs:
  "router_step s (Accept f) s'" "router_step s (Handed f) s'" "router_step s AcceptorEnds s'"
  "router_step s (PoolStep a) s'" "router_step s (Enter f) s'" "router_step s (Outcome f ok) s'"
  "router_step s (Leave f) s'" "router_step s (TaskReturns f) s'" "router_step s ShutdownSeen s'"
  "router_step s AcceptorStopped s'" "router_step s InFlightZero s'" "router_step s Deadline s'"
  "router_step s NoneInFlight s'" "router_step s SomeInFlight s'" "router_step s ReadRemaining s'"
  "router_step s DropOne s'" "router_step s DropsCounted s'" "router_step s PoolStop s'"
  "router_step s PoolStopped s'" "router_step s BackendsDown s'"

definition drop_run :: "router_action list" where
  "drop_run = [Accept 7, Handed 7, PoolStep (WorkerPass (Take 7)), Enter 7, ShutdownSeen, AcceptorEnds,
     AcceptorStopped, Deadline, SomeInFlight, ReadRemaining, DropOne, DropsCounted, Outcome 7 True, Leave 7,
     TaskReturns 7, PoolStop, PoolStep NotifyAll, PoolStep (WorkerPass Return), PoolStep JoinAll, PoolStopped,
     BackendsDown]"

lemma drop_run_runs:
  "\<exists>s. runs router_step (router_init demo_tp_options) drop_run s \<and> main_at s = Exited \<and>
     accepted (counters s) = 1 \<and> completed (counters s) = 1 \<and> dropped (counters s) = 1"
  by (simp add: drop_run_def runs_Cons_iff router_run_iffs tp_run_iffs router_init_def tp_init_def new_thread_pool_def
      demo_tp_options_def tp_locked_iffs wake_worker_def wakes_submitter_def notify_all_def metric_simps metrics_init_def)

text \<open>The same without the deadline: the worker takes the connection after the loop that waits.\<close>

definition early_drop_run :: "router_action list" where
  "early_drop_run = [Accept 7, Handed 7, ShutdownSeen, AcceptorEnds, AcceptorStopped, InFlightZero,
     PoolStep (WorkerPass (Take 7)), Enter 7, SomeInFlight, ReadRemaining, DropOne, DropsCounted, Outcome 7 True, Leave 7,
     TaskReturns 7, PoolStop, PoolStep NotifyAll, PoolStep (WorkerPass Return), PoolStep JoinAll, PoolStopped,
     BackendsDown]"

lemma early_drop_runs:
  "\<exists>s. runs router_step (router_init demo_tp_options) early_drop_run s \<and> main_at s = Exited \<and>
     accepted (counters s) = 1 \<and> completed (counters s) = 1 \<and> dropped (counters s) = 1"
  by (simp add: early_drop_run_def runs_Cons_iff router_run_iffs tp_run_iffs router_init_def tp_init_def new_thread_pool_def
      demo_tp_options_def tp_locked_iffs wake_worker_def wakes_submitter_def notify_all_def metric_simps metrics_init_def)

section \<open>The end of the process\<close>

text \<open>What is left to do once \<open>pool.stop()\<close> has set the stop flag.\<close>

definition fresh :: "router \<Rightarrow> fd multiset" where
  "fresh s = running (workers s) - (entered s + counted s + left s)"

fun main_cost :: "main_pos \<Rightarrow> nat" where
  "main_cost StoppingPool = 2"
| "main_cost StoppingBackends = 1"
| "main_cost _ = 0"

definition router_work :: "router \<Rightarrow> nat" where
  "router_work s = 4 * work_left (workers s) + 3 * size (fresh s) + 2 * size (entered s) + size (counted s) +
     main_cost (main_at s)"

lemma fresh_size:
  "counts_ok s \<Longrightarrow> size (fresh s) + size (entered s) + size (counted s) + size (left s) = size (running (workers s))"
  by (simp add: counts_ok_def fresh_def size_Diff_submset) (metis add.assoc le_add_diff_inverse2 size_mset_mono size_union)

lemma silent_running:
  assumes "tp_step p a p'" and "silent a"
  shows "size (running p') \<le> size (running p) + 1"
  using assms(1)
proof cases
  case (worker_takes t q)
  with wakes_submitter_simps(4) [OF worker_takes(4)] show ?thesis by simp
qed (use assms(2) in \<open>auto simp: notify_all_def\<close>)

lemma silent_not_call: "silent a \<Longrightarrow> \<not> is_call a"
  by (cases a) auto

lemma router_work_step:
  assumes st: "router_step s a t" and ok: "router_ok s" and stop: "stop_at (workers s) \<noteq> Open"
  shows "stop_at (workers t) \<noteq> Open \<and> router_work t < router_work s"
proof -
  have dead: "\<not> acceptor_alive s" "accepting s = None"
    and at: "main_at s = StoppingPool \<or> main_at s = StoppingBackends \<or> main_at s = Exited"
    using ok stop by (auto simp: router_ok_def submit_ok_def)
  have sf: "stop_flag (tp (workers s))" using ok stop by (simp add: router_ok_def wakeups_ok_def phase_ok_def)
  have t_ok: "counts_ok t" "counts_ok s" using counts_ok_step [OF st] ok by (simp_all add: router_ok_def)
  note fs = fresh_size [OF t_ok(1)] fresh_size [OF t_ok(2)]
  from st show ?thesis
  proof cases
    case (pool_step b p)
    have "work_left p + 1 \<le> work_left (workers s)"
      using work_left_step [OF sf pool_step(4)] silent_not_call [OF pool_step(3)] by simp
    with fs pool_step silent_running [OF pool_step(4,3)] silent_unnoticed [OF pool_step(4,3)] stop show ?thesis
      by (simp add: router_work_def unnoticed_def)
  next
    case (enter f)
    with fs stop show ?thesis by (simp add: router_work_def)
  next
    case (outcome f b)
    then obtain E where "entered s = add_mset f E" by (blast dest: multi_member_split)
    with fs outcome stop show ?thesis by (simp add: router_work_def)
  next
    case (leave f)
    then obtain C where "counted s = add_mset f C" by (blast dest: multi_member_split)
    with fs leave stop show ?thesis by (simp add: router_work_def)
  next
    case (task_returns f p)
    then obtain L R where "left s = add_mset f L" "running (workers s) = add_mset f R"
      by (auto simp: tp_step_iffs dest!: multi_member_split)
    moreover have "work_left p + 1 \<le> work_left (workers s)"
      using work_left_step [OF sf task_returns(4)] by simp
    ultimately show ?thesis using fs task_returns stop
      by (auto simp: router_work_def tp_step_iffs)
  qed (use dead at stop in \<open>auto simp: router_work_def fresh_def\<close>)
qed

lemma router_work_runs:
  "runs router_step s acts t \<Longrightarrow> router_ok s \<Longrightarrow> stop_at (workers s) \<noteq> Open \<Longrightarrow>
     length acts + router_work t \<le> router_work s \<and> stop_at (workers t) \<noteq> Open"
proof (induction rule: runs.induct)
  case (runs_Cons s a t acts u)
  from router_work_step [OF runs_Cons.hyps(1) runs_Cons.prems] router_inv.ok_step [OF runs_Cons.prems(1) runs_Cons.hyps(1)]
    runs_Cons.IH
  show ?case by auto
qed simp

section \<open>No deadlock\<close>

text \<open>Steps that carry the process on, as opposed to new connections and spurious wake-ups.\<close>

fun advances :: "router_action \<Rightarrow> bool" where
  "advances (Accept f) = False"
| "advances (PoolStep SpuriousWorker) = False"
| "advances (PoolStep (SpuriousSubmit f)) = False"
| "advances _ = True"

definition can_go_on :: "router \<Rightarrow> bool" where
  "can_go_on s \<longleftrightarrow> (\<exists>a t. advances a \<and> router_step s a t)"

lemma can_go_onI: "router_step s a t \<Longrightarrow> advances a \<Longrightarrow> can_go_on s"
  by (auto simp: can_go_on_def)

lemma tasks_go_on:
  assumes "counts_ok s" and "running (workers s) \<noteq> {#}"
  shows "can_go_on s"
proof -
  from fresh_size [OF assms(1)] assms(2)
  consider "fresh s \<noteq> {#}" | "entered s \<noteq> {#}" | "counted s \<noteq> {#}" | "left s \<noteq> {#}"
    by (metis add_eq_0_iff_both_eq_0 size_eq_0_iff_empty)
  then show ?thesis
  proof cases
    case 1
    then obtain f where "f \<in># fresh s" by (meson multiset_nonemptyE)
    then show ?thesis by (intro can_go_onI [OF enter]) (simp_all add: fresh_def)
  next
    case 2
    then obtain f where "f \<in># entered s" by (meson multiset_nonemptyE)
    then show ?thesis by (intro can_go_onI [OF outcome [of f s True]]) simp_all
  next
    case 3
    then obtain f where "f \<in># counted s" by (meson multiset_nonemptyE)
    then show ?thesis by (intro can_go_onI [OF leave]) simp_all
  next
    case 4
    then obtain f where f: "f \<in># left s" by (meson multiset_nonemptyE)
    with assms(1) have "f \<in># running (workers s)" by (auto simp: counts_ok_def dest: mset_subset_eqD)
    from can_go_onI [OF task_returns [OF f task_done [OF this]]] show ?thesis by simp
  qed
qed

lemma worker_goes_on:
  assumes "0 < ready (workers s)" and "queue (tp (workers s)) \<noteq> [] \<or> stop_flag (tp (workers s))"
  shows "can_go_on s"
proof (cases "queue (tp (workers s))")
  case Nil
  then have "worker_locked (tp (workers s)) = (Return, tp (workers s))" using assms(2) by (simp add: worker_locked_iff)
  from can_go_onI [OF pool_step [OF _ worker_returns [OF assms(1) this]]] show ?thesis by simp
next
  case (Cons f rest)
  then have w: "worker_locked (tp (workers s)) = (Take f, (tp (workers s))\<lparr>queue := rest\<rparr>)"
    by (simp add: worker_locked_iff)
  obtain p where "wakes_submitter ((workers s)\<lparr>tp := (tp (workers s))\<lparr>queue := rest\<rparr>, ready := ready (workers s) - 1,
      running := add_mset f (running (workers s)), taken := taken (workers s) @ [f]\<rparr>) p"
    using wakes_submitter_total by blast
  from can_go_onI [OF pool_step [OF _ worker_takes [OF assms(1) w this]]] show ?thesis by simp
qed

lemma queue_goes_on:
  assumes "router_ok s" and "queue (tp (workers s)) \<noteq> []"
  shows "can_go_on s"
proof (cases "running (workers s) = {#}")
  case True
  with assms have "0 < ready (workers s)"
    by (cases "waiting_workers (workers s)"; cases "queue (tp (workers s))")
      (auto simp: router_ok_def wakeups_ok_def sleepers_ok_def crew_ok_def)
  with assms(2) show ?thesis by (intro worker_goes_on) auto
qed (use assms(1) in \<open>simp add: tasks_go_on router_ok_def\<close>)

lemma submit_goes_on:
  assumes ok: "router_ok s" and f: "accepting s = Some f"
  shows "can_go_on s"
proof (cases "f \<in># trying (workers s)")
  case True
  obtain r p where r: "submit_locked f (tp (workers s)) = (r, p)" by fastforce
  show ?thesis
  proof (cases r)
    case Accepted
    from can_go_onI [OF handed [OF f submit_accepted [OF True r [unfolded Accepted]]]] show ?thesis by simp
  next
    case Rejected
    from can_go_onI [OF turned [OF f submit_rejected [OF True r [unfolded Rejected]]]] show ?thesis by simp
  next
    case Blocked
    from can_go_onI [OF pool_step [OF _ submit_blocked [OF True r [unfolded Blocked]]]] show ?thesis by simp
  qed
next
  case False
  from ok f have "trying (workers s) + blocked (workers s) = {#f#}" by (simp add: router_ok_def submit_ok_def)
  with False have "trying (workers s) = {#}" "blocked (workers s) = {#f#}"
    by (auto simp: union_is_single split: if_splits)
  moreover have "main_at s = Serving \<or> main_at s = StoppingAcceptor" "\<not> stop_flag (tp (workers s))"
    using ok f by (auto simp: router_ok_def submit_ok_def wakeups_ok_def phase_ok_def)
  ultimately have "queue (tp (workers s)) \<noteq> []"
    using ok by (auto simp: router_ok_def wakeups_ok_def callers_ok_def tasks_ok_def)
  with ok show ?thesis by (rule queue_goes_on)
qed

lemma pool_stop_goes_on:
  assumes ok: "router_ok s" and at: "main_at s = StoppingPool"
  shows "can_go_on s"
proof (cases "stop_at (workers s)")
  case Open
  then have "\<not> stop_flag (tp (workers s))" using ok by (simp add: router_ok_def wakeups_ok_def phase_ok_def)
  then have "stop_locked (tp (workers s)) = (True, (tp (workers s))\<lparr>stop_flag := True, drain_on_stop := True\<rparr>)"
    by (simp add: stop_locked_iff)
  from can_go_onI [OF pool_stop [OF at Open stop_first [OF this]]] show ?thesis by simp
next
  case Notifying
  from can_go_onI [OF pool_step [OF _ stop_notifies [OF this]]] show ?thesis by simp
next
  case Joining
  then have w: "waiting_workers (workers s) = 0" "stop_flag (tp (workers s))" and c: "crew_ok (workers s)"
    using ok by (auto simp: router_ok_def wakeups_ok_def phase_ok_def)
  consider "running (workers s) \<noteq> {#}" | "0 < ready (workers s)"
    | "exited (workers s) = worker_count (topts (tp (workers s)))"
    using w(1) c by (cases "running (workers s) = {#}"; cases "ready (workers s)") (auto simp: crew_ok_def)
  then show ?thesis
  proof cases
    case 1
    then show ?thesis using ok by (simp add: tasks_go_on router_ok_def)
  next
    case 2
    with w(2) show ?thesis by (intro worker_goes_on) auto
  next
    case 3
    from can_go_onI [OF pool_step [OF _ stop_joins [OF Joining 3]]] show ?thesis by simp
  qed
next
  case Joined
  from can_go_onI [OF pool_stopped [OF at Joined]] show ?thesis by simp
qed

lemma shutdown_goes_on:
  assumes ok: "router_ok s" and "main_at s \<noteq> Serving" and "main_at s \<noteq> Exited"
  shows "can_go_on s"
proof (cases "main_at s")
  case StoppingAcceptor
  show ?thesis
  proof (cases "accepting s")
    case None
    with StoppingAcceptor can_go_onI [OF acceptor_ends] can_go_onI [OF acceptor_stopped]
    show ?thesis by (cases "acceptor_alive s") auto
  qed (use submit_goes_on [OF ok] in blast)
next
  case Draining
  from can_go_onI [OF deadline [OF this]] show ?thesis by simp
next
  case GraceOver
  from can_go_onI [OF none_in_flight [OF this]] can_go_onI [OF some_in_flight [OF this]] show ?thesis
    by (cases "in_flight (counters s) = 0") auto
next
  case DropsDue
  from can_go_onI [OF read_remaining [OF this]] show ?thesis by simp
next
  case (CountDrops n)
  from can_go_onI [OF drop_one [of s "n - 1"]] can_go_onI [OF drops_counted] CountDrops show ?thesis
    by (cases n) auto
next
  case StoppingBackends
  from can_go_onI [OF backends_down [OF this]] show ?thesis by simp
qed (use assms pool_stop_goes_on in auto)

section \<open>What is left after the drain\<close>

text \<open>Once the workers are joined, every connection has been handled and counted.\<close>

lemma drained:
  assumes "router_ok s" and "main_at s = StoppingBackends \<or> main_at s = Exited"
  shows "accepted (counters s) = completed (counters s) + errored (counters s)" "in_flight (counters s) = 0"
    "queue (tp (workers s)) = []" "running (workers s) = {#}" "finished (workers s) = mset (accepted_log (workers s))"
    "accepted (counters s) = of_nat (length (accepted_log (workers s)))" "\<not> acceptor_alive s"
proof -
  have ok: "tasks_ok (workers s)" "wakeups_ok (workers s)" "submit_ok s" "counts_ok s"
    using assms(1) by (simp_all add: router_ok_def)
  from ok(3) assms(2) have j: "stop_at (workers s) = Joined" "accepting s = None" "\<not> acceptor_alive s"
    "refused (workers s) = {#}" "discarded (workers s) = []"
    by (auto simp: submit_ok_def)
  from ok(2) j(1) have e: "queue (tp (workers s)) = []" "running (workers s) = {#}"
    by (auto simp: wakeups_ok_def crew_ok_def)
  with ok(4) have z: "entered s = {#}" "counted s = {#}" "left s = {#}" by (auto simp: counts_ok_def)
  from ok(1) e j have f: "finished (workers s) = mset (accepted_log (workers s))" by (simp add: tasks_ok_def)
  then have "size (finished (workers s)) = length (accepted_log (workers s))" by simp
  with ok(4) e j z f show "accepted (counters s) = completed (counters s) + errored (counters s)" "in_flight (counters s) = 0"
    "queue (tp (workers s)) = []" "running (workers s) = {#}" "finished (workers s) = mset (accepted_log (workers s))"
    "accepted (counters s) = of_nat (length (accepted_log (workers s)))" "\<not> acceptor_alive s"
    by (auto simp: counts_ok_def)
qed

text \<open>How many requests have been counted as dropped; \<open>k\<close> is the number of increments.\<close>

definition drops_ok :: "nat \<Rightarrow> router \<Rightarrow> bool" where
  "drops_ok k s \<longleftrightarrow> dropped (counters s) = of_nat k \<and> k < 2 ^ 64 \<and>
     (case main_at s of
        CountDrops n \<Rightarrow> k + n < 2 ^ 64
      | StoppingPool \<Rightarrow> True | StoppingBackends \<Rightarrow> True | Exited \<Rightarrow> True
      | _ \<Rightarrow> k = 0)"

lemma drops_ok_step: "router_step s a t \<Longrightarrow> drops_ok k s \<Longrightarrow> drops_ok (k + (if a = DropOne then 1 else 0)) t"
proof (induction rule: router_step.induct)
  case (read_remaining s)
  then show ?case using unsigned_less [of "in_flight (counters s)", where 'a = nat] by (simp add: drops_ok_def)
qed (auto simp: drops_ok_def metric_simps split: main_pos.splits)

lemma drops_ok_runs: "runs router_step s acts t \<Longrightarrow> drops_ok k s \<Longrightarrow> drops_ok (k + count_list acts DropOne) t"
proof (induction arbitrary: k rule: runs.induct)
  case (runs_Cons s a t acts u)
  from runs_Cons.IH [OF drops_ok_step [OF runs_Cons.hyps(1) runs_Cons.prems]] show ?case
    by (simp add: ac_simps split: if_splits)
qed simp

lemma dropped_iff:
  assumes "runs router_step (router_init o') acts s"
  shows "dropped (counters s) = 0 \<longleftrightarrow> DropOne \<notin> set acts"
proof -
  have "drops_ok 0 (router_init o')" by (simp add: drops_ok_def router_init_def metrics_init_def)
  from drops_ok_runs [OF assms this] have d: "dropped (counters s) = of_nat (count_list acts DropOne)"
    "count_list acts DropOne < 2 ^ 64"
    by (simp_all add: drops_ok_def)
  then have "unat (dropped (counters s)) = count_list acts DropOne" by (simp add: unat_of_nat take_bit_nat_eq_self)
  then show ?thesis by (metis count_list_0_iff unsigned_0 unsigned_word_eqI)
qed

section \<open>Properties\<close>

text \<open>
  C14: every accepted connection is accounted for at every moment, whatever the interleaving.
  \<open>accepted\<close> is \<open>completed\<close> plus \<open>errored\<close> plus the connections that are being submitted, that
  are queued, or that a worker has taken and not yet counted; \<open>in_flight\<close> is exactly the number
  of those whose handler is between its first and its last statement; and no accepted
  connection is ever refused by the pool.
\<close>

theorem connections_accounted:
  assumes "runs router_step (router_init o') acts s" and "\<not> reject_on_full o'"
  shows "accepted (counters s) = completed (counters s) + errored (counters s) +
      of_nat ((case accepting s of None \<Rightarrow> 0 | Some f \<Rightarrow> 1) + pending (tp (workers s)) +
        size (running (workers s) - (counted s + left s))) \<and>
    in_flight (counters s) = of_nat (size (entered s) + size (counted s)) \<and>
    entered s + counted s + left s \<subseteq># running (workers s) \<and> refused (workers s) = {#}"
proof -
  have ok: "tasks_ok (workers s)" "submit_ok s" "counts_ok s"
    using router_runs_ok [OF assms] by (simp_all add: router_ok_def)
  from ok(1,2) have l: "length (accepted_log (workers s)) = size (finished (workers s)) + size (running (workers s)) +
      length (queue (tp (workers s)))" and r: "refused (workers s) = {#}"
    by (auto simp: tasks_ok_def submit_ok_def dest: arg_cong [of "mset _" _ size])
  from ok(3) have "counted s + left s \<subseteq># running (workers s)"
    by (auto simp: counts_ok_def add.assoc intro: subset_mset.order_trans [rotated] mset_subset_eq_add_right)
  then have "size (running (workers s)) =
      size (running (workers s) - (counted s + left s)) + (size (counted s) + size (left s))"
    by (metis size_Diff_submset size_union le_add_diff_inverse2 size_mset_mono)
  with ok(3) l r show ?thesis by (simp add: counts_ok_def pending_def)
qed

theorem connections_accounted_witness:
  "\<exists>s. runs router_step (router_init demo_tp_options) [Accept 7] s \<and> accepted (counters s) = 1 \<and>
     accepted (counters s) = completed (counters s) + errored (counters s) +
       of_nat ((case accepting s of None \<Rightarrow> 0 | Some f \<Rightarrow> 1) + pending (tp (workers s)) +
         size (running (workers s) - (counted s + left s)))"
proof -
  obtain s where r: "runs router_step (router_init demo_tp_options) [Accept 7] s" "accepted (counters s) = 1"
    by (simp add: runs_Cons_iff router_run_iffs tp_run_iffs router_init_def metric_simps metrics_init_def)
  have "\<not> reject_on_full demo_tp_options" by (simp add: demo_tp_options_def)
  from connections_accounted [OF r(1) this] r show ?thesis by blast
qed

text \<open>
  C2: the drain protocol keeps its promise. When \<open>main\<close> reaches \<open>backend_set.shutdown()\<close>, on
  the way through the grace deadline or not, every connection that was ever accepted has been
  handled to its end and counted: \<open>accepted\<close> equals \<open>completed\<close> plus \<open>errored\<close>, \<open>in_flight\<close> is
  zero, the queue is empty, no handler runs, and no handler starts any more.
\<close>

theorem drain_answers_every_connection:
  assumes "runs router_step (router_init o') acts s" and "\<not> reject_on_full o'"
    and "main_at s = StoppingBackends \<or> main_at s = Exited"
  shows "accepted (counters s) = completed (counters s) + errored (counters s) \<and> in_flight (counters s) = 0 \<and>
    queue (tp (workers s)) = [] \<and> running (workers s) = {#} \<and>
    finished (workers s) = mset (accepted_log (workers s)) \<and>
    accepted (counters s) = of_nat (length (accepted_log (workers s))) \<and>
    (\<forall>f t. \<not> router_step s (Accept f) t \<and> \<not> router_step s (Enter f) t)"
proof -
  note d = drained [OF router_runs_ok [OF assms(1,2)] assms(3)]
  then show ?thesis by (auto simp: router_run_iffs)
qed

theorem drain_answers_every_connection_witness:
  "\<exists>s. runs router_step (router_init demo_tp_options) drop_run s \<and> main_at s = Exited \<and>
     accepted (counters s) = completed (counters s) + errored (counters s) \<and> running (workers s) = {#}"
proof -
  obtain s where r: "runs router_step (router_init demo_tp_options) drop_run s" "main_at s = Exited"
    using drop_run_runs by blast
  have "\<not> reject_on_full demo_tp_options" by (simp add: demo_tp_options_def)
  from drain_answers_every_connection [OF r(1) this] r show ?thesis by blast
qed

text \<open>
  C7: the shutdown never gets stuck, and it ends. From the shutdown request to the exit of
  \<open>main\<close> some thread can always take a step that is not a new connection or a spurious
  wake-up, even with the acceptor blocked on a full queue; and once \<open>pool.stop()\<close> has set the
  flag, the process takes at most \<open>router_work\<close> further steps until \<open>main\<close> exits.
\<close>

theorem shutdown_never_stuck:
  assumes "runs router_step (router_init o') acts s" and "\<not> reject_on_full o'"
  shows "(main_at s \<noteq> Serving \<and> main_at s \<noteq> Exited \<longrightarrow> (\<exists>a t. advances a \<and> router_step s a t)) \<and>
    (stop_at (workers s) \<noteq> Open \<longrightarrow> (\<forall>acts' t. runs router_step s acts' t \<longrightarrow> length acts' \<le> router_work s))"
proof -
  have ok: "router_ok s" by (rule router_runs_ok [OF assms])
  from shutdown_goes_on [OF this] router_work_runs [OF _ this] show ?thesis by (fastforce simp: can_go_on_def)
qed

theorem shutdown_never_stuck_witness:
  "\<exists>s a t. runs router_step (router_init demo_tp_options) [Accept 7, Handed 7, ShutdownSeen] s \<and>
     advances a \<and> router_step s a t"
proof -
  obtain s where r: "runs router_step (router_init demo_tp_options) [Accept 7, Handed 7, ShutdownSeen] s"
    "main_at s = StoppingAcceptor"
    by (simp add: runs_Cons_iff router_run_iffs tp_run_iffs router_init_def tp_init_def new_thread_pool_def
      demo_tp_options_def tp_locked_iffs wake_worker_def)
  have "\<not> reject_on_full demo_tp_options" by (simp add: demo_tp_options_def)
  from shutdown_never_stuck [OF r(1) this] r show ?thesis by auto
qed

text \<open>
  C38: the grace deadline is not enforced. After it \<open>main\<close> counts the requests in flight as
  dropped and then waits for them in \<open>pool.stop()\<close>, so there is a run that ends with one
  connection accepted, one completed and one dropped. And the drain does not look at the
  queue: there is a run in which \<open>main\<close> finds \<open>in_flight\<close> at zero and goes on to
  \<open>pool.stop()\<close> while an accepted connection is still queued. Nor does a drop need the deadline: the
  queued connection may be taken between the last look of the loop and the test after it, which then
  counts it as dropped, although the grace period is not over and the connection is served.
\<close>

theorem grace_deadline_not_enforced:
  "(\<exists>acts s. runs router_step (router_init demo_tp_options) acts s \<and> main_at s = Exited \<and>
      accepted (counters s) = 1 \<and> completed (counters s) = 1 \<and> dropped (counters s) = 1) \<and>
   (\<exists>acts s. runs router_step (router_init demo_tp_options) acts s \<and> main_at s = StoppingPool \<and>
      in_flight (counters s) = 0 \<and> dropped (counters s) = 0 \<and> queue (tp (workers s)) \<noteq> []) \<and>
   (\<exists>acts s. runs router_step (router_init demo_tp_options) acts s \<and> main_at s = Exited \<and> Deadline \<notin> set acts \<and>
      accepted (counters s) = 1 \<and> completed (counters s) = 1 \<and> dropped (counters s) = 1)"
proof (intro conjI)
  show "\<exists>acts s. runs router_step (router_init demo_tp_options) acts s \<and> main_at s = Exited \<and>
      accepted (counters s) = 1 \<and> completed (counters s) = 1 \<and> dropped (counters s) = 1"
    using drop_run_runs by blast
  show "\<exists>acts s. runs router_step (router_init demo_tp_options) acts s \<and> main_at s = StoppingPool \<and>
      in_flight (counters s) = 0 \<and> dropped (counters s) = 0 \<and> queue (tp (workers s)) \<noteq> []"
    by (rule exI [of _ "[Accept 7, Handed 7, ShutdownSeen, AcceptorEnds, AcceptorStopped, InFlightZero, NoneInFlight]"])
      (simp add: runs_Cons_iff router_run_iffs tp_run_iffs router_init_def tp_init_def new_thread_pool_def
        demo_tp_options_def tp_locked_iffs wake_worker_def metric_simps metrics_init_def)
  show "\<exists>acts s. runs router_step (router_init demo_tp_options) acts s \<and> main_at s = Exited \<and> Deadline \<notin> set acts \<and>
      accepted (counters s) = 1 \<and> completed (counters s) = 1 \<and> dropped (counters s) = 1"
    using early_drop_runs by (intro exI [of _ early_drop_run]) (simp add: early_drop_run_def)
qed

end
