(* ===== verification/Chaos.thy ===== *)
theory Chaos
  imports Bench_Run Regress Router
begin

text \<open>
  \<open>src/tests/chaos/chaos.cpp\<close>: the program that drains a router under load and judges it by its
  counters. Modelled are its options, its clients, its early exits, what it prints and its verdict. The
  router in its process is built from the same parts as \<open>main.cpp\<close> and drained by the same statements, so
  it is the machine of the theory \<open>Router\<close>; its echo backend is the text of the one in
  \<open>src/bench/load.cpp\<close>, whose threads are in \<open>Echo_Threads\<close>.
\<close>

section \<open>Options\<close>

record chaos_args =
  ch_clients :: int
  ch_requests :: int
  ch_sigterm_after_ms :: int
  ch_router_threads :: int
  ch_pool_size :: int
  ch_shutdown_grace_ms :: int
  ch_out_path :: string
  ch_tls :: bool
  ch_tls_cert_path :: string
  ch_tls_key_path :: string

definition default_chaos_args :: chaos_args where
  "default_chaos_args = \<lparr>ch_clients = 50, ch_requests = 100, ch_sigterm_after_ms = 5000, ch_router_threads = 8,
     ch_pool_size = 8, ch_shutdown_grace_ms = 30000, ch_out_path = ''bench/chaos-result.json'', ch_tls = False,
     ch_tls_cert_path = [], ch_tls_key_path = []\<rparr>"

datatype chaos_parse = ChaosParsed chaos_args | ChaosFailed | ChaosHelp

definition chaos_option :: "char \<Rightarrow> string \<Rightarrow> chaos_args \<Rightarrow> chaos_parse" where
  "chaos_option opt optarg out =
     (if opt = CHR ''c'' then ChaosParsed (out\<lparr>ch_clients := atoi optarg\<rparr>)
      else if opt = CHR ''r'' then ChaosParsed (out\<lparr>ch_requests := atoi optarg\<rparr>)
      else if opt = CHR ''s'' then ChaosParsed (out\<lparr>ch_sigterm_after_ms := atoi optarg\<rparr>)
      else if opt = CHR ''t'' then ChaosParsed (out\<lparr>ch_router_threads := atoi optarg\<rparr>)
      else if opt = CHR ''p'' then ChaosParsed (out\<lparr>ch_pool_size := atoi optarg\<rparr>)
      else if opt = CHR ''g'' then ChaosParsed (out\<lparr>ch_shutdown_grace_ms := atoi optarg\<rparr>)
      else if opt = CHR ''o'' then ChaosParsed (out\<lparr>ch_out_path := optarg\<rparr>)
      else if opt = CHR ''T'' then ChaosParsed (out\<lparr>ch_tls := True\<rparr>)
      else if opt = CHR ''C'' then ChaosParsed (out\<lparr>ch_tls_cert_path := optarg\<rparr>)
      else if opt = CHR ''K'' then ChaosParsed (out\<lparr>ch_tls_key_path := optarg\<rparr>)
      else if opt = CHR ''h'' then ChaosHelp
      else ChaosFailed)"

fun chaos_parse_args :: "(char \<times> string) list \<Rightarrow> chaos_args \<Rightarrow> chaos_parse" where
  "chaos_parse_args [] a = ChaosParsed a"
| "chaos_parse_args ((opt, optarg) # rest) a =
     (case chaos_option opt optarg a of ChaosParsed a' \<Rightarrow> chaos_parse_args rest a' | r \<Rightarrow> r)"

section \<open>The router in the process\<close>

definition chaos_pool_options :: "chaos_args \<Rightarrow> u16 \<Rightarrow> pool_options" where
  "chaos_pool_options a p = default_pool_options\<lparr>host := ''127.0.0.1'', port := p,
     max_size := unat (of_int (ch_pool_size a) :: u64), min_idle := 0, enable_health_check := False, borrow_timeout := 5000\<rparr>"

definition chaos_tp_options :: "chaos_args \<Rightarrow> tp_options" where
  "chaos_tp_options a = default_tp_options\<lparr>worker_count := unat (of_int (ch_router_threads a) :: u64), max_queue_depth := 4096\<rparr>"

definition chaos_handler_options :: handler_options where
  "chaos_handler_options = default_handler_options\<lparr>client_io_timeout_ms := 10000, backend_io_timeout_ms := 10000\<rparr>"

definition chaos_acceptor_options :: acceptor_options where
  "chaos_acceptor_options = default_acceptor_options\<lparr>a_host := ''127.0.0.1'', a_port := 0\<rparr>"

text \<open>
  The start of \<open>main\<close>, up to the client threads; \<open>ctx_new\<close> tells whether the clients' \<open>SSL_CTX_new\<close>
  succeeds. From its start on the echo backend has a thread. A negative number of router threads or
  of clients is a \<open>std::length_error\<close> of the vector that reserves them.
\<close>

definition chaos_setup ::
    "'e os \<Rightarrow> ('a, 'e) netdb \<Rightarrow> 'e epoll \<Rightarrow> endian \<Rightarrow> ctx_calls \<Rightarrow> bool \<Rightarrow> chaos_args \<Rightarrow> 'e world \<Rightarrow>
       ((bench_end + u16) \<times> 'e world) option" where
  "chaos_setup os nd ep e c ctx_new a w =
     do {
       (ok, l, p, w1) \<leftarrow> bench_backend_start os nd ep e w;
       if \<not> ok then Some (Inl (leave_main False 1), w1)
       else if ch_router_threads a < 0 then Some (Inl BenchTerminate, w1)
       else if ch_tls a \<and> (ch_tls_cert_path a = [] \<or> ch_tls_key_path a = []) then Some (Inl (leave_main True 2), w1)
       else if ch_tls a \<and> \<not> fst (init_server c \<lparr>cert_path = ch_tls_cert_path a, key_path = ch_tls_key_path a,
           client_ca_path = [], require_client_cert = False\<rparr>) then Some (Inl (leave_main True 1), w1)
       else if ch_tls a \<and> \<not> ctx_new then Some (Inl (leave_main True 1), w1)
       else do {
         (started, acc, w2) \<leftarrow> acceptor_start os nd ep (new_acceptor chaos_acceptor_options) w1;
         if \<not> started then Some (Inl (leave_main True 1), w2)
         else if ch_clients a < 0 then Some (Inl BenchTerminate, w2)
         else Some (Inr (bound_port e ep acc w2), w2)
       }
     }"

definition chaos_begin ::
    "'e os \<Rightarrow> ('a, 'e) netdb \<Rightarrow> 'e epoll \<Rightarrow> endian \<Rightarrow> ctx_calls \<Rightarrow> bool \<Rightarrow> (char \<times> string) list \<Rightarrow> 'e world \<Rightarrow>
       ((bench_end + u16) \<times> 'e world) option" where
  "chaos_begin os nd ep e c ctx_new options w =
     (case chaos_parse_args options default_chaos_args of
        ChaosHelp \<Rightarrow> Some (Inl (BenchExit 0), w)
      | ChaosFailed \<Rightarrow> Some (Inl (BenchExit 2), w)
      | ChaosParsed a \<Rightarrow> chaos_setup os nd ep e c ctx_new a w)"

text \<open>The callback is the one of \<open>main.cpp\<close>: a connection that the pool does not take is closed and counted.\<close>

definition chaos_on_accept :: "'e os \<Rightarrow> (fd \<Rightarrow> 'e \<Rightarrow> bool \<times> 'e) \<Rightarrow> fd \<Rightarrow> 'e world \<Rightarrow> 'e world option" where
  "chaos_on_accept os submit f w =
     (case sys_env (submit f) w of (ok, w1) \<Rightarrow>
        if \<not> ok then do { w2 \<leftarrow> safe_close os f w1; Some (metric Inc_errored w2) } else Some w1)"

text \<open>
  The drain, with the clients still running: the statements of \<open>main.cpp\<close> from \<open>acceptor.stop()\<close> to
  \<open>bpool.shutdown()\<close>, that is, a run of the machine of \<open>Router\<close>.
\<close>

definition chaos_drained :: "chaos_args \<Rightarrow> router_action list \<Rightarrow> router \<Rightarrow> bool" where
  "chaos_drained a acts s \<longleftrightarrow> runs router_step (router_init (chaos_tp_options a)) acts s \<and>
     (main_at s = StoppingBackends \<or> main_at s = Exited)"

section \<open>The clients\<close>

text \<open>As in the benchmark, a client's part is the list of its increments.\<close>

datatype stat_op = Sent | GotResponse | ConnectFailed | IoFailed

definition chaos_payload :: "int \<Rightarrow> bytes" where
  "chaos_payload cid = replicate 16 (of_int (cid mod 256))"

definition plain_round ::
    "'e os \<Rightarrow> ('a, 'e) netdb \<Rightarrow> endian \<Rightarrow> int \<Rightarrow> u16 \<Rightarrow> 'e world \<Rightarrow> (stat_op list \<times> 'e world) option" where
  "plain_round os nd e cid router_port w =
     do {
       (c, w1) \<leftarrow> dial_tcp os nd ''127.0.0.1'' router_port 2000 w;
       if c < 0 then Some ([ConnectFailed], w1)
       else do {
         (wr, w2) \<leftarrow> write_message os e c (chaos_payload cid) 5000 w1;
         if wr \<noteq> kOk then do { w3 \<leftarrow> safe_close os c w2; Some ([Sent, IoFailed], w3) }
         else do {
           (rd, got, w3) \<leftarrow> read_message os e c [] 1024 5000 w2;
           w4 \<leftarrow> safe_close os c w3;
           Some ([Sent, if rd = kOk then GotResponse else IoFailed], w4)
         }
       }
     }"

text \<open>
  The TLS client: \<open>S\<close> are the calls on objects of the client's context, \<open>ssl_connect\<close> is whether
  \<open>SSL_connect\<close> returns a positive number.
\<close>

definition tls_round ::
    "'e os \<Rightarrow> ('a, 'e) netdb \<Rightarrow> 'e openssl \<Rightarrow> (ssl \<Rightarrow> 'e \<Rightarrow> bool \<times> 'e) \<Rightarrow> endian \<Rightarrow> int \<Rightarrow> u16 \<Rightarrow> 'e world \<Rightarrow>
       (stat_op list \<times> 'e world) option" where
  "tls_round os nd S ssl_connect e cid router_port w =
     do {
       (c, w1) \<leftarrow> dial_tcp os nd ''127.0.0.1'' router_port 2000 w;
       if c < 0 then Some ([ConnectFailed], w1)
       else (case sys_env (ssl_new S) w1 of
           (None, w2) \<Rightarrow> do { w3 \<leftarrow> safe_close os c w2; Some ([IoFailed], w3) }
         | (Some s, w2) \<Rightarrow>
             let w3 = snd (sys_env (ssl_set_fd S s c) w2) in
             (case sys_env (ssl_connect s) w3 of (shaken, w4) \<Rightarrow>
                if \<not> shaken then do {
                  w5 \<leftarrow> safe_close os c (w4\<lparr>env := ssl_free S s (env w4)\<rparr>);
                  Some ([ConnectFailed], w5)
                }
                else do {
                  (wr, w5) \<leftarrow> stream_write_message os S e (stream_tls S (Some s)) (chaos_payload cid) 5000 w4;
                  if wr \<noteq> kOk then do { (st, w6) \<leftarrow> close_stream os S (stream_tls S (Some s)) w5; Some ([Sent, IoFailed], w6) }
                  else do {
                    (rd, got, w6) \<leftarrow> stream_read_message os S e (stream_tls S (Some s)) [] 1024 5000 w5;
                    (st, w7) \<leftarrow> close_stream os S (stream_tls S (Some s)) w6;
                    Some ([Sent, if rd = kOk then GotResponse else IoFailed], w7)
                  }
                }))
     }"

text \<open>The loop of both: \<open>one\<close> is the body.\<close>

fun chaos_client :: "('e world \<Rightarrow> (stat_op list \<times> 'e world) option) \<Rightarrow> nat \<Rightarrow> 'e world \<Rightarrow> (stat_op list \<times> 'e world) option" where
  "chaos_client one 0 w = Some ([], w)"
| "chaos_client one (Suc n) w =
     do { (ops, w1) \<leftarrow> one w; (ops', w2) \<leftarrow> chaos_client one n w1; Some (ops @ ops', w2) }"

definition client_main ::
    "'e os \<Rightarrow> ('a, 'e) netdb \<Rightarrow> endian \<Rightarrow> int \<Rightarrow> u16 \<Rightarrow> int \<Rightarrow> 'e world \<Rightarrow> (stat_op list \<times> 'e world) option" where
  "client_main os nd e cid router_port n w = chaos_client (plain_round os nd e cid router_port) (nat n) w"

definition tls_client_main ::
    "'e os \<Rightarrow> ('a, 'e) netdb \<Rightarrow> 'e openssl \<Rightarrow> (ssl \<Rightarrow> 'e \<Rightarrow> bool \<times> 'e) \<Rightarrow> endian \<Rightarrow> int \<Rightarrow> u16 \<Rightarrow> int \<Rightarrow> 'e world \<Rightarrow>
       (stat_op list \<times> 'e world) option" where
  "tls_client_main os nd S ssl_connect e cid router_port n w =
     chaos_client (tls_round os nd S ssl_connect e cid router_port) (nat n) w"

text \<open>The counters of all clients; the increments are atomic and come in some interleaving.\<close>

record client_stats =
  st_sent :: u64
  st_got_response :: u64
  st_connect_failed :: u64
  st_io_failed :: u64

fun count_stat :: "stat_op \<Rightarrow> client_stats \<Rightarrow> client_stats" where
  "count_stat Sent s = s\<lparr>st_sent := st_sent s + 1\<rparr>"
| "count_stat GotResponse s = s\<lparr>st_got_response := st_got_response s + 1\<rparr>"
| "count_stat ConnectFailed s = s\<lparr>st_connect_failed := st_connect_failed s + 1\<rparr>"
| "count_stat IoFailed s = s\<lparr>st_io_failed := st_io_failed s + 1\<rparr>"

definition client_stats_of :: "stat_op list \<Rightarrow> client_stats" where
  "client_stats_of ops =
     fold count_stat ops \<lparr>st_sent = 0, st_got_response = 0, st_connect_failed = 0, st_io_failed = 0\<rparr>"

section \<open>The verdict\<close>

definition invariant_ok :: "metrics \<Rightarrow> bool" where
  "invariant_ok m \<longleftrightarrow> completed m + errored m = accepted m \<and> dropped m = 0"

definition chaos_exit :: "metrics \<Rightarrow> nat" where
  "chaos_exit m = (if \<not> invariant_ok m then 1 else 0)"

text \<open>The result file: the times are in seconds since 1970.\<close>

definition ts_iso8601 :: "nat \<Rightarrow> string" where
  "ts_iso8601 t =
     (let g = gmtime t in
      pad 4 (tm_year g) @ ''-'' @ pad 2 (tm_mon g) @ ''-'' @ pad 2 (tm_mday g) @ ''T'' @
      pad 2 (tm_hour g) @ '':'' @ pad 2 (tm_min g) @ '':'' @ pad 2 (tm_sec g) @ ''Z'')"

record chaos_times =
  sigterm_ms :: int
  total_ms :: int
  started_at :: nat
  sigterm_at :: nat
  finished_at :: nat

definition chaos_trigger_line :: "int \<Rightarrow> metrics \<Rightarrow> string" where
  "chaos_trigger_line ms m =
     ''chaos: triggering shutdown at '' @ show_int ms @ ''ms (accepted='' @ show_u64 (accepted m) @
     '' in_flight='' @ show_u64 (in_flight m) @ '')'' @ [CHR 0x0A]"

definition chaos_verdict_line :: "metrics \<Rightarrow> string" where
  "chaos_verdict_line m =
     (if \<not> invariant_ok m then ''FAIL: invariant violated (dropped='' @ show_u64 (dropped m) @ '')'' @ [CHR 0x0A]
      else ''PASS: dropped == 0 over '' @ show_u64 (accepted m) @ '' accepted requests'' @ [CHR 0x0A])"

definition chaos_line :: "metrics \<Rightarrow> client_stats \<Rightarrow> chaos_times \<Rightarrow> string" where
  "chaos_line m st t =
     ''chaos: result accepted='' @ show_u64 (accepted m) @ '' completed='' @ show_u64 (completed m) @
     '' errored='' @ show_u64 (errored m) @ '' dropped='' @ show_u64 (dropped m) @
     '' client_sent='' @ show_u64 (st_sent st) @ '' client_got_response='' @ show_u64 (st_got_response st) @
     '' client_connect_failed='' @ show_u64 (st_connect_failed st) @ '' client_io_failed='' @ show_u64 (st_io_failed st) @
     '' total_ms='' @ show_int (total_ms t) @ [CHR 0x0A]"

definition chaos_members :: "chaos_args \<Rightarrow> metrics \<Rightarrow> client_stats \<Rightarrow> chaos_times \<Rightarrow> (string \<times> string) list" where
  "chaos_members a m st t =
     [(''schema'', quoted ''inference-router.chaos.v1''),
      (''verdict'', quoted (if invariant_ok m then ''pass'' else ''fail'')),
      (''dropped_total'', show_u64 (dropped m)),
      (''accepted_total'', show_u64 (accepted m)),
      (''completed_total'', show_u64 (completed m)),
      (''errored_total'', show_u64 (errored m)),
      (''client_sent'', show_u64 (st_sent st)),
      (''client_got_response'', show_u64 (st_got_response st)),
      (''client_connect_failed'', show_u64 (st_connect_failed st)),
      (''client_io_failed'', show_u64 (st_io_failed st)),
      (''clients'', show_int (ch_clients a)),
      (''requests_per_client'', show_int (ch_requests a)),
      (''router_threads'', show_int (ch_router_threads a)),
      (''backend_pool_size'', show_int (ch_pool_size a)),
      (''sigterm_after_ms'', show_int (sigterm_ms t)),
      (''total_ms'', show_int (total_ms t)),
      (''started_at'', quoted (ts_iso8601 (started_at t))),
      (''sigterm_at'', quoted (ts_iso8601 (sigterm_at t))),
      (''finished_at'', quoted (ts_iso8601 (finished_at t)))]"

definition chaos_file :: "chaos_args \<Rightarrow> metrics \<Rightarrow> client_stats \<Rightarrow> chaos_times \<Rightarrow> string" where
  "chaos_file a m st t = ''{'' @ [CHR 0x0A] @ member_lines (chaos_members a m st t) @ ''}'' @ [CHR 0x0A]"

section \<open>What a client counts\<close>

lemma chaos_on_accept_main: "chaos_on_accept = main_on_accept"
  by (intro ext) (simp add: chaos_on_accept_def main_on_accept_def)

definition chaos_client_ran ::
    "'e os \<Rightarrow> ('a, 'e) netdb \<Rightarrow> 'e openssl \<Rightarrow> (ssl \<Rightarrow> 'e \<Rightarrow> bool \<times> 'e) \<Rightarrow> endian \<Rightarrow> chaos_args \<Rightarrow> stat_op list \<Rightarrow> bool" where
  "chaos_client_ran os nd S ssl_connect e a ops \<longleftrightarrow>
     (\<exists>cid p w w'. (if ch_tls a then tls_client_main os nd S ssl_connect e cid p (ch_requests a) w
        else client_main os nd e cid p (ch_requests a) w) = Some (ops, w'))"

lemma plain_round_ops:
  "plain_round os nd e cid p w = Some (ops, w') \<Longrightarrow> ops \<in> {[ConnectFailed], [Sent, IoFailed], [Sent, GotResponse]}"
  by (auto simp: plain_round_def split: if_splits elim!: bind_SomeE)

lemma tls_round_ops:
  "tls_round os nd S sc e cid p w = Some (ops, w') \<Longrightarrow>
     ops \<in> {[ConnectFailed], [IoFailed], [Sent, IoFailed], [Sent, GotResponse]}"
  by (auto simp: tls_round_def Let_def split: if_splits prod.splits option.splits elim!: bind_SomeE)

text \<open>A count that every round adds the same to.\<close>

lemma chaos_client_counts:
  assumes "chaos_client one n w = Some (ops, w')"
    and "\<And>v ops v'. one v = Some (ops, v') \<Longrightarrow> sum_list (map f ops) = c"
  shows "sum_list (map f ops) = n * (c :: nat)"
  using assms(1) by (induction n arbitrary: w ops) (auto elim!: bind_SomeE dest!: assms(2))

fun is_end :: "stat_op \<Rightarrow> nat" where
  "is_end Sent = 0"
| "is_end _ = 1"

fun is_try :: "stat_op \<Rightarrow> nat" where
  "is_try Sent = 1"
| "is_try ConnectFailed = 1"
| "is_try _ = 0"

lemma chaos_client_ran_counts:
  assumes "chaos_client_ran os nd S sc e a ops"
  shows "sum_list (map is_end ops) = nat (ch_requests a)"
    and "\<not> ch_tls a \<Longrightarrow> sum_list (map is_try ops) = nat (ch_requests a)"
proof -
  have p: "sum_list (map is_end ops) = 1" "sum_list (map is_try ops) = 1" if "plain_round os nd e cid p v = Some (ops, v')"
    for cid p v ops v'
    using plain_round_ops [OF that] by auto
  have t: "sum_list (map is_end ops) = 1" if "tls_round os nd S sc e cid p v = Some (ops, v')" for cid p v ops v'
    using tls_round_ops [OF that] by auto
  show "sum_list (map is_end ops) = nat (ch_requests a)"
    using assms chaos_client_counts [OF _ p(1)] chaos_client_counts [OF _ t]
    by (auto simp: chaos_client_ran_def client_main_def tls_client_main_def split: if_splits)
  show "sum_list (map is_try ops) = nat (ch_requests a)" if "\<not> ch_tls a"
    using assms that chaos_client_counts [OF _ p(2)]
    by (auto simp: chaos_client_ran_def client_main_def)
qed

text \<open>The order of the increments does not matter.\<close>

lemma client_stats_counts:
  "st_got_response (client_stats_of ops) + st_connect_failed (client_stats_of ops) + st_io_failed (client_stats_of ops) =
     of_nat (sum_list (map is_end ops))"
  "st_sent (client_stats_of ops) + st_connect_failed (client_stats_of ops) = of_nat (sum_list (map is_try ops))"
proof -
  have "st_got_response (fold count_stat ops s) + st_connect_failed (fold count_stat ops s) + st_io_failed (fold count_stat ops s) =
      st_got_response s + st_connect_failed s + st_io_failed s + of_nat (sum_list (map is_end ops)) \<and>
    st_sent (fold count_stat ops s) + st_connect_failed (fold count_stat ops s) =
      st_sent s + st_connect_failed s + of_nat (sum_list (map is_try ops))" for s
  proof (induction ops arbitrary: s)
    case (Cons op ops)
    then show ?case by (cases op) (simp_all add: algebra_simps)
  qed simp
  from this [of "\<lparr>st_sent = 0, st_got_response = 0, st_connect_failed = 0, st_io_failed = 0\<rparr>"]
  show "st_got_response (client_stats_of ops) + st_connect_failed (client_stats_of ops) + st_io_failed (client_stats_of ops) =
      of_nat (sum_list (map is_end ops))"
    "st_sent (client_stats_of ops) + st_connect_failed (client_stats_of ops) = of_nat (sum_list (map is_try ops))"
    by (simp_all add: client_stats_of_def)
qed

lemma sum_interleaved:
  assumes "mset ops = mset (concat progs)" and "list_all (\<lambda>p. sum_list (map f p) = c) progs"
  shows "sum_list (map f ops) = length progs * (c :: nat)"
proof -
  have "sum_list (map f ops) = sum_mset (image_mset f (mset ops))" by (simp flip: sum_mset_sum_list)
  also have "\<dots> = sum_list (map f (concat progs))" unfolding assms(1) by (simp flip: sum_mset_sum_list)
  also have "\<dots> = length progs * c" using assms(2) by (induction progs) auto
  finally show ?thesis .
qed

text \<open>
  The clients of the chaos test, plain or over TLS, account for every request. Whatever the network
  and OpenSSL do, and in whatever order the threads count, once the clients have returned the answers, the
  failed connects and the failed exchanges add up to the number of clients times their requests; the
  plain clients count each request as sent or as a failed connect, and each sent one as answered or failed.
\<close>

lemma chaos_clients_account:
  assumes "list_all (chaos_client_ran os nd S ssl_connect e a) progs" and "mset ops = mset (concat progs)"
  shows "let st = client_stats_of ops; n = of_nat (length progs * nat (ch_requests a)) in
    st_got_response st + st_connect_failed st + st_io_failed st = n \<and>
    (\<not> ch_tls a \<longrightarrow> st_sent st + st_connect_failed st = n \<and> st_got_response st + st_io_failed st = st_sent st)"
proof -
  have "list_all (\<lambda>p. sum_list (map is_end p) = nat (ch_requests a)) progs"
    "\<not> ch_tls a \<Longrightarrow> list_all (\<lambda>p. sum_list (map is_try p) = nat (ch_requests a)) progs"
    using assms(1) by (auto simp: list_all_iff dest: chaos_client_ran_counts)
  from sum_interleaved [OF assms(2) this(1)] sum_interleaved [OF assms(2) this(2)]
  have "sum_list (map is_end ops) = length progs * nat (ch_requests a)"
    "\<not> ch_tls a \<Longrightarrow> sum_list (map is_try ops) = length progs * nat (ch_requests a)" .
  then have "st_got_response (client_stats_of ops) + st_connect_failed (client_stats_of ops) + st_io_failed (client_stats_of ops) =
      of_nat (length progs * nat (ch_requests a))"
    "\<not> ch_tls a \<Longrightarrow> st_sent (client_stats_of ops) + st_connect_failed (client_stats_of ops) =
      of_nat (length progs * nat (ch_requests a))"
    unfolding client_stats_counts by presburger+
  moreover from this have "\<not> ch_tls a \<Longrightarrow>
      st_got_response (client_stats_of ops) + st_io_failed (client_stats_of ops) = st_sent (client_stats_of ops)"
    by (metis add.commute add.left_commute add_left_cancel)
  ultimately show ?thesis by (simp add: Let_def)
qed

section \<open>The result file\<close>

lemma plain_pad: "list_all plain_char (pad k n)"
  using is_digit_show_nat [of n] by (fastforce simp: pad_def list_all_iff plain_char_def is_digit_def)

lemma chaos_file_loads:
  "\<exists>d. json_load (chaos_file a m st t) = Some d \<and>
     get0 d ''verdict'' = JStr (if invariant_ok m then ''pass'' else ''fail'') \<and>
     get0 d ''dropped_total'' = JNum (JInt (int (unat (dropped m))))"
proof -
  define u where "u = (\<lambda>x :: u64. JNum (JInt (int (unat x))))"
  define i where "i = (\<lambda>x. JNum (JInt x))"
  define z where "z = (\<lambda>x. JStr (ts_iso8601 x))"
  have r: "reads (show_u64 x) (u x)" "reads (show_int y) (i y)" "reads (quoted (ts_iso8601 n)) (z n)" for x y n
    using reads_nat [of "unat x"] reads_int reads_quoted [of "ts_iso8601 n"]
    by (simp_all add: show_u64_def u_def i_def z_def ts_iso8601_def Let_def plain_pad) (simp add: plain_char_def)
  have q: "reads (quoted ''inference-router.chaos.v1'') (JStr ''inference-router.chaos.v1'')"
    "reads (quoted ''pass'') (JStr ''pass'')" "reads (quoted ''fail'') (JStr ''fail'')"
    by (intro reads_quoted; simp add: plain_char_def)+
  let ?d = "[(''schema'', JStr ''inference-router.chaos.v1''), (''verdict'', JStr (if invariant_ok m then ''pass'' else ''fail'')),
    (''dropped_total'', u (dropped m)), (''accepted_total'', u (accepted m)), (''completed_total'', u (completed m)),
    (''errored_total'', u (errored m)), (''client_sent'', u (st_sent st)), (''client_got_response'', u (st_got_response st)),
    (''client_connect_failed'', u (st_connect_failed st)), (''client_io_failed'', u (st_io_failed st)),
    (''clients'', i (ch_clients a)), (''requests_per_client'', i (ch_requests a)), (''router_threads'', i (ch_router_threads a)),
    (''backend_pool_size'', i (ch_pool_size a)), (''sigterm_after_ms'', i (sigterm_ms t)), (''total_ms'', i (total_ms t)),
    (''started_at'', z (started_at t)), (''sigterm_at'', z (sigterm_at t)), (''finished_at'', z (finished_at t))]"
  have "list_all2 member_reads (chaos_members a m st t) ?d"
    by (simp add: chaos_members_def member_reads_def r q plain_char_def)
  then have "json_load (chaos_file a m st t) = Some ?d"
    unfolding chaos_file_def by (rule json_load_printed) (simp add: chaos_members_def)
  moreover have "get0 ?d ''verdict'' = JStr (if invariant_ok m then ''pass'' else ''fail'')" "get0 ?d ''dropped_total'' = u (dropped m)"
    by (simp_all add: get0_def)
  ultimately show ?thesis unfolding u_def by blast
qed

section \<open>How the test can end early\<close>

text \<open>
  The chaos test, too, is terminated instead of returning its exit code when its router cannot be set
  up: each exit of \<open>main\<close> between the start of the echo backend and the end of the run leaves the backend's
  thread joinable. The code is returned only for options that do not parse, for \<open>--help\<close>, and when the
  backend itself does not start.
\<close>

lemma chaos_setup_ends:
  assumes "chaos_begin os nd ep e c ctx_new options w = Some (Inl x, w')"
  shows "(x = BenchTerminate \<and> (\<exists>l p w1. bench_backend_start os nd ep e w = Some (True, l, p, w1))) \<or>
    (x = BenchExit 1 \<and> (\<exists>l p. bench_backend_start os nd ep e w = Some (False, l, p, w'))) \<or>
    (x = BenchExit 0 \<and> chaos_parse_args options default_chaos_args = ChaosHelp) \<or>
    (x = BenchExit 2 \<and> chaos_parse_args options default_chaos_args = ChaosFailed)"
  using assms
  by (auto simp: chaos_begin_def chaos_setup_def leave_main_def split: chaos_parse.splits if_splits elim!: bind_SomeE)

section \<open>Properties\<close>

text \<open>
  C33: the verdict of the chaos test is about drops and nothing else. When the router of the test has been
  drained, by any interleaving, every accepted connection has been completed or counted as an error, so
  the first half of the test's invariant always holds; the program exits with 0, and a reader of its
  result file finds \<open>pass\<close>, exactly if the drain never counted a drop.
\<close>

theorem chaos_verdict:
  assumes "chaos_drained a acts s"
  shows "completed (counters s) + errored (counters s) = accepted (counters s) \<and>
    (chaos_exit (counters s) = 0 \<longleftrightarrow> DropOne \<notin> set acts) \<and>
    (\<exists>d. json_load (chaos_file a (counters s) st t) = Some d \<and>
       get0 d ''verdict'' = JStr (if DropOne \<in> set acts then ''fail'' else ''pass''))"
proof -
  have "\<not> reject_on_full (chaos_tp_options a)" by (simp add: chaos_tp_options_def default_tp_options_def)
  note r = assms [unfolded chaos_drained_def]
  from drained(1) [OF router_runs_ok [OF conjunct1 [OF r] \<open>\<not> reject_on_full (chaos_tp_options a)\<close>] conjunct2 [OF r]]
  have d: "accepted (counters s) = completed (counters s) + errored (counters s)" .
  with dropped_iff [OF conjunct1 [OF r]] have ok: "invariant_ok (counters s) \<longleftrightarrow> DropOne \<notin> set acts"
    by (simp add: invariant_ok_def)
  from d ok chaos_file_loads [of a "counters s" st t] show ?thesis by (auto simp: chaos_exit_def)
qed

definition demo_chaos_args :: chaos_args where
  "demo_chaos_args = default_chaos_args\<lparr>ch_router_threads := 1, ch_clients := 1, ch_requests := 1\<rparr>"

lemma chaos_demo_runs:
  "\<exists>s. runs router_step (router_init (chaos_tp_options demo_chaos_args)) drop_run s \<and> main_at s = Exited"
  by (simp add: drop_run_def runs_Cons_iff router_run_iffs tp_run_iffs router_init_def tp_init_def new_thread_pool_def
      chaos_tp_options_def default_tp_options_def demo_chaos_args_def tp_locked_iffs wake_worker_def wakes_submitter_def
      notify_all_def metric_simps metrics_init_def)

theorem chaos_verdict_witness:
  "\<exists>s. runs router_step (router_init (chaos_tp_options demo_chaos_args)) drop_run s \<and>
     completed (counters s) + errored (counters s) = accepted (counters s) \<and> chaos_exit (counters s) \<noteq> 0"
proof -
  obtain s where s: "runs router_step (router_init (chaos_tp_options demo_chaos_args)) drop_run s" "main_at s = Exited"
    using chaos_demo_runs by blast
  have "DropOne \<in> set drop_run" by (simp add: drop_run_def)
  with chaos_verdict [of demo_chaos_args drop_run s] s show ?thesis by (auto simp: chaos_drained_def)
qed

end
