(* ===== verification/Echo_Threads.thy ===== *)
theory Echo_Threads
  imports Echo_Backend
begin

text \<open>
  The threads of the \<open>EchoBackend\<close> that \<open>src/bench/load.cpp\<close> and \<open>src/tests/chaos/chaos.cpp\<close> run in their
  own process, the same text in both: the thread that accepts, a thread per connection, and the main
  thread in \<open>shutdown\<close>. What the accepting thread and a connection's thread do to the network is
  \<open>echo_accept_loop\<close> and \<open>bench_echo_worker\<close>; here only who runs, who waits for whom, and the lock
  \<open>workers_mu\<close> matter.
\<close>

section \<open>The machine\<close>

text \<open>
  The accepting thread: not created, at the test of \<open>stop\<close>, in \<open>poll\<close>, in \<open>accept\<close>, with a connection for
  which a worker is to be created, before the close of the listener, returned.
\<close>

datatype server_at =
  NoServer | TestStop | InPoll | InAccept | HasConnection fd | ClosingListener | ServerReturned

text \<open>\<open>ServesConn c\<close>: the thread is in its loop on the connection \<open>c\<close>.\<close>

datatype worker_at = ServesConn fd | WorkerReturned

text \<open>
  The main thread: before \<open>shutdown\<close>, in the join of the accepting thread, before the lock, holding the lock
  and about to join the worker of the given index, returned from \<open>shutdown\<close>.
\<close>

datatype shut_at = BeforeShutdown | JoinsServer | TakesLock | JoinsWorker nat | ShutdownDone

record echo_threads =
  stop_flag :: bool
  server :: server_at
  workers_of :: "worker_at list"
  shut :: shut_at

definition echo_threads_init :: "bool \<Rightarrow> echo_threads" where
  "echo_threads_init started = \<lparr>stop_flag = False, server = (if started then TestStop else NoServer),
     workers_of = [], shut = BeforeShutdown\<rparr>"

definition workers_mu_held :: "echo_threads \<Rightarrow> bool" where
  "workers_mu_held s = (case shut s of JoinsWorker k \<Rightarrow> True | _ \<Rightarrow> False)"

datatype echo_action =
    Test | PollNothing | PollReadable | AcceptFails | AcceptGives fd | SpawnWorker | CloseListener
  | WorkerEnds nat | StoreStop | ServerJoined | LockWorkers | WorkerJoined | ShutdownReturns

inductive echo_step :: "echo_threads \<Rightarrow> echo_action \<Rightarrow> echo_threads \<Rightarrow> bool" where
  test: "server s = TestStop \<Longrightarrow>
    echo_step s Test (s\<lparr>server := (if stop_flag s then ClosingListener else InPoll)\<rparr>)"
| poll_nothing: "server s = InPoll \<Longrightarrow> echo_step s PollNothing (s\<lparr>server := TestStop\<rparr>)"
| poll_readable: "server s = InPoll \<Longrightarrow> echo_step s PollReadable (s\<lparr>server := InAccept\<rparr>)"
| accept_fails: "server s = InAccept \<Longrightarrow> echo_step s AcceptFails (s\<lparr>server := TestStop\<rparr>)"
| accept_gives: "server s = InAccept \<Longrightarrow> 0 \<le> c \<Longrightarrow>
    echo_step s (AcceptGives c) (s\<lparr>server := HasConnection c\<rparr>)"
| spawn_worker: "server s = HasConnection c \<Longrightarrow> \<not> workers_mu_held s \<Longrightarrow>
    echo_step s SpawnWorker (s\<lparr>server := TestStop, workers_of := workers_of s @ [ServesConn c]\<rparr>)"
| close_listener: "server s = ClosingListener \<Longrightarrow> echo_step s CloseListener (s\<lparr>server := ServerReturned\<rparr>)"
| worker_ends: "i < length (workers_of s) \<Longrightarrow> workers_of s ! i = ServesConn c \<Longrightarrow>
    echo_step s (WorkerEnds i) (s\<lparr>workers_of := (workers_of s)[i := WorkerReturned]\<rparr>)"
| store_stop: "shut s = BeforeShutdown \<Longrightarrow>
    echo_step s StoreStop (s\<lparr>stop_flag := True, shut := JoinsServer\<rparr>)"
| server_joined: "shut s = JoinsServer \<Longrightarrow> server s = NoServer \<or> server s = ServerReturned \<Longrightarrow>
    echo_step s ServerJoined (s\<lparr>shut := TakesLock\<rparr>)"
| lock_workers: "shut s = TakesLock \<Longrightarrow> \<not> workers_mu_held s \<Longrightarrow>
    echo_step s LockWorkers (s\<lparr>shut := JoinsWorker 0\<rparr>)"
| worker_joined: "shut s = JoinsWorker k \<Longrightarrow> k < length (workers_of s) \<Longrightarrow>
    workers_of s ! k = WorkerReturned \<Longrightarrow>
    echo_step s WorkerJoined (s\<lparr>shut := JoinsWorker (Suc k)\<rparr>)"
| shutdown_returns: "shut s = JoinsWorker k \<Longrightarrow> length (workers_of s) \<le> k \<Longrightarrow>
    echo_step s ShutdownReturns (s\<lparr>shut := ShutdownDone\<rparr>)"

inductive_cases echo_stepE: "echo_step s a t"

section \<open>Who waits for whom\<close>

text \<open>
  \<open>stop\<close> is set exactly by \<open>shutdown\<close>; past the first join there is no accepting thread any more; the
  workers before the index have been joined, all of them at the end.
\<close>

definition server_over :: "echo_threads \<Rightarrow> bool" where
  "server_over s \<longleftrightarrow> server s = NoServer \<or> server s = ServerReturned"

definition returned_up_to :: "nat \<Rightarrow> worker_at list \<Rightarrow> bool" where
  "returned_up_to k ws \<longleftrightarrow> (\<forall>x \<in> set (take k ws). x = WorkerReturned)"

definition echo_threads_ok :: "echo_threads \<Rightarrow> bool" where
  "echo_threads_ok s \<longleftrightarrow>
     (stop_flag s = (shut s \<noteq> BeforeShutdown)) \<and>
     (case shut s of
        BeforeShutdown \<Rightarrow> True
      | JoinsServer \<Rightarrow> True
      | TakesLock \<Rightarrow> server_over s
      | JoinsWorker k \<Rightarrow> server_over s \<and> k \<le> length (workers_of s) \<and> returned_up_to k (workers_of s)
      | ShutdownDone \<Rightarrow> server_over s \<and> returned_up_to (length (workers_of s)) (workers_of s))"

lemma returned_0 [simp]: "returned_up_to 0 ws"
  by (simp add: returned_up_to_def)

lemma returned_update: "returned_up_to k ws \<Longrightarrow> returned_up_to k (ws[i := WorkerReturned])"
  by (auto simp: returned_up_to_def take_update_swap dest!: set_update_subset_insert [THEN subsetD])

lemma returned_Suc:
  "returned_up_to k ws \<Longrightarrow> k < length ws \<Longrightarrow> ws ! k = WorkerReturned \<Longrightarrow> returned_up_to (Suc k) ws"
  by (auto simp: returned_up_to_def take_Suc_conv_app_nth)

lemma echo_threads_ok_step:
  assumes "echo_threads_ok s" and "echo_step s a t"
  shows "echo_threads_ok t"
  using assms(2,1)
  by cases (auto simp: echo_threads_ok_def server_over_def workers_mu_held_def le_antisym
      intro: returned_update returned_Suc split: shut_at.splits)

interpretation echo_threads_inv: machine_invariant echo_step echo_threads_ok
  by unfold_locales (rule echo_threads_ok_step)

section \<open>What is left to do\<close>

text \<open>
  An upper bound on the steps of all threads once \<open>stop\<close> is set. A connection that is still taken counts
  with its worker: the creation, the end and the join.
\<close>

fun server_left :: "server_at \<Rightarrow> nat" where
  "server_left NoServer = 0"
| "server_left TestStop = 2"
| "server_left InPoll = 7"
| "server_left InAccept = 6"
| "server_left (HasConnection c) = 5"
| "server_left ClosingListener = 1"
| "server_left ServerReturned = 0"

definition serving :: "worker_at list \<Rightarrow> nat" where
  "serving ws = length (filter (\<lambda>x. x \<noteq> WorkerReturned) ws)"

definition shut_left :: "nat \<Rightarrow> shut_at \<Rightarrow> nat" where
  "shut_left n p = (case p of
       BeforeShutdown \<Rightarrow> 4 + n
     | JoinsServer \<Rightarrow> 3 + n
     | TakesLock \<Rightarrow> 2 + n
     | JoinsWorker k \<Rightarrow> 1 + (n - k)
     | ShutdownDone \<Rightarrow> 0)"

definition echo_left :: "echo_threads \<Rightarrow> nat" where
  "echo_left s = server_left (server s) + serving (workers_of s) + shut_left (length (workers_of s)) (shut s)"

lemma serving_simps [simp]:
  "serving [] = 0" "serving (ServesConn c # ws) = Suc (serving ws)"
  "serving (WorkerReturned # ws) = serving ws" "serving (ws @ vs) = serving ws + serving vs"
  by (simp_all add: serving_def)

lemma serving_update:
  assumes "i < length ws" and "ws ! i = ServesConn c"
  shows "serving ws = Suc (serving (ws[i := WorkerReturned]))"
proof -
  have "serving ws = serving (take i ws @ ServesConn c # drop (Suc i) ws)"
    using id_take_nth_drop [OF assms(1)] assms(2) by simp
  then show ?thesis using upd_conv_take_nth_drop [OF assms(1), of WorkerReturned] by simp
qed

lemma echo_left_step:
  assumes "echo_threads_ok s" and "stop_flag s" and "echo_step s a t"
  shows "stop_flag t \<and> echo_left t < echo_left s"
  using assms(3)
proof cases
  case (spawn_worker c)
  with assms(1,2) show ?thesis
    by (auto simp: echo_left_def shut_left_def workers_mu_held_def echo_threads_ok_def server_over_def
        split: shut_at.splits)
next
  case (worker_ends i c)
  with assms(2) serving_update [OF worker_ends(3,4)] show ?thesis by (simp add: echo_left_def)
next
  case store_stop
  with assms(1,2) show ?thesis by (simp add: echo_threads_ok_def)
qed (use assms(2) in \<open>auto simp: echo_left_def shut_left_def\<close>)

lemma echo_left_runs:
  assumes "runs echo_step s acts t" and "echo_threads_ok s" and "stop_flag s"
  shows "length acts + echo_left t \<le> echo_left s \<and> stop_flag t"
  using assms
proof (induction rule: runs.induct)
  case (runs_Cons s a t acts u)
  from echo_left_step [OF runs_Cons.prems runs_Cons.hyps(1)] runs_Cons.IH
    echo_threads_ok_step [OF runs_Cons.prems(1) runs_Cons.hyps(1)]
  show ?case by auto
qed simp

lemma echo_left_bound: "stop_flag s \<Longrightarrow> echo_threads_ok s \<Longrightarrow> echo_left s \<le> 2 * length (workers_of s) + 10"
proof -
  assume "stop_flag s" "echo_threads_ok s"
  have "serving (workers_of s) \<le> length (workers_of s)" by (simp add: serving_def)
  moreover have "server_left (server s) \<le> 7" by (cases "server s") simp_all
  moreover have "shut_left (length (workers_of s)) (shut s) \<le> 3 + length (workers_of s)"
    using \<open>stop_flag s\<close> \<open>echo_threads_ok s\<close> by (cases "shut s") (auto simp: shut_left_def echo_threads_ok_def)
  ultimately show ?thesis by (simp add: echo_left_def)
qed

text \<open>Some thread can always go on.\<close>

lemma server_goes_on:
  assumes "\<not> server_over s" and "\<not> workers_mu_held s"
  shows "\<exists>a t. echo_step s a t"
proof (cases "server s")
  case TestStop then show ?thesis by (blast intro: test)
next
  case InPoll then show ?thesis by (blast intro: poll_nothing)
next
  case InAccept then show ?thesis by (blast intro: accept_fails)
next
  case (HasConnection c) then show ?thesis using assms(2) by (blast intro: spawn_worker)
next
  case ClosingListener then show ?thesis by (blast intro: close_listener)
qed (use assms(1) in \<open>simp_all add: server_over_def\<close>)

lemma echo_goes_on:
  assumes "echo_threads_ok s" and "shut s \<noteq> ShutdownDone"
  shows "\<exists>a t. echo_step s a t"
proof (cases "shut s")
  case BeforeShutdown then show ?thesis by (blast intro: store_stop)
next
  case JoinsServer
  then have "\<not> workers_mu_held s" by (simp add: workers_mu_held_def)
  with JoinsServer server_goes_on show ?thesis by (blast intro: server_joined dest: server_over_def [THEN iffD1])
next
  case TakesLock
  then have "\<not> workers_mu_held s" by (simp add: workers_mu_held_def)
  with TakesLock show ?thesis by (blast intro: lock_workers)
next
  case (JoinsWorker k)
  show ?thesis
  proof (cases "k < length (workers_of s)")
    case True
    show ?thesis
      by (cases "workers_of s ! k") (use True JoinsWorker in \<open>blast intro: worker_ends worker_joined\<close>)+
  next
    case False
    then have "length (workers_of s) \<le> k" by simp
    with JoinsWorker show ?thesis by (blast intro: shutdown_returns)
  qed
qed (use assms(2) in simp)

lemma shutdown_done_over:
  "echo_threads_ok s \<Longrightarrow> shut s = ShutdownDone \<Longrightarrow>
     server_over s \<and> list_all (\<lambda>x. x = WorkerReturned) (workers_of s)"
  by (simp add: echo_threads_ok_def returned_up_to_def list_all_iff)

lemma echo_threads_init_ok: "echo_threads_ok (echo_threads_init started)"
  by (simp add: echo_threads_ok_def echo_threads_init_def)

section \<open>Shutting the echo backend down\<close>

text \<open>
  C32: \<open>EchoBackend::shutdown\<close> returns, and when it has returned no thread is left. After the store to
  \<open>stop\<close> the accepting thread, the workers and the caller take at most twice the number of workers plus
  ten steps, counting a poll, an accept, a whole connection or a join as one, and while \<open>shutdown\<close> has
  not returned one of them can take a step: the accepting thread never waits for the lock that
  \<open>shutdown\<close> holds while it joins, since by then it has been joined itself. At the end the listener's
  thread and every worker have returned, so that destroying the object ends the program normally.
\<close>

theorem echo_shutdown_returns:
  assumes "runs echo_step (echo_threads_init started) acts s" and "stop_flag s"
    and "runs echo_step s acts' t"
  shows "length acts' \<le> 2 * length (workers_of s) + 10 \<and>
    (shut t = ShutdownDone \<or> (\<exists>a u. echo_step t a u)) \<and>
    (shut t = ShutdownDone \<longrightarrow> server t \<in> {NoServer, ServerReturned} \<and>
      list_all (\<lambda>x. x = WorkerReturned) (workers_of t))"
proof -
  have ok: "echo_threads_ok s" by (rule echo_threads_inv.ok_runs [OF assms(1) echo_threads_init_ok])
  have t: "echo_threads_ok t" by (rule echo_threads_inv.ok_runs [OF assms(3) ok])
  from echo_left_runs [OF assms(3) ok assms(2)] echo_left_bound [OF assms(2) ok]
  have "length acts' \<le> 2 * length (workers_of s) + 10" by linarith
  moreover have "shut t = ShutdownDone \<or> (\<exists>a u. echo_step t a u)" using echo_goes_on [OF t] by blast
  moreover have "shut t = ShutdownDone \<longrightarrow> server t \<in> {NoServer, ServerReturned} \<and>
      list_all (\<lambda>x. x = WorkerReturned) (workers_of t)"
    using shutdown_done_over [OF t] by (auto simp: server_over_def)
  ultimately show ?thesis by blast
qed

theorem echo_shutdown_returns_witness:
  "list_all (\<lambda>x. x = WorkerReturned) (workers_of
     \<lparr>stop_flag = True, server = ServerReturned, workers_of = [WorkerReturned], shut = ShutdownDone\<rparr>) \<and>
   length [Test, CloseListener, WorkerEnds 0, ServerJoined, LockWorkers, WorkerJoined, ShutdownReturns] \<le> 12"
proof -
  let ?st = "\<lambda>b v ws m. \<lparr>stop_flag = b, server = v, workers_of = ws, shut = m\<rparr>"
  let ?w = "[ServesConn 7]" and ?r = "[WorkerReturned]"
  have 1: "runs echo_step (echo_threads_init True) [Test, PollReadable, AcceptGives 7, SpawnWorker, StoreStop]
      (?st True TestStop ?w JoinsServer)"
    by (auto simp: runs_Cons_iff echo_step.simps echo_threads_init_def workers_mu_held_def)
  have 2: "runs echo_step (?st True TestStop ?w JoinsServer)
      [Test, CloseListener, WorkerEnds 0, ServerJoined, LockWorkers, WorkerJoined, ShutdownReturns]
      (?st True ServerReturned ?r ShutdownDone)"
    by (auto simp: runs_Cons_iff echo_step.simps workers_mu_held_def)
  from echo_shutdown_returns [OF 1 _ 2] show ?thesis by simp
qed

end
