(* ===== verification/Teardown.thy ===== *)
theory Teardown
  imports Acceptor Backend_Set
begin

text \<open>
  How \<open>main\<close> of \<open>src/src/main.cpp\<close> gives its descriptors back: it stops the acceptor, waits for the
  requests, shuts the backends down and returns, and the destructors of \<open>acceptor\<close> and \<open>backend_set\<close> make
  the same calls again.
\<close>

section \<open>The end of main\<close>

text \<open>
  \<open>serve\<close> is what the other threads do between \<open>acceptor.stop()\<close> and the end of \<open>pool.stop()\<close>: requests are
  finished and their connections go back to the pools.
\<close>

definition main_end ::
    "'e os \<Rightarrow> 'e epoll \<Rightarrow> (backend_set \<Rightarrow> 'e world \<Rightarrow> backend_set \<times> 'e world) \<Rightarrow> acceptor \<Rightarrow> backend_set \<Rightarrow>
       'e world \<Rightarrow> (acceptor \<times> backend_set \<times> 'e world) option" where
  "main_end os ep serve acc s w =
     do {
       (acc1, w1) \<leftarrow> acceptor_stop os ep acc w;
       let (s1, w2) = serve s w1;
       (s2, w3) \<leftarrow> set_shutdown os s1 w2;
       (acc2, w4) \<leftarrow> destroy_acceptor os ep acc1 w3;
       (s3, w5) \<leftarrow> destroy_set os s2 w4;
       Some (acc2, s3, w5)
     }"

section \<open>Shutting down a set\<close>

lemma shutdown_pools_effect:
  assumes "shutdown_pools os ps w = Some (ps', w')" and "\<forall>p \<in> set ps. pool_wf p \<and> \<not> shutting_down p"
  shows "ps' = map (\<lambda>p. p\<lparr>shutting_down := True, idle := []\<rparr>) ps \<and>
    did w (map EvClose (concat (map idle_fds ps))) w'"
  using assms
proof (induction ps arbitrary: w ps')
  case (Cons p ps)
  from Cons.prems(1) obtain p1 w1 ps1 where s: "shutdown os p w = Some (p1, w1)"
    "shutdown_pools os ps w1 = Some (ps1, w')" "ps' = p1 # ps1" by (auto elim!: bind_SomeE)
  from shutdown_effect [OF s(1)] Cons.prems(2)
  have "p1 = p\<lparr>shutting_down := True, idle := []\<rparr>" "did w (map EvClose (idle_fds p)) w1" by simp_all
  with Cons.IH [OF s(2)] Cons.prems(2) s(3) did_trans show ?case by fastforce
qed simp

lemma shutdown_pools_again: "\<forall>p \<in> set ps. shutting_down p \<Longrightarrow> shutdown_pools os ps w = Some (ps, w)"
  by (induction ps) (simp_all add: shutdown_again)

lemma acceptor_stop_again:
  "acceptor_stop os ep a w = Some (a', w') \<Longrightarrow> acceptor_stop os ep a' v = Some (a', v)"
  by (auto simp: acceptor_stop_def Let_def split: if_splits elim!: bind_SomeE)

text \<open>
  The destructors add nothing: the listening socket, the event descriptor and the \<open>epoll\<close> descriptor are closed
  by the first \<open>stop\<close>, every idle connection by the first \<open>shutdown\<close>, each once, and no pool lends again.
\<close>

lemma main_end_closes_once:
  assumes "main_end os ep serve acc s w = Some (acc', s', w')"
    and "acceptor_stop os ep acc w = Some (acc1, w1)" and "serve s w1 = (s1, w2)"
    and "\<forall>p \<in> set (pools s1). pool_wf p \<and> \<not> shutting_down p"
  shows "acc' = acc1 \<and> did w2 (map EvClose (concat (map idle_fds (pools s1)))) w' \<and>
    (\<forall>p \<in> set (pools s'). shutting_down p \<and> idle p = [])"
proof -
  from assms(1-3) obtain ps w3 w4 where ps: "shutdown_pools os (pools s1) w2 = Some (ps, w3)"
    and d: "destroy_acceptor os ep acc1 w3 = Some (acc', w4)"
    and e: "destroy_set os (s1\<lparr>pools := ps\<rparr>) w4 = Some (s', w')"
    by (auto simp: main_end_def set_shutdown_def elim!: bind_SomeE)
  note ps' = shutdown_pools_effect [OF ps assms(4)]
  have "acc' = acc1" "w4 = w3"
    using d acceptor_stop_again [OF assms(2)] by (simp_all add: destroy_acceptor_def)
  moreover have "shutdown_pools os ps w4 = Some (ps, w4)"
    by (rule shutdown_pools_again) (use ps' in auto)
  with e have "s' = s1\<lparr>pools := ps\<rparr>" "w' = w4" by (simp_all add: destroy_set_def set_shutdown_def)
  ultimately show ?thesis using ps' by auto
qed

end
