(* ===== verification/Slow_Peer.thy ===== *)
theory Slow_Peer
  imports Connection
begin

text \<open>
  How long a message read may take. \<open>connection.h\<close> calls \<open>timeout_ms\<close> the read deadline; the code hands it to
  \<open>wait_for\<close> before every \<open>recv\<close>, so it bounds the pause before each piece and not the message. The kernel
  below delivers one byte per \<open>recv\<close>, each just before \<open>poll\<close> would time out.
\<close>

section \<open>A slow kernel\<close>

text \<open>The environment is the time in nanoseconds and the bytes still to come.\<close>

definition slow_os :: "(int \<times> bytes) os" where
  "slow_os = \<lparr>os_clock = (\<lambda>e. (fst e, e)),
     os_poll = (\<lambda>f ev t e. (PollReady False, (fst e + t * ns_per_ms, snd e))),
     os_recv = (\<lambda>f n e. if n = 0 \<or> snd e = [] then (RecvEof, e)
       else (RecvData [hd (snd e)], (fst e, tl (snd e)))),
     os_send = (\<lambda>f bs e. (SendCount (length bs), e)), os_close = (\<lambda>f e. (None, e)),
     os_getfl = (\<lambda>f e. (Some 0, e)), os_setfl = (\<lambda>f v e. (True, e))\<rparr>"

lemma slow_laws: "recv_bounded slow_os" "finite_interrupts slow_os (\<lambda>_. 0)"
  by (auto simp: recv_bounded_def finite_interrupts_def slow_os_def close_cost_def split: if_splits)

lemma slow_sys:
  "sys_clock slow_os w = (fst (env w), w)"
  "sys_poll slow_os f ev t w = (PollReady False, w\<lparr>env := (fst (env w) + t * ns_per_ms, snd (env w))\<rparr>)"
  "sys_recv slow_os f n w = (if n = 0 \<or> snd (env w) = [] then (RecvEof, w)
     else (RecvData [hd (snd (env w))],
       emit [EvRecv f [hd (snd (env w))]] (w\<lparr>env := (fst (env w), tl (snd (env w)))\<rparr>)))"
  by (simp_all add: sys_clock_def sys_poll_def sys_recv_def slow_os_def emit_def)

lemma slow_wait_for:
  assumes "0 \<le> t"
  shows "wait_for slow_os f ev t w = Some (1, w\<lparr>env := (fst (env w) + t * ns_per_ms, snd (env w))\<rparr>)"
  using assms
  by (cases "t = 0") (simp_all add: wait_for_def wait_for_loop.simps [of slow_os] slow_sys ns_per_ms_def)

text \<open>Reading \<open>k\<close> bytes takes \<open>k\<close> timeouts and succeeds.\<close>

lemma slow_read_exact:
  assumes "0 \<le> t" and "need = length got + k" and "k \<le> length (snd (env w))"
  shows "\<exists>w'. read_exact slow_os f need t b got w = Some (kOk, got @ take k (snd (env w)), w') \<and>
    env w' = (fst (env w) + int k * t * ns_per_ms, drop k (snd (env w)))"
  using assms(2,3)
proof (induction k arbitrary: got w)
  case 0
  then show ?case by (simp add: read_exact.simps [of slow_os])
next
  case (Suc k)
  then obtain x xs where x: "snd (env w) = x # xs" by (cases "snd (env w)") auto
  let ?w = "emit [EvRecv f [x]] (w\<lparr>env := (fst (env w) + t * ns_per_ms, xs)\<rparr>)"
  have "read_exact slow_os f need t b got w = read_exact slow_os f need t b (got @ [x]) ?w"
    using Suc.prems x slow_wait_for [OF assms(1), of f POLLIN w]
    by (subst read_exact.simps) (simp add: slow_sys world_simps)
  moreover from Suc.IH [of "got @ [x]" ?w] Suc.prems x obtain w' where
    "read_exact slow_os f need t b (got @ [x]) ?w = Some (kOk, (got @ [x]) @ take k xs, w')"
    "env w' = (fst (env w) + t * ns_per_ms + int k * t * ns_per_ms, drop k xs)" by (auto simp: world_simps)
  ultimately show ?case using x by (simp add: algebra_simps)
qed

section \<open>A message outlasts its deadline\<close>

text \<open>
  A read of a message of \<open>n\<close> bytes with the timeout \<open>t\<close> can take \<open>4 + n\<close> times \<open>t\<close> and still return
  \<open>kOk\<close>; with the default limit of 16 MiB a peer can hold a worker that long.
\<close>

lemma read_message_outlasts_timeout:
  assumes "frame_fits mx p" and "0 \<le> t"
  shows "\<exists>w'. read_message slow_os e f [] mx t \<lparr>env = (0, frame p), metrics_of = metrics_init, trace = []\<rparr> =
      Some (kOk, p, w') \<and> fst (env w') = (4 + int (length p)) * t * ns_per_ms"
proof -
  let ?w = "\<lparr>env = (0, frame p), metrics_of = metrics_init, trace = []\<rparr>"
  have take4: "take 4 (frame p) = be_bytes (length p)" "drop 4 (frame p) = p" by (simp_all add: frame_def)
  obtain w1 where h: "read_exact slow_os f 4 t True [] ?w = Some (kOk, be_bytes (length p), w1)"
    "env w1 = (4 * t * ns_per_ms, p)"
    using slow_read_exact [OF assms(2), of 4 "[]" 4 ?w f True] take4 by auto
  have len: "unat (ntohl e (memcpy_u32 e (be_bytes (length p)))) = length p"
    using assms(1) by (simp add: ntohl_memcpy be_value_be_bytes frame_fits_def)
  obtain w2 where b: "read_exact slow_os f (length p) t False [] w1 = Some (kOk, p, w2)"
    "env w2 = (4 * t * ns_per_ms + int (length p) * t * ns_per_ms, [])"
    using slow_read_exact [OF assms(2), of "length p" "[]" "length p" w1 f False] h(2) by auto
  show ?thesis
  proof (cases "p = []")
    case True
    with h len assms(1) show ?thesis by (simp add: read_message_def frame_fits_def)
  next
    case False
    with h b len assms(1) show ?thesis
      by (simp add: read_message_def frame_fits_def overlay_full algebra_simps)
  qed
qed

end
