(* ===== verification/Spec2Isabelle.thy ===== *)
theory Spec2Isabelle
  imports Pool_Waiting Set_Types Router_Config Shutdown Fuzz_Wire Chaos Echo_Threads Teardown Slow_Peer
begin

text \<open>
  A verification library for the inference router, a C++ server under \<open>src/src\<close>. Clients
  connect, send one length-prefixed request and get one reply; the router forwards each request
  over a pooled connection to one of several backends.

  \<^bold>\<open>The parts and how they interact.\<close> \<open>main.cpp\<close> parses the command line and builds the parts.
  The acceptor (\<open>acceptor.cpp\<close>) accepts connections and submits each to the worker pool
  (\<open>thread_pool.cpp\<close>). A worker runs \<open>handle_one\<close> (\<open>handler.cpp\<close>) on it: an optional TLS handshake
  (\<open>tls.cpp\<close>), one message from the client (\<open>connection.cpp\<close>), a borrow from the backend set
  (\<open>backend_set.cpp\<close>), which picks a backend and borrows from its connection pool
  (\<open>backend_pool.cpp\<close>), one exchange with the backend, the reply. Counters (\<open>metrics.cpp\<close>) record
  outcomes. A signal (\<open>shutdown.cpp\<close>) makes \<open>main\<close> drain and exit. Around the router stand an echo
  backend (\<open>src/tools\<close>), a load generator and a script that compares its results (\<open>src/bench\<close>), a fuzzing
  harness and a program that drains a router under load (\<open>src/tests\<close>).

  \<^bold>\<open>Theories.\<close>
  \<^item> \<open>Prelude\<close>: words, options, lists; runs of labelled step relations with the locales
    \<open>machine_invariant\<close> and \<open>simulation\<close>.
  \<^item> \<open>Text_Format\<close>: decimal output, \<open>snprintf\<close>, \<open>strtol\<close>, \<open>atoi\<close>.
  \<^item> \<open>Metrics\<close> (\<open>metrics.h\<close>, \<open>metrics.cpp\<close>): the counters as 64-bit words and the snapshot text.
  \<^item> \<open>System_Calls\<close>: the kernel as a record of functions over an environment, the \<open>world\<close> (environment,
    counters, history of descriptor events), and \<open>did\<close>, what a piece of code did.
  \<^item> \<open>Wire\<close>, \<open>Connection\<close>, \<open>Messages\<close>, \<open>Dial\<close> (\<open>connection.h\<close>, \<open>connection.cpp\<close>): the frame format and
    \<open>parse_frame\<close>; \<open>wait_for\<close>, \<open>read_exact\<close>, \<open>write_exact\<close>, \<open>safe_close\<close>; \<open>read_message\<close>,
    \<open>write_message\<close>; \<open>dial_tcp\<close>, \<open>listen_tcp\<close>. \<open>Echo_World\<close> is a concrete kernel for instances,
    \<open>Slow_Peer\<close> one on which a message takes as many timeouts as it has bytes.
  \<^item> \<open>Backend_Pool\<close>, \<open>Pool_Concurrency\<close> (\<open>backend_pool.h\<close>, \<open>backend_pool.cpp\<close>): the operations, and every
    interleaving of borrowers, the reaper and a shutdown as the step relation \<open>pool_step\<close>. \<open>Pool_Waiting\<close>
    adds who sleeps on the condition variable, who notifies, the reaper's thread and the destructor
    (\<open>wait_step\<close>, a simulation of \<open>pool_step\<close>).
  \<^item> \<open>Backend_Set\<close> (\<open>backend_set.h\<close>, \<open>backend_set.cpp\<close>): selection, borrow, release, shutdown, and
    the concurrent borrowers as \<open>set_step\<close>. \<open>Set_Types\<close>: the shape of a set under all its operations.
  \<^item> \<open>Tls\<close> (\<open>tls.h\<close>, \<open>tls.cpp\<close>): the retry pump, handshake, streams, messages, the context from its
    setup to its destructor.
  \<^item> \<open>Handler\<close>, \<open>Handler_Instances\<close>, \<open>Handler_Properties\<close> (\<open>handler.h\<close>, \<open>handler.cpp\<close>): the four branches
    of \<open>handle_one\<close> as written, the locales \<open>client\<close>, \<open>backend\<close>, \<open>relay_ops\<close> with their
    interpretations, and what a call does.
  \<^item> \<open>Thread_Pool\<close> (\<open>thread_pool.h\<close>, \<open>thread_pool.cpp\<close>): the sections under the lock, the threads with
    their condition variables as \<open>tp_step\<close>, and the abstract queue \<open>bq_step\<close> it implements.
  \<^item> \<open>Acceptor\<close> (\<open>acceptor.h\<close>, \<open>acceptor.cpp\<close>, the callback in \<open>main.cpp\<close>): start, stop, the loop.
  \<^item> \<open>Shutdown\<close> (\<open>shutdown.h\<close>, \<open>shutdown.cpp\<close>): the dispositions of the signals, and the waiting thread
    against any number of calls of \<open>request\<close>, by handlers on any thread, as \<open>shutdown_step\<close>. \<open>Logging\<close> (\<open>log.h\<close>, \<open>log.cpp\<close>).
  \<^item> \<open>Router_Config\<close> and \<open>Router\<close> (\<open>main.cpp\<close>): the command line and the configuration built from it;
    the process as \<open>router_step\<close>, composed of the worker pool, the acceptor's thread, the tasks and
    the main thread's drain. \<open>Teardown\<close>: the stops and the destructors at the end of \<open>main\<close>.
  \<^item> \<open>Echo_Backend\<close> (\<open>src/tools/backend_echo/main.cpp\<close>). \<open>Echo_Threads\<close>: the threads of the echo server inside
    the benchmark and the chaos test, and its \<open>shutdown\<close>, as \<open>echo_step\<close>.
  \<^item> \<open>Doubles\<close>, \<open>Decimals\<close>, \<open>Timestamps\<close>: what the benchmarks use of binary64 arithmetic (rounding of exact
    rationals), of number formatting and of the calendar.
  \<^item> \<open>Load_Bench\<close>, \<open>Bench_Report\<close>, \<open>Bench_Run\<close> (\<open>src/bench/load.cpp\<close>): the clients, the report made of their
    counts, and \<open>main\<close> with the creation of the client threads and their interleaving as \<open>bench_step\<close>.
  \<^item> \<open>Regress\<close> (\<open>src/bench/regress.py\<close>): reading two result files and deciding.
  \<^item> \<open>Fuzz_Wire\<close> (\<open>src/tests/fuzz/fuzz_wire.cpp\<close>), \<open>Chaos\<close> (\<open>src/tests/chaos/chaos.cpp\<close>): the harness as a
    function; the options, clients, early exits, drain, verdict, output and result file of the chaos test,
    whose router is \<open>router_step\<close>.

  \<^bold>\<open>What the properties show.\<close> The wire format is decoded exactly and messages survive a round trip on
  either byte order. A completed request was relayed byte for byte over one backend connection; an
  errored one shows the client an error message or a truncated reply and nothing else; either way
  the books balance, no descriptor leaks or is closed twice, and the call returns. The connection
  pool gives every connection one owner in every interleaving and respects \<open>max_size\<close> without
  health checks; no borrower sleeps while a place is free and nobody awake knows, as long as no notified
  borrower comes too late; and its destructor returns. The set's counters are the outstanding borrows in
  every interleaving, each pick takes the least loaded backend, and for every accepted command line the
  borrows follow the weights. The worker pool runs every accepted task once, in order, loses no
  wake-up, implements a bounded queue, and \<open>stop\<close> returns with everything run. The router never
  deadlocks while it shuts down, and when it exits every accepted connection has been handled; so the
  verdict of the chaos test depends on the counted drops alone. The indices into a backend set are in range
  however it is used. A lemma shows that the fuzzing harness passes on every input. The totals of a benchmark
  account for every request of the threads that could be created, in every interleaving, its percentiles are
  order statistics, the echo server in its process shuts down without a thread left, and the
  regression gate decides on the files it writes as the threshold says, up to one percent. Where
  the code departs from its documentation, a property says how: the health check and \<open>max_size\<close>,
  a release or a health check that races with a shutdown, borrowers that are not woken for an idle connection,
  the grace deadline and the drops before it, the signal handlers' mutex, the acceptor's failed start, the
  benchmark's abnormal ends; lemmas do so for the length header on a big-endian host (\<open>Tls\<close>), for the
  read deadline that bounds only the pause before each piece (\<open>Slow_Peer\<close>), for the latest
  result that is not the newest (\<open>Regress\<close>) and for the result that is reported but not written
  (\<open>Bench_Report\<close>).

  \<^bold>\<open>Modelling choices.\<close> The kernel, the resolver and OpenSSL are parameters; the hypotheses on them
  (\<open>recv_bounded\<close>, \<open>finite_interrupts\<close>, \<open>netdb_quiet\<close>, \<open>ssl_bounded\<close>, \<open>ssl_live\<close>, \<open>cv_live\<close>,
  \<open>cv_keeps\<close>, \<open>accept_valid\<close>, \<open>reactor_live\<close>, \<open>finite_stream\<close>) state their documented behaviour, and each
  is instantiated by a witness. Loops that may run for ever are \<open>partial_function (option)\<close>: not
  returning is None, and termination is proved with a budget that bounds interrupts and retries. Only
  the reader of JSON members has fuel, the length of the text, of which every member takes some; it is
  shown to read every result file. Concurrent components are step relations whose steps are the critical sections,
  so the properties hold for every schedule; atomics are sequentially consistent. Lengths and
  loads are words where overflow matters. Times are integers.

  \<^bold>\<open>Not modelled.\<close> The usage texts and the log messages at their call sites (text output); how long the
  programs sleep; what the regression script prints, and JSON beyond flat objects of numbers and plain strings,
  which no result file contains; the integration tests and the shell script, which run the programs; weak
  memory orders; and exhaustion of memory.
\<close>

section \<open>The handler is a task of the router\<close>

lemma pool_ops_only_pool_counters:
  "set ops \<subseteq> {Inc_pool_borrow, Inc_pool_create} \<Longrightarrow>
     \<exists>b c. apply_metrics ops m = m\<lparr>pool_borrows := b, pool_creates := c\<rparr>"
proof (induction ops arbitrary: m)
  case Nil
  show ?case by (rule exI [of _ "pool_borrows m"], rule exI [of _ "pool_creates m"]) simp
next
  case (Cons op ops)
  from Cons.IH [of "apply_metric op m"] Cons.prems show ?case
    by (auto simp: metric_simps) blast+
qed

lemma call_did_outcome:
  assumes "call_did h f solo I I' w w'"
  shows "\<exists>ok b c. metrics_of w' = (dec_in_flight ((if ok then inc_completed else inc_errored)
    (inc_in_flight (metrics_of w))))\<lparr>pool_borrows := b, pool_creates := c\<rparr>"
  using assms unfolding call_did_def
proof (elim disjE exE conjE)
  assume "did w [EvMetric Inc_in_flight, EvClose f, EvMetric Inc_errored, EvMetric Dec_in_flight] w'"
  then show ?thesis
    by (intro exI [of _ False] exI [of _ "pool_borrows (metrics_of w)"] exI [of _ "pool_creates (metrics_of w)"])
      (simp add: did_def trace_simps metric_simps)
next
  fix x assume d: "did w (EvMetric Inc_in_flight # exchange_trace (client_reads h f) (client_writes h f) f x) w'"
    and x: "exchange_ok (max_payload h) x"
  from x have "set (metric_ops (bor_ev x)) \<subseteq> {Inc_pool_borrow, Inc_pool_create}"
    and fin: "final x = Inc_completed \<or> final x = Inc_errored"
    by (auto simp: exchange_ok_def pool_events_def completed_ok_def errored_ok_def)
  from pool_ops_only_pool_counters [OF this(1), of "inc_in_flight (metrics_of w)"] obtain b c
    where "apply_metrics (metric_ops (bor_ev x)) (inc_in_flight (metrics_of w)) =
      (inc_in_flight (metrics_of w))\<lparr>pool_borrows := b, pool_creates := c\<rparr>" by blast
  with d fin show ?thesis
    by (intro exI [of _ "final x = Inc_completed"] exI [of _ b] exI [of _ c])
      (auto simp: did_def trace_simps exchange_metric_ops [OF x] metric_simps)
qed

lemma router_task_runs:
  assumes "f \<in># fresh s"
  shows "runs router_step s [Enter f, Outcome f ok, Leave f]
    (s\<lparr>left := add_mset f (left s), counters := dec_in_flight ((if ok then inc_completed else inc_errored)
       (inc_in_flight (counters s)))\<rparr>)"
proof -
  let ?s1 = "s\<lparr>entered := add_mset f (entered s), counters := inc_in_flight (counters s)\<rparr>"
  let ?s2 = "s\<lparr>counted := add_mset f (counted s), counters := (if ok then inc_completed else inc_errored)
    (inc_in_flight (counters s))\<rparr>"
  have "router_step s (Enter f) ?s1" using assms by (intro enter) (simp add: fresh_def)
  moreover have "router_step ?s1 (Outcome f ok) ?s2" using outcome [of f ?s1 ok] by (cases ok) simp_all
  moreover have "router_step ?s2 (Leave f) (s\<lparr>left := add_mset f (left s), counters := dec_in_flight
      ((if ok then inc_completed else inc_errored) (inc_in_flight (counters s)))\<rparr>)"
    using leave [of f ?s2] by (cases ok) simp_all
  ultimately show ?thesis unfolding runs_Cons_iff runs_Nil_iff by blast
qed



end
